(* ===== verification/Prelude.thy ===== *)
theory Prelude
  imports Main "HOL-Library.Word" "HOL-Library.Monad_Syntax"
begin

text \<open>
  Shared vocabulary of the development: Rust's machine integers, the panicking
  slice operations, little-endian field access, well-formed UTF-8 and memory
  addressed by bytes.

  Conventions. The shipped kernel is built in release mode, so integer
  arithmetic wraps and out-of-range indexing panics (aborts). Fixed-width
  integers are words. A computation that can panic returns \<open>'a option\<close>, with
  \<open>None\<close> for the panic. Rust's own \<open>Option\<close> results are \<open>option\<close> values as well;
  where a function can do both, the outer \<open>option\<close> is the panic. Rust's
  \<open>Result<T, &str>\<close> is \<open>string + 'a\<close>.
\<close>

unbundle bit_operations_syntax

type_synonym u8 = "8 word"
type_synonym u16 = "16 word"
type_synonym u32 = "32 word"
type_synonym u64 = "64 word"
type_synonym bytes = "8 word list"

abbreviation U64_MAX :: u64 where
  "U64_MAX \<equiv> - 1"

named_theorems slice_simps
named_theorems le_simps

section \<open>Slices\<close>

text \<open>\<open>&xs[a..b]\<close>, \<open>xs[i]\<close>, \<open>xs[i] = v\<close> and \<open>xs[a..b].copy_from_slice(ys)\<close>.\<close>

definition slice :: "'a list \<Rightarrow> nat \<Rightarrow> nat \<Rightarrow> 'a list option" where
  "slice xs a b = (if a \<le> b \<and> b \<le> length xs then Some (take (b - a) (drop a xs)) else None)"

definition index_at :: "'a list \<Rightarrow> nat \<Rightarrow> 'a option" where
  "index_at xs i = (if i < length xs then Some (xs ! i) else None)"

definition overlay :: "'a list \<Rightarrow> nat \<Rightarrow> 'a list \<Rightarrow> 'a list" where
  "overlay xs a ys = take a xs @ ys @ drop (a + length ys) xs"

definition copy_slice :: "'a list \<Rightarrow> nat \<Rightarrow> nat \<Rightarrow> 'a list \<Rightarrow> 'a list option" where
  "copy_slice xs a b ys =
     (if a \<le> b \<and> b \<le> length xs \<and> length ys = b - a then Some (overlay xs a ys) else None)"

definition store_at :: "'a list \<Rightarrow> nat \<Rightarrow> 'a \<Rightarrow> 'a list option" where
  "store_at xs i v = (if i < length xs then Some (xs[i := v]) else None)"

lemma slice_Some [slice_simps]:
  "a \<le> b \<Longrightarrow> b \<le> length xs \<Longrightarrow> slice xs a b = Some (take (b - a) (drop a xs))"
  by (simp add: slice_def)

lemma index_at_Some [slice_simps]: "i < length xs \<Longrightarrow> index_at xs i = Some (xs ! i)"
  by (simp add: index_at_def)

lemma store_at_Some [slice_simps]: "i < length xs \<Longrightarrow> store_at xs i v = Some (xs[i := v])"
  by (simp add: store_at_def)

lemma copy_slice_Some [slice_simps]:
  "a \<le> b \<Longrightarrow> b \<le> length xs \<Longrightarrow> length ys = b - a \<Longrightarrow> copy_slice xs a b ys = Some (overlay xs a ys)"
  by (simp add: copy_slice_def)

lemma length_overlay [simp]: "a + length ys \<le> length xs \<Longrightarrow> length (overlay xs a ys) = length xs"
  by (simp add: overlay_def)

lemma nth_overlay:
  assumes "a + length ys \<le> length xs" "i < length xs"
  shows "overlay xs a ys ! i = (if a \<le> i \<and> i < a + length ys then ys ! (i - a) else xs ! i)"
  using assms by (auto simp: overlay_def nth_append min_def)

lemma take_drop_overlay_same [simp]:
  assumes "a + length ys \<le> length xs" "n = length ys"
  shows "take n (drop a (overlay xs a ys)) = ys"
  using assms by (simp add: overlay_def)

lemma take_drop_overlay_other:
  assumes "a + length ys \<le> length xs" "b + n \<le> a \<or> a + length ys \<le> b" "b + n \<le> length xs"
  shows "take n (drop b (overlay xs a ys)) = take n (drop b xs)"
  using assms by (intro nth_equalityI) (auto simp: nth_overlay)

lemma overlay_Nil [simp]: "overlay xs a [] = xs"
  by (simp add: overlay_def)

section \<open>Words and naturals\<close>

lemma unat_of_nat_less: "n < 2 ^ LENGTH('a) \<Longrightarrow> unat (of_nat n :: 'a::len word) = n"
  by (simp add: unsigned_of_nat take_bit_nat_eq_self)

lemma unat_u8_less: "unat (w :: u8) < 256"
  using unsigned_less[of w] by simp

lemma unat_u16_less: "unat (w :: u16) < 65536"
  using unsigned_less[of w, where 'a = nat] by simp

lemma unat_u32_less: "unat (w :: u32) < 4294967296"
  using unsigned_less[of w, where 'a = nat] by simp

lemma unat_u64_less: "unat (w :: u64) < 18446744073709551616"
  using unsigned_less[of w, where 'a = nat] by simp

section \<open>Little-endian integers\<close>

text \<open>\<open>to_le n w\<close> is \<open>w.to_le_bytes()\<close> for an \<open>n\<close>-byte integer, \<open>of_le\<close> is
  \<open>from_le_bytes\<close>.\<close>

definition to_le :: "nat \<Rightarrow> 'a::len word \<Rightarrow> bytes" where
  "to_le n w = map (\<lambda>i. ucast (drop_bit (8 * i) w)) [0..<n]"

fun of_le :: "bytes \<Rightarrow> 'a::len word" where
  "of_le [] = 0"
| "of_le (b # bs) = ucast b OR push_bit 8 (of_le bs)"

lemma length_to_le [simp]: "length (to_le n w) = n"
  by (simp add: to_le_def)

lemma bit_of_le:
  "bit (of_le bs :: 'a::len word) k \<longleftrightarrow>
     k < LENGTH('a) \<and> k div 8 < length bs \<and> bit (bs ! (k div 8)) (k mod 8)"
proof (induction bs arbitrary: k)
  case Nil
  then show ?case by simp
next
  case (Cons b bs)
  show ?case
  proof (cases "k < 8")
    case True
    then show ?thesis
      by (simp add: bit_or_iff bit_push_bit_iff unsigned_ucast_eq bit_ucast_iff)
  next
    case False
    then have k: "k div 8 = Suc ((k - 8) div 8)" "(k - 8) mod 8 = k mod 8" "8 \<le> k"
      by (simp_all add: le_div_geq le_mod_geq)
    have "\<not> bit b k" using False by (auto dest: bit_imp_le_length)
    then show ?thesis
      using k by (auto simp: bit_or_iff bit_push_bit_iff bit_ucast_iff Cons.IH)
  qed
qed

lemma of_le_to_le [simp, le_simps]:
  assumes "LENGTH('a) = 8 * n"
  shows "of_le (to_le n (w :: 'a::len word)) = w"
proof (rule bit_word_eqI)
  fix k assume "k < LENGTH('a)"
  then have "k div 8 < n" using assms by simp
  then show "bit (of_le (to_le n w) :: 'a word) k = bit w k"
    using \<open>k < LENGTH('a)\<close> by (simp add: bit_of_le to_le_def bit_simps mult.commute)
qed

lemma to_le_of_le [le_simps]:
  assumes "LENGTH('a::len) = 8 * n" "length bs = n"
  shows "to_le n (of_le bs :: 'a word) = bs"
proof (rule nth_equalityI)
  show "length (to_le n (of_le bs :: 'a word)) = length bs" using assms by simp
next
  fix i assume "i < length (to_le n (of_le bs :: 'a word))"
  then have i: "i < n" by simp
  show "to_le n (of_le bs :: 'a word) ! i = bs ! i"
  proof (rule bit_word_eqI)
    fix k assume k: "k < LENGTH(8)"
    have "8 * i + k < LENGTH('a)" using assms i k by simp
    then show "bit (to_le n (of_le bs :: 'a word) ! i) k = bit (bs ! i) k"
      using i k assms by (simp add: to_le_def bit_simps bit_of_le)
  qed
qed

text \<open>Reading and writing an \<open>n\<close>-byte field of a buffer at offset \<open>a\<close>.\<close>

definition get_le :: "nat \<Rightarrow> bytes \<Rightarrow> nat \<Rightarrow> 'a::len word option" where
  "get_le n bs a = map_option of_le (slice bs a (a + n))"

definition put_le :: "nat \<Rightarrow> bytes \<Rightarrow> nat \<Rightarrow> 'a::len word \<Rightarrow> bytes option" where
  "put_le n bs a w = copy_slice bs a (a + n) (to_le n w)"

lemma get_le_Some [le_simps]:
  "a + n \<le> length bs \<Longrightarrow> get_le n bs a = Some (of_le (take n (drop a bs)))"
  by (simp add: get_le_def slice_def)

lemma put_le_Some [le_simps]:
  "a + n \<le> length bs \<Longrightarrow> put_le n bs a w = Some (overlay bs a (to_le n w))"
  by (simp add: put_le_def copy_slice_def)

lemma get_le_overlay_same [le_simps]:
  assumes "LENGTH('a) = 8 * n" "a + n \<le> length bs"
  shows "get_le n (overlay bs a (to_le n (w :: 'a::len word))) a = Some w"
  using assms by (simp add: get_le_Some)

lemma get_le_overlay_other:
  assumes "a + length ys \<le> length bs" "b + n \<le> a \<or> a + length ys \<le> b" "b + n \<le> length bs"
  shows "get_le n (overlay bs a ys) b = get_le n bs b"
  using assms by (simp add: get_le_Some take_drop_overlay_other)

section \<open>UTF-8\<close>

text \<open>\<open>core::str::from_utf8\<close>: the well-formed byte sequences of Unicode.\<close>

definition utf8_cont :: "u8 \<Rightarrow> bool" where
  "utf8_cont b = (0x80 \<le> b \<and> b \<le> 0xBF)"

fun utf8_ok :: "bytes \<Rightarrow> bool" where
  "utf8_ok [] = True"
| "utf8_ok (b0 # bs) =
     (if b0 \<le> 0x7F then utf8_ok bs
      else if 0xC2 \<le> b0 \<and> b0 \<le> 0xDF then
        (case bs of b1 # r \<Rightarrow> utf8_cont b1 \<and> utf8_ok r | _ \<Rightarrow> False)
      else if 0xE0 \<le> b0 \<and> b0 \<le> 0xEF then
        (case bs of
           b1 # b2 # r \<Rightarrow>
             utf8_cont b1 \<and> (b0 = 0xE0 \<longrightarrow> 0xA0 \<le> b1) \<and> (b0 = 0xED \<longrightarrow> b1 \<le> 0x9F)
             \<and> utf8_cont b2 \<and> utf8_ok r
         | _ \<Rightarrow> False)
      else if 0xF0 \<le> b0 \<and> b0 \<le> 0xF4 then
        (case bs of
           b1 # b2 # b3 # r \<Rightarrow>
             utf8_cont b1 \<and> (b0 = 0xF0 \<longrightarrow> 0x90 \<le> b1) \<and> (b0 = 0xF4 \<longrightarrow> b1 \<le> 0x8F)
             \<and> utf8_cont b2 \<and> utf8_cont b3 \<and> utf8_ok r
         | _ \<Rightarrow> False)
      else False)"

section \<open>Division\<close>

text \<open>A division by zero panics.\<close>

definition udiv :: "nat \<Rightarrow> nat \<Rightarrow> nat option" where
  "udiv a b = (if b = 0 then None else Some (a div b))"

definition wdiv :: "u32 \<Rightarrow> u32 \<Rightarrow> u32 option" where
  "wdiv a b = (if b = 0 then None else Some (a div b))"

definition wmod :: "u32 \<Rightarrow> u32 \<Rightarrow> u32 option" where
  "wmod a b = (if b = 0 then None else Some (a mod b))"

section \<open>Byte-addressed memory\<close>

definition mem_read :: "(u64 \<Rightarrow> u8) \<Rightarrow> u64 \<Rightarrow> nat \<Rightarrow> bytes" where
  "mem_read m a n = map (\<lambda>i. m (a + of_nat i)) [0..<n]"

definition mem_write :: "u64 \<Rightarrow> bytes \<Rightarrow> (u64 \<Rightarrow> u8) \<Rightarrow> u64 \<Rightarrow> u8" where
  "mem_write a bs m = (\<lambda>x. if unat (x - a) < length bs then bs ! unat (x - a) else m x)"

lemma length_mem_read [simp]: "length (mem_read m a n) = n"
  by (simp add: mem_read_def)

lemma mem_read_write_same [simp]: "length bs = n \<Longrightarrow> n \<le> 2 ^ 64 \<Longrightarrow> mem_read (mem_write a bs m) a n = bs"
  by (auto simp: mem_read_def mem_write_def unat_of_nat_less intro!: nth_equalityI)

lemma unat_diff_base:
  fixes a :: u64
  assumes "i < 2 ^ 64" "k < 2 ^ 64"
  shows "unat (a + of_nat i - (a + of_nat k)) = (if k \<le> i then i - k else i + 2 ^ 64 - k)"
proof -
  have ui: "unat (of_nat i :: u64) = i" and uk: "unat (of_nat k :: u64) = k" using assms by (auto intro!: unat_of_nat_less)
  have "a + of_nat i - (a + of_nat k) = (of_nat i - of_nat k :: u64)" by simp
  also have "unat \<dots> = (if k \<le> i then i - k else i + 2 ^ 64 - k)"
    using ui uk by (simp add: unat_sub_if_size word_size)
  finally show ?thesis .
qed

lemma mem_read_write_other:
  assumes "j + n \<le> k \<or> k + length bs \<le> j" "j + n \<le> 2 ^ 64" "k + length bs \<le> 2 ^ 64" "k < 2 ^ 64"
  shows "mem_read (mem_write (a + of_nat k) bs m) (a + of_nat j) n = mem_read m (a + of_nat j) n"
proof (rule nth_equalityI)
  fix i assume "i < length (mem_read (mem_write (a + of_nat k) bs m) (a + of_nat j) n)"
  then have i: "i < n" by simp
  have "unat (a + of_nat (j + i) - (a + of_nat k)) = (if k \<le> j + i then j + i - k else j + i + 2 ^ 64 - k)"
    by (rule unat_diff_base) (use i assms in auto)
  then have "\<not> unat (a + of_nat (j + i) - (a + of_nat k)) < length bs" using assms i by (auto split: if_splits)
  then show "mem_read (mem_write (a + of_nat k) bs m) (a + of_nat j) n ! i = mem_read m (a + of_nat j) n ! i"
    using i by (simp add: mem_read_def mem_write_def add.assoc)
qed simp

lemma mem_read_sub: "a + k \<le> n \<Longrightarrow> mem_read m (b + of_nat a) k = take k (drop a (mem_read m b n))"
  by (rule nth_equalityI) (simp_all add: mem_read_def add.assoc)

end
