(* ===== verification/Memory.thy ===== *)
theory Memory
  imports Prelude
begin

text \<open>
  memory/src: the boot frame allocators, the SLUB allocator, kernel stacks and user page
  tables. The page table mapper belongs to the x86_64 crate and is an argument \<open>map_to\<close> of the
  operations that use it; \<open>'m\<close> is its state. An outer \<open>None\<close> is a panic.
\<close>

abbreviation PAGE_SIZE :: u64 where "PAGE_SIZE \<equiv> 4096"

definition canonical :: "u64 \<Rightarrow> bool" where
  "canonical a \<longleftrightarrow> a < 0x800000000000 \<or> 0xFFFF800000000000 \<le> a"

text \<open>\<open>VirtAddr::new\<close> and \<open>PhysAddr::new\<close> panic on an invalid address.\<close>

definition virt_new :: "u64 \<Rightarrow> u64 option" where
  "virt_new a = (if canonical a then Some a else None)"

definition phys_new :: "u64 \<Rightarrow> u64 option" where
  "phys_new a = (if a < 0x10000000000000 then Some a else None)"

definition containing :: "u64 \<Rightarrow> u64" where
  "containing a = a - a mod PAGE_SIZE"

text \<open>\<open>PhysFrame::range_inclusive\<close> and \<open>Page::range_inclusive\<close>.\<close>

definition page_range :: "u64 \<Rightarrow> u64 \<Rightarrow> u64 list" where
  "page_range s e = (if s \<le> e then map (\<lambda>k. s + of_nat k * PAGE_SIZE) [0..<Suc (unat (e - s) div 4096)] else [])"

section \<open>Frame allocators\<close>

text \<open>The static array of boot frames and the allocator's position in it.\<close>

record StaticBootFrameAllocator =
  boot_frames :: "u64 option list"
  fa_next :: nat
  fa_limit :: nat

definition static_alloc_new :: "u64 option list \<Rightarrow> nat \<Rightarrow> StaticBootFrameAllocator" where
  "static_alloc_new frames frame_count = \<lparr> boot_frames = frames, fa_next = 0, fa_limit = frame_count \<rparr>"

function allocate_frame :: "StaticBootFrameAllocator \<Rightarrow> (u64 option \<times> StaticBootFrameAllocator) option" where
  "allocate_frame a =
     (if fa_next a < fa_limit a then
        (if fa_next a < length (boot_frames a) then
           (case boot_frames a ! fa_next a of
              Some f \<Rightarrow> Some (Some f, a\<lparr>boot_frames := (boot_frames a)[fa_next a := None], fa_next := fa_next a + 1\<rparr>)
            | None \<Rightarrow> allocate_frame (a\<lparr>fa_next := fa_next a + 1\<rparr>))
         else None)
      else Some (None, a))"
  by pat_completeness auto
termination
  by (relation "measure (\<lambda>a. fa_limit a - fa_next a)") auto

declare allocate_frame.simps [simp del]

record BootFrameAllocator =
  bf_frames :: "u64 list"
  bf_next :: nat

record MemEntry =
  me_base :: u64
  me_length :: u64
  me_usable :: bool

fun usable_frames :: "MemEntry list \<Rightarrow> u64 list option" where
  "usable_frames [] = Some []"
| "usable_frames (r # rs) =
     (if me_usable r then
        do { s \<leftarrow> phys_new (me_base r);
             e \<leftarrow> phys_new (me_base r + me_length r - 1);
             rest \<leftarrow> usable_frames rs;
             Some (page_range (containing s) (containing e) @ rest) }
      else usable_frames rs)"

definition boot_alloc_new :: "MemEntry list \<Rightarrow> BootFrameAllocator option" where
  "boot_alloc_new memory_map = map_option (\<lambda>fs. \<lparr> bf_frames = fs, bf_next = 0 \<rparr>) (usable_frames memory_map)"

definition boot_allocate_frame :: "BootFrameAllocator \<Rightarrow> u64 option \<times> BootFrameAllocator" where
  "boot_allocate_frame a =
     (if bf_next a < length (bf_frames a) then (Some (bf_frames a ! bf_next a), a\<lparr>bf_next := bf_next a + 1\<rparr>)
      else (None, a))"

section \<open>Mapping\<close>

datatype pflag = PRESENT | WRITABLE | USER_ACCESSIBLE | NO_EXECUTE

datatype map_error = PageAlreadyMapped u64 | FrameAllocationFailed | ParentEntryHugePage

text \<open>\<open>map_to page frame flags\<close>: the mapper may take frames for intermediate tables.\<close>

type_synonym 'm map_to =
  "u64 \<Rightarrow> u64 \<Rightarrow> pflag set \<Rightarrow> 'm \<times> StaticBootFrameAllocator \<Rightarrow> (map_error + unit) \<times> 'm \<times> StaticBootFrameAllocator"

record 'm PageAllocator =
  pa_mapper :: 'm
  pa_frames :: StaticBootFrameAllocator

text \<open>Map one fresh frame at each address; \<open>False\<close> when a frame or a mapping failed.\<close>

fun map_pages :: "'m map_to \<Rightarrow> pflag set \<Rightarrow> u64 list \<Rightarrow> 'm PageAllocator \<Rightarrow> (bool \<times> 'm PageAllocator) option" where
  "map_pages map_to flags [] pa = Some (True, pa)"
| "map_pages map_to flags (a # as) pa =
     do { v \<leftarrow> virt_new a;
          (f, fa) \<leftarrow> allocate_frame (pa_frames pa);
          case f of
            None \<Rightarrow> Some (False, pa\<lparr>pa_frames := fa\<rparr>)
          | Some frame \<Rightarrow>
              (case map_to (containing v) frame flags (pa_mapper pa, fa) of
                 (Inl e, m, fa) \<Rightarrow> Some (False, \<lparr> pa_mapper = m, pa_frames = fa \<rparr>)
               | (Inr _, m, fa) \<Rightarrow> map_pages map_to flags as \<lparr> pa_mapper = m, pa_frames = fa \<rparr>) }"

definition block_pages :: "u64 \<Rightarrow> nat \<Rightarrow> u64 list" where
  "block_pages base n_pages = map (\<lambda>i. base + of_nat i * PAGE_SIZE) [0..<n_pages]"

section \<open>SLUB\<close>

definition SIZE_CLASSES :: "nat list" where
  "SIZE_CLASSES = [0x1000, 0x2000, 0x4000, 0x8000, 0x10000, 0x20000, 0x40000, 0x80000, 0x100000]"

abbreviation SLUB_VA_START :: u64 where "SLUB_VA_START \<equiv> 0xFFFFD00000000000"

record SlubCache =
  sc_size :: nat
  free_list :: "u64 list"

record SlubAllocator =
  caches :: "SlubCache list"
  next_va :: u64

definition SlubCache_new :: "nat \<Rightarrow> SlubCache" where
  "SlubCache_new sz = \<lparr> sc_size = sz, free_list = [] \<rparr>"

definition slub_new :: SlubAllocator where
  "slub_new = \<lparr> caches = map SlubCache_new SIZE_CLASSES, next_va = SLUB_VA_START \<rparr>"

definition size_class_index :: "nat \<Rightarrow> nat option" where
  "size_class_index sz = (case filter (\<lambda>i. sz \<le> SIZE_CLASSES ! i) [0..<length SIZE_CLASSES] of [] \<Rightarrow> None | i # _ \<Rightarrow> Some i)"

definition SLUB_FLAGS :: "pflag set" where
  "SLUB_FLAGS = {PRESENT, WRITABLE, NO_EXECUTE}"

text \<open>\<open>PAGE_ALLOC\<close> is \<open>None\<close> before it is initialised.\<close>

definition slub_alloc ::
    "'m map_to \<Rightarrow> nat \<Rightarrow> SlubAllocator \<times> 'm PageAllocator option \<Rightarrow>
       (u64 option \<times> SlubAllocator \<times> 'm PageAllocator option) option" where
  "slub_alloc map_to sz st =
     (case st of (slub, pg) \<Rightarrow>
        case size_class_index sz of
          None \<Rightarrow> Some (None, slub, pg)
        | Some idx \<Rightarrow>
            do { cache \<leftarrow> index_at (caches slub) idx;
                 if free_list cache \<noteq> [] then
                   Some (Some (last (free_list cache)),
                         slub\<lparr>caches := (caches slub)[idx := cache\<lparr>free_list := butlast (free_list cache)\<rparr>]\<rparr>, pg)
                 else
                   do { let alloc_size = sc_size cache;
                        let n_pages = alloc_size div 4096;
                        let va_start = next_va slub;
                        case pg of
                          None \<Rightarrow> Some (None, slub, pg)
                        | Some pa \<Rightarrow>
                            do { (ok, pa) \<leftarrow> map_pages map_to SLUB_FLAGS (block_pages va_start n_pages) pa;
                                 if ok then Some (Some va_start, slub\<lparr>next_va := next_va slub + of_nat alloc_size\<rparr>, Some pa)
                                 else Some (None, slub, Some pa) } } })"

definition slub_free :: "u64 \<Rightarrow> nat \<Rightarrow> SlubAllocator \<Rightarrow> SlubAllocator option" where
  "slub_free p sz slub =
     (case size_class_index sz of
        None \<Rightarrow> Some slub
      | Some idx \<Rightarrow>
          do { cache \<leftarrow> index_at (caches slub) idx;
               Some (slub\<lparr>caches := (caches slub)[idx := cache\<lparr>free_list := free_list cache @ [p]\<rparr>]\<rparr>) })"

text \<open>Small objects come from the kernel heap, the \<open>linked_list_allocator\<close> crate: \<open>heap_alloc\<close> and
  \<open>heap_free\<close> on its state \<open>'h\<close>.\<close>

record ('m, 'h) kmem =
  km_slub :: "SlubAllocator option"
  km_pages :: "'m PageAllocator option"
  km_heap :: 'h

definition alloc_kernel_object ::
    "(nat \<Rightarrow> 'h \<Rightarrow> u64 \<times> 'h) \<Rightarrow> 'm map_to \<Rightarrow> nat \<Rightarrow> ('m, 'h) kmem \<Rightarrow> (u64 option \<times> ('m, 'h) kmem) option" where
  "alloc_kernel_object heap_alloc map_to sz k =
     (if sz < 4096 then
        (case heap_alloc sz (km_heap k) of (p, h) \<Rightarrow> Some (if p = 0 then None else Some p, k\<lparr>km_heap := h\<rparr>))
      else
        (case km_slub k of
           None \<Rightarrow> Some (None, k)
         | Some slub \<Rightarrow>
             do { (p, slub, pg) \<leftarrow> slub_alloc map_to sz (slub, km_pages k);
                  Some (p, k\<lparr>km_slub := Some slub, km_pages := pg\<rparr>) }))"

definition slub_alloc_kernel_stack ::
    "(nat \<Rightarrow> 'h \<Rightarrow> u64 \<times> 'h) \<Rightarrow> 'm map_to \<Rightarrow> nat \<Rightarrow> ('m, 'h) kmem \<Rightarrow> (u64 option \<times> ('m, 'h) kmem) option" where
  "slub_alloc_kernel_stack heap_alloc map_to sz k =
     do { (p, k) \<leftarrow> alloc_kernel_object heap_alloc map_to sz k;
          case p of
            None \<Rightarrow> Some (None, k)
          | Some base \<Rightarrow> do { top \<leftarrow> virt_new (base + of_nat sz); Some (Some top, k) } }"

definition free_kernel_object ::
    "(u64 \<Rightarrow> nat \<Rightarrow> 'h \<Rightarrow> 'h) \<Rightarrow> u64 \<Rightarrow> nat \<Rightarrow> ('m, 'h) kmem \<Rightarrow> ('m, 'h) kmem option" where
  "free_kernel_object heap_free p sz k =
     (if sz < 4096 then Some (k\<lparr>km_heap := heap_free p sz (km_heap k)\<rparr>)
      else
        (case km_slub k of
           None \<Rightarrow> Some k
         | Some slub \<Rightarrow> do { slub \<leftarrow> slub_free p sz slub; Some (k\<lparr>km_slub := Some slub\<rparr>) }))"

section \<open>Kernel stacks\<close>

abbreviation KSTACK_VA_START :: u64 where "KSTACK_VA_START \<equiv> 0xFFFFB00000000000"
abbreviation KSTACK_VA_END :: u64 where "KSTACK_VA_END \<equiv> 0xFFFFD00000000000"

text \<open>\<open>KStackAllocator::alloc\<close> advances only after every page is mapped; the global
  \<open>alloc_kernel_stack\<close> advances first. The state is the next address.\<close>

definition kstack_alloc :: "'m map_to \<Rightarrow> nat \<Rightarrow> u64 \<times> 'm PageAllocator \<Rightarrow> (u64 option \<times> u64 \<times> 'm PageAllocator) option" where
  "kstack_alloc map_to sz st =
     (case st of (base, pa) \<Rightarrow>
        if sz = 0 \<or> sz mod 4096 \<noteq> 0 then Some (None, base, pa)
        else if KSTACK_VA_END < base + of_nat sz then Some (None, base, pa)
        else
          do { (ok, pa) \<leftarrow> map_pages map_to SLUB_FLAGS (block_pages base (sz div 4096)) pa;
               if ok then do { top \<leftarrow> virt_new (base + of_nat sz); Some (Some top, base + of_nat sz, pa) }
               else Some (None, base, pa) })"

definition alloc_kernel_stack ::
    "'m map_to \<Rightarrow> nat \<Rightarrow> u64 \<times> 'm PageAllocator option \<Rightarrow> (u64 option \<times> u64 \<times> 'm PageAllocator option) option" where
  "alloc_kernel_stack map_to sz st =
     (case st of (base, pg) \<Rightarrow>
        if sz = 0 \<or> sz mod 4096 \<noteq> 0 then Some (None, base, pg)
        else if KSTACK_VA_END < base + of_nat sz then Some (None, base, pg)
        else
          (let stack_top = base + of_nat sz
           in case pg of
                None \<Rightarrow> Some (None, stack_top, None)
              | Some pa \<Rightarrow>
                  do { (ok, pa) \<leftarrow> map_pages map_to SLUB_FLAGS (block_pages base (sz div 4096)) pa;
                       if ok then do { top \<leftarrow> virt_new stack_top; Some (Some top, stack_top, Some pa) }
                       else Some (None, stack_top, Some pa) }))"

definition init_kstack_region ::
    "'m map_to \<Rightarrow> u64 \<times> 'm PageAllocator option \<Rightarrow> (unit option \<times> u64 \<times> 'm PageAllocator option) option" where
  "init_kstack_region map_to st =
     map_option (\<lambda>(r, st). (map_option (\<lambda>_. ()) r, st)) (alloc_kernel_stack map_to (1024 * 1024) st)"

section \<open>The kernel heap and user page tables\<close>

abbreviation HEAP_START :: u64 where "HEAP_START \<equiv> 0xFFFFC00000000000"
abbreviation HEAP_SIZE :: u64 where "HEAP_SIZE \<equiv> 0x100000"

text \<open>Mapping the heap panics when a frame or a mapping fails.\<close>

definition init_heap :: "'m map_to \<Rightarrow> 'm PageAllocator \<Rightarrow> 'm PageAllocator option" where
  "init_heap map_to pa =
     do { (ok, pa) \<leftarrow> map_pages map_to {PRESENT, WRITABLE}
            (page_range (containing HEAP_START) (containing (HEAP_START + HEAP_SIZE - 1))) pa;
          if ok then Some pa else None }"

text \<open>The top-level tables in physical memory: the 512 entries of the table in a frame.\<close>

type_synonym pml4s = "u64 \<Rightarrow> u64 list"

definition create_user_page_table ::
    "u64 \<Rightarrow> StaticBootFrameAllocator \<times> pml4s \<Rightarrow> (u64 option \<times> StaticBootFrameAllocator \<times> pml4s) option" where
  "create_user_page_table active st =
     (case st of (fa, pm) \<Rightarrow>
        do { (f, fa) \<leftarrow> allocate_frame fa;
             case f of
               None \<Rightarrow> Some (None, fa, pm)
             | Some frame \<Rightarrow>
                 (let pm = pm(frame := replicate 512 0)
                  in Some (Some frame, fa, pm(frame := take 256 (pm frame) @ drop 256 (pm active)))) })"

section \<open>Frames\<close>

text \<open>\<open>frames_left\<close> counts the frames an allocator still holds. A mapper can only take frames.\<close>

definition fa_wf :: "StaticBootFrameAllocator \<Rightarrow> bool" where
  "fa_wf a \<longleftrightarrow> fa_limit a \<le> length (boot_frames a)"

definition frames_left :: "StaticBootFrameAllocator \<Rightarrow> nat" where
  "frames_left a = length (filter (\<lambda>i. boot_frames a ! i \<noteq> None) [fa_next a..<fa_limit a])"

definition mapper_takes :: "'m map_to \<Rightarrow> bool" where
  "mapper_takes map_to \<longleftrightarrow> (\<forall>p f fl m a. fa_wf a \<longrightarrow>
     fa_wf (snd (snd (map_to p f fl (m, a)))) \<and> frames_left (snd (snd (map_to p f fl (m, a)))) \<le> frames_left a)"

lemma frames_left_le: "fa_wf a \<Longrightarrow> frames_left a \<le> length (boot_frames a)"
  using length_filter_le[of "\<lambda>i. boot_frames a ! i \<noteq> None" "[fa_next a..<fa_limit a]"] by (simp add: frames_left_def fa_wf_def)

lemma frames_left_step:
  "fa_next a < fa_limit a \<Longrightarrow>
     frames_left a = (if boot_frames a ! fa_next a \<noteq> None then 1 else 0) + frames_left (a\<lparr>fa_next := fa_next a + 1\<rparr>)"
  by (simp add: frames_left_def upt_conv_Cons)

lemma allocate_frame_cases:
  assumes "fa_wf a"
  obtains a' where "allocate_frame a = Some (None, a')" "fa_wf a'" "frames_left a = 0" "frames_left a' = 0"
  | f a' where "allocate_frame a = Some (Some f, a')" "fa_wf a'" "frames_left a = Suc (frames_left a')"
  using assms
proof (induction a arbitrary: thesis rule: allocate_frame.induct)
  case (1 a)
  show ?case
  proof (cases "fa_next a < fa_limit a")
    case False
    then have "allocate_frame a = Some (None, a)" "frames_left a = 0" by (simp_all add: allocate_frame.simps frames_left_def)
    then show ?thesis using "1.prems" by blast
  next
    case True
    then have len: "fa_next a < length (boot_frames a)" using "1.prems"(3) by (simp add: fa_wf_def)
    show ?thesis
    proof (cases "boot_frames a ! fa_next a")
      case None
      let ?b = "a\<lparr>fa_next := fa_next a + 1\<rparr>"
      have eq: "allocate_frame a = allocate_frame ?b" using True len None by (subst allocate_frame.simps) simp
      have fl: "frames_left a = frames_left ?b" using frames_left_step[OF True] None by simp
      have "fa_wf ?b" using "1.prems"(3) by (simp add: fa_wf_def)
      then show ?thesis using "1.IH"[OF True len None] "1.prems"(1,2) eq fl by metis
    next
      case (Some f)
      let ?b = "a\<lparr>boot_frames := (boot_frames a)[fa_next a := None], fa_next := fa_next a + 1\<rparr>"
      have "allocate_frame a = Some (Some f, ?b)" using True len Some by (subst allocate_frame.simps) simp
      moreover have "fa_wf ?b" using "1.prems"(3) by (simp add: fa_wf_def)
      moreover have "frames_left ?b = frames_left (a\<lparr>fa_next := fa_next a + 1\<rparr>)"
        unfolding frames_left_def by (auto intro!: arg_cong[where f = length] filter_cong)
      ultimately show ?thesis using "1.prems"(2) frames_left_step[OF True] Some by simp
    qed
  qed
qed

lemma map_pages_frames:
  assumes "mapper_takes map_to" "fa_wf (pa_frames pa)" "\<forall>a \<in> set as. canonical a"
  obtains ok pa' where "map_pages map_to flags as pa = Some (ok, pa')" "fa_wf (pa_frames pa')"
    "frames_left (pa_frames pa') \<le> frames_left (pa_frames pa)"
    "ok \<Longrightarrow> frames_left (pa_frames pa') + length as \<le> frames_left (pa_frames pa)"
  using assms(2,3)
proof (induction as arbitrary: pa thesis)
  case (Cons a as)
  have v: "virt_new a = Some a" using Cons.prems(3) by (simp add: virt_new_def)
  show ?case
  proof (rule allocate_frame_cases[OF Cons.prems(2)])
    fix fa assume "allocate_frame (pa_frames pa) = Some (None, fa)" "fa_wf fa" "frames_left (pa_frames pa) = 0" "frames_left fa = 0"
    then show ?thesis using v Cons.prems(1)[of False "pa\<lparr>pa_frames := fa\<rparr>"] by simp
  next
    fix f fa assume f: "allocate_frame (pa_frames pa) = Some (Some f, fa)" "fa_wf fa" "frames_left (pa_frames pa) = Suc (frames_left fa)"
    obtain r m fa' where m: "map_to (containing a) f flags (pa_mapper pa, fa) = (r, m, fa')" by (metis surj_pair)
    have fa': "fa_wf fa'" "frames_left fa' \<le> frames_left fa"
      using assms(1)[unfolded mapper_takes_def, rule_format, OF f(2), of "containing a" f flags "pa_mapper pa"] m by simp_all
    let ?pa = "\<lparr> pa_mapper = m, pa_frames = fa' \<rparr>"
    show ?thesis
    proof (cases r)
      case (Inl e)
      then show ?thesis using v f m fa' Cons.prems(1)[of False ?pa] by simp
    next
      case (Inr u)
      obtain ok pa' where "map_pages map_to flags as ?pa = Some (ok, pa')" "fa_wf (pa_frames pa')"
        "frames_left (pa_frames pa') \<le> frames_left fa'" "ok \<Longrightarrow> frames_left (pa_frames pa') + length as \<le> frames_left fa'"
        using Cons.IH[of ?pa] fa'(1) Cons.prems(3) by auto
      then have "map_pages map_to flags (a # as) pa = Some (ok, pa')" "fa_wf (pa_frames pa')"
        "frames_left (pa_frames pa') \<le> frames_left (pa_frames pa)"
        "ok \<Longrightarrow> frames_left (pa_frames pa') + length (a # as) \<le> frames_left (pa_frames pa)"
        using v f m fa' Inr by simp_all
      then show ?thesis by (rule Cons.prems(1))
    qed
  qed
qed simp

section \<open>Blocks\<close>

lemma size_classes:
  "length SIZE_CLASSES = 9" "i < 9 \<Longrightarrow> 4096 dvd SIZE_CLASSES ! i \<and> 4096 \<le> SIZE_CLASSES ! i \<and> SIZE_CLASSES ! i \<le> 0x100000"
proof -
  show "length SIZE_CLASSES = 9" by (simp add: SIZE_CLASSES_def)
  assume "i < 9"
  then have "i \<in> {0, 1, 2, 3, 4, 5, 6, 7, 8}" by auto
  then show "4096 dvd SIZE_CLASSES ! i \<and> 4096 \<le> SIZE_CLASSES ! i \<and> SIZE_CLASSES ! i \<le> 0x100000"
    by (auto simp: SIZE_CLASSES_def)
qed

lemma size_class_index_Some:
  assumes "size_class_index sz = Some i"
  shows "i < 9" "sz \<le> SIZE_CLASSES ! i"
proof -
  obtain js where "filter (\<lambda>i. sz \<le> SIZE_CLASSES ! i) [0..<length SIZE_CLASSES] = i # js"
    using assms by (auto simp: size_class_index_def split: list.splits)
  then have "i \<in> set (filter (\<lambda>i. sz \<le> SIZE_CLASSES ! i) [0..<length SIZE_CLASSES])" by (metis list.set_intros(1))
  then show "i < 9" "sz \<le> SIZE_CLASSES ! i" by (simp_all add: size_classes)
qed

type_synonym block = "u64 \<times> nat"

definition block_end :: "block \<Rightarrow> nat" where
  "block_end b = unat (fst b) + SIZE_CLASSES ! snd b"

definition apart :: "block \<Rightarrow> block \<Rightarrow> bool" where
  "apart b c \<longleftrightarrow> block_end b \<le> unat (fst c) \<or> block_end c \<le> unat (fst b)"

text \<open>The blocks on the free lists; the live blocks are a ghost component of the runs below.\<close>

definition cached :: "SlubAllocator \<Rightarrow> block set" where
  "cached slub = {(p, i) |p i. i < length (caches slub) \<and> p \<in> set (free_list (caches slub ! i))}"

definition pages_left :: "'m PageAllocator option \<Rightarrow> nat" where
  "pages_left pg = (case pg of None \<Rightarrow> 0 | Some pa \<Rightarrow> frames_left (pa_frames pa))"

definition blocks_ok :: "nat \<Rightarrow> block set \<Rightarrow> bool" where
  "blocks_ok lim U \<longleftrightarrow>
     (\<forall>b \<in> U. snd b < 9 \<and> unat SLUB_VA_START \<le> unat (fst b) \<and> block_end b \<le> lim \<and> 4096 dvd unat (fst b)) \<and>
     (\<forall>b \<in> U. \<forall>c \<in> U. b \<noteq> c \<longrightarrow> apart b c)"

definition slub_inv :: "SlubAllocator \<times> 'm PageAllocator option \<times> block set \<Rightarrow> bool" where
  "slub_inv st \<longleftrightarrow> (case st of (slub, pg, live) \<Rightarrow>
     map sc_size (caches slub) = SIZE_CLASSES \<and> (\<forall>c \<in> set (caches slub). distinct (free_list c)) \<and>
     live \<inter> cached slub = {} \<and> blocks_ok (unat (next_va slub)) (live \<union> cached slub) \<and>
     unat SLUB_VA_START \<le> unat (next_va slub) \<and> 4096 dvd unat (next_va slub) \<and>
     (\<forall>pa. pg = Some pa \<longrightarrow> fa_wf (pa_frames pa)) \<and>
     unat (next_va slub) + 4096 * pages_left pg \<le> unat SLUB_VA_START + 4096 * 65536)"

inductive slub_step :: "'m map_to \<Rightarrow> SlubAllocator \<times> 'm PageAllocator option \<times> block set \<Rightarrow>
    SlubAllocator \<times> 'm PageAllocator option \<times> block set \<Rightarrow> bool" for map_to where
  alloc_ok: "slub_alloc map_to sz (slub, pg) = Some (Some p, slub', pg') \<Longrightarrow> size_class_index sz = Some i \<Longrightarrow>
     slub_step map_to (slub, pg, live) (slub', pg', insert (p, i) live)"
| alloc_fail: "slub_alloc map_to sz (slub, pg) = Some (None, slub', pg') \<Longrightarrow>
     slub_step map_to (slub, pg, live) (slub', pg', live)"
| free_ok: "(p, i) \<in> live \<Longrightarrow> size_class_index sz = Some i \<Longrightarrow> slub_free p sz slub = Some slub' \<Longrightarrow>
     slub_step map_to (slub, pg, live) (slub', pg, live - {(p, i)})"

lemma cached_update:
  assumes "i < length (caches slub)"
  shows "cached (slub\<lparr>caches := (caches slub)[i := (caches slub ! i)\<lparr>free_list := xs\<rparr>]\<rparr>) =
    {b \<in> cached slub. snd b \<noteq> i} \<union> {(p, i) |p. p \<in> set xs}"
  using assms by (auto simp: cached_def nth_list_update split: if_splits)

lemma cached_split:
  "i < length (caches slub) \<Longrightarrow> cached slub = {b \<in> cached slub. snd b \<noteq> i} \<union> {(p, i) |p. p \<in> set (free_list (caches slub ! i))}"
  by (auto simp: cached_def)

lemma caches_update:
  assumes "slub_inv (slub, pg, live)" "i < 9" "distinct xs"
  shows "map sc_size ((caches slub)[i := (caches slub ! i)\<lparr>free_list := xs\<rparr>]) = SIZE_CLASSES"
    "\<forall>c \<in> set ((caches slub)[i := (caches slub ! i)\<lparr>free_list := xs\<rparr>]). distinct (free_list c)"
    "i < length (caches slub)" "distinct (free_list (caches slub ! i))" "sc_size (caches slub ! i) = SIZE_CLASSES ! i"
proof -
  have m: "map sc_size (caches slub) = SIZE_CLASSES" using assms(1) by (simp add: slub_inv_def)
  show l: "i < length (caches slub)" using arg_cong[OF m, of length] assms(2) by (simp add: size_classes)
  show z: "sc_size (caches slub ! i) = SIZE_CLASSES ! i" using arg_cong[OF m, of "\<lambda>xs. xs ! i"] l by simp
  show "map sc_size ((caches slub)[i := (caches slub ! i)\<lparr>free_list := xs\<rparr>]) = SIZE_CLASSES"
    using l by (simp add: map_update list_update_same_conv flip: m)
  show "\<forall>c \<in> set ((caches slub)[i := (caches slub ! i)\<lparr>free_list := xs\<rparr>]). distinct (free_list c)"
    using assms(1,3) set_update_subset_insert[of "caches slub" i] by (fastforce simp: slub_inv_def)
  show "distinct (free_list (caches slub ! i))" using assms(1) l by (simp add: slub_inv_def)
qed

text \<open>The three ways an allocation can go.\<close>

lemma block_pages_canonical:
  assumes "unat SLUB_VA_START \<le> unat va" "unat va + 4096 * n \<le> unat SLUB_VA_START + 4096 * 65536 + 0x100000"
  shows "\<forall>a \<in> set (block_pages va n). canonical a"
proof -
  have "canonical (va + of_nat i * PAGE_SIZE)" if "i < n" for i
  proof -
    have "unat (va + of_nat i * PAGE_SIZE) = unat va + i * 4096"
      using assms(2) that by (simp add: unat_word_ariths unat_of_nat)
    then show ?thesis using assms(1) by (simp add: canonical_def word_le_nat_alt)
  qed
  then show ?thesis by (auto simp: block_pages_def)
qed

lemma blocks_ok_insert:
  assumes "blocks_ok lim U" "unat p = lim" "i < 9" "unat SLUB_VA_START \<le> lim" "4096 dvd lim"
  shows "blocks_ok (lim + SIZE_CLASSES ! i) (insert (p, i) U)" "(p, i) \<notin> U"
proof -
  have e: "block_end b \<le> lim" if "b \<in> U" for b using assms(1) that by (simp add: blocks_ok_def)
  then show "blocks_ok (lim + SIZE_CLASSES ! i) (insert (p, i) U)"
    using assms by (fastforce simp: blocks_ok_def apart_def block_end_def)
  show "(p, i) \<notin> U" using e[of "(p, i)"] assms(2) size_classes(2)[OF assms(3)] by (auto simp: block_end_def)
qed

lemma slub_alloc_cases:
  assumes "slub_inv (slub, pg, live)" "mapper_takes map_to"
  obtains (none) slub' pg' where "slub_alloc map_to sz (slub, pg) = Some (None, slub', pg')" "slub_inv (slub', pg', live)"
  | (some) p i slub' pg' where "slub_alloc map_to sz (slub, pg) = Some (Some p, slub', pg')" "size_class_index sz = Some i"
    "slub_inv (slub', pg', insert (p, i) live)" "(p, i) \<notin> live"
proof (cases "size_class_index sz")
  case None
  then show thesis using none[of slub pg] assms(1) by (simp add: slub_alloc_def)
next
  case (Some i)
  have i: "i < 9" by (rule size_class_index_Some[OF Some])
  note I = assms(1)[unfolded slub_inv_def split]
  note U = caches_update[OF assms(1) i]
  have ix: "index_at (caches slub) i = Some (caches slub ! i)" using U(3)[of "[]"] by (simp add: index_at_def)
  show thesis
  proof (cases "free_list (caches slub ! i) = []")
    case False
    let ?l = "free_list (caches slub ! i)"
    let ?s = "slub\<lparr>caches := (caches slub)[i := (caches slub ! i)\<lparr>free_list := butlast ?l\<rparr>]\<rparr>"
    have d: "distinct ?l" using U(4)[of "[]"] by simp
    have l: "?l = butlast ?l @ [last ?l]" using False by simp
    then have nl: "last ?l \<notin> set (butlast ?l)" "distinct (butlast ?l)" using d by (metis distinct_append disjoint_insert(1) list.set(2) list.simps(15))+
    have "set ?l = insert (last ?l) (set (butlast ?l))" using arg_cong[OF l, of set] by simp
    then have c: "cached slub = insert (last ?l, i) (cached ?s)" "(last ?l, i) \<notin> cached ?s"
      using cached_update[OF U(3)[of "[]"], of "butlast ?l"] cached_split[OF U(3)[of "[]"]] nl(1) by auto
    have nl': "(last ?l, i) \<notin> live" using I c(1) by blast
    have "insert (last ?l, i) live \<union> cached ?s = live \<union> cached slub" using c(1) by blast
    moreover have "insert (last ?l, i) live \<inter> cached ?s = {}" using I c by blast
    ultimately have "slub_inv (?s, pg, insert (last ?l, i) live)"
      using I U(1,2)[OF nl(2)] by (simp add: slub_inv_def)
    then show thesis using some[of "last ?l" ?s pg i] Some ix False nl' by (simp add: slub_alloc_def)
  next
    case True
    let ?z = "SIZE_CLASSES ! i" and ?va = "next_va slub"
    have z: "sc_size (caches slub ! i) = ?z" "?z = 4096 * (?z div 4096)" "?z \<le> 0x100000"
      using U(5)[of "[]"] size_classes(2)[OF i] by simp_all
    show thesis
    proof (cases pg)
      case None
      then show thesis using none[of slub pg] assms(1) Some ix True by (simp add: slub_alloc_def)
    next
      case pg: (Some pa)
      have fit: "unat ?va + 4096 * frames_left (pa_frames pa) \<le> unat SLUB_VA_START + 4096 * 65536" "fa_wf (pa_frames pa)"
        using I pg by (simp_all add: pages_left_def)
      have "\<forall>a \<in> set (block_pages ?va (?z div 4096)). canonical a"
        using I fit(1) z(2,3) by (intro block_pages_canonical) linarith+
      from map_pages_frames[OF assms(2) fit(2) this, where flags = SLUB_FLAGS] obtain ok pa' where
        m: "map_pages map_to SLUB_FLAGS (block_pages ?va (?z div 4096)) pa = Some (ok, pa')" "fa_wf (pa_frames pa')"
        "frames_left (pa_frames pa') \<le> frames_left (pa_frames pa)"
        "ok \<Longrightarrow> frames_left (pa_frames pa') + ?z div 4096 \<le> frames_left (pa_frames pa)" by (auto simp: block_pages_def)
      show thesis
      proof (cases ok)
        case False
        have "slub_inv (slub, Some pa', live)" using I m(2,3) pg by (simp add: slub_inv_def pages_left_def)
        then show thesis using none[of slub "Some pa'"] Some ix True pg m(1) False z(1) by (simp add: slub_alloc_def)
      next
        case ok: True
        let ?s = "slub\<lparr>next_va := ?va + of_nat ?z\<rparr>"
        have nv: "unat (?va + of_nat ?z) = unat ?va + ?z"
          using fit(1) z(2,3) by (simp add: unat_word_ariths unat_of_nat)
        have B: "blocks_ok (unat ?va + ?z) (insert (?va, i) (live \<union> cached slub))" "(?va, i) \<notin> live \<union> cached slub"
          using blocks_ok_insert[of "unat ?va" "live \<union> cached slub" ?va i] I i by simp_all
        have "cached ?s = cached slub" by (simp add: cached_def)
        then have "slub_inv (?s, Some pa', insert (?va, i) live)"
          using I B nv m(2) m(4)[OF ok] fit(1) z(2) size_classes(2)[OF i] by (auto simp: slub_inv_def pages_left_def)
        then show thesis using some[of ?va ?s "Some pa'" i] Some ix True pg m(1) ok z(1) B(2) by (simp add: slub_alloc_def Let_def)
      qed
    qed
  qed
qed

lemma slub_free_inv:
  assumes "slub_inv (slub, pg, live)" "(p, i) \<in> live" "size_class_index sz = Some i"
  obtains slub' where "slub_free p sz slub = Some slub'" "slub_inv (slub', pg, live - {(p, i)})"
proof -
  let ?l = "free_list (caches slub ! i)"
  have i: "i < 9" by (rule size_class_index_Some[OF assms(3)])
  note I = assms(1)[unfolded slub_inv_def split]
  note U = caches_update[OF assms(1) i]
  let ?s = "slub\<lparr>caches := (caches slub)[i := (caches slub ! i)\<lparr>free_list := ?l @ [p]\<rparr>]\<rparr>"
  have "(p, i) \<notin> cached slub" using I assms(2) by blast
  then have p: "p \<notin> set ?l" "distinct (?l @ [p])" using U(3,4)[of "[]"] by (auto simp: cached_def)
  have c: "cached ?s = insert (p, i) (cached slub)"
    using cached_update[OF U(3)[of "[]"], of "?l @ [p]"] cached_split[OF U(3)[of "[]"]] by auto
  have "(live - {(p, i)}) \<union> cached ?s = live \<union> cached slub" unfolding c using assms(2) by blast
  moreover have "(live - {(p, i)}) \<inter> cached ?s = {}" unfolding c using I by blast
  ultimately have "slub_inv (?s, pg, live - {(p, i)})" using I U(1,2)[OF p(2)] by (simp add: slub_inv_def)
  then show thesis using that[of ?s] assms(3) U(3)[of "[]"] by (simp add: slub_free_def index_at_def)
qed

lemma slub_step_inv:
  assumes "slub_step map_to st st'" "mapper_takes map_to" "slub_inv st"
  shows "slub_inv st'"
  using assms(1)
proof cases
  case (alloc_ok sz slub pg p slub' pg' i live)
  then show ?thesis using slub_alloc_cases[of slub pg live map_to sz] assms(2,3) by auto
next
  case (alloc_fail sz slub pg slub' pg' live)
  then show ?thesis using slub_alloc_cases[of slub pg live map_to sz] assms(2,3) by auto
next
  case (free_ok p i live sz slub slub' pg)
  then show ?thesis using slub_free_inv[of slub pg live p i sz] assms(3) by auto
qed

lemma slub_new_inv: "fa_wf (pa_frames pa) \<Longrightarrow> frames_left (pa_frames pa) \<le> 65536 \<Longrightarrow> slub_inv (slub_new, Some pa, {})"
proof -
  have "cached slub_new = {}" by (auto simp: cached_def slub_new_def SlubCache_new_def)
  then show "fa_wf (pa_frames pa) \<Longrightarrow> frames_left (pa_frames pa) \<le> 65536 \<Longrightarrow> slub_inv (slub_new, Some pa, {})"
    by (auto simp: slub_inv_def slub_new_def SlubCache_new_def pages_left_def blocks_ok_def SIZE_CLASSES_def)
qed

text \<open>A mapper that keeps the list of mapped pages, and an allocator of four boot frames.\<close>

definition list_map_to :: "u64 list map_to" where
  "list_map_to p f flags st =
     (case st of (m, a) \<Rightarrow> if p \<in> set m then (Inl (PageAlreadyMapped f), m, a) else (Inr (), p # m, a))"

definition demo_pages :: "u64 list PageAllocator" where
  "demo_pages = \<lparr> pa_mapper = [], pa_frames = static_alloc_new [Some 0x1000, Some 0x2000, None, Some 0x3000, Some 0x4000] 5 \<rparr>"

lemma list_map_to_takes: "mapper_takes list_map_to"
  by (auto simp: mapper_takes_def list_map_to_def)

section \<open>Properties\<close>

text \<open>C25: Over every sequence of SLUB allocations and frees of live blocks, with at most 65536 boot
  frames, no operation panics and the live blocks never overlap: each is page aligned, lies
  in the SLUB region below the bump pointer, and a block handed out next overlaps none of
  them. The bump pointer cannot wrap.\<close>

theorem slub_blocks_disjoint:
  assumes "mapper_takes map_to" "fa_wf (pa_frames pa)" "length (boot_frames (pa_frames pa)) \<le> 65536"
    and "(slub_step map_to)\<^sup>*\<^sup>* (slub_new, Some pa, {}) (slub, pg, live)"
  shows "(\<forall>(p, i) \<in> live. 4096 dvd unat p \<and> unat SLUB_VA_START \<le> unat p \<and> unat p + SIZE_CLASSES ! i \<le> unat (next_va slub)) \<and>
    (\<forall>(p, i) \<in> live. \<forall>(q, j) \<in> live. (p, i) \<noteq> (q, j) \<longrightarrow> unat p + SIZE_CLASSES ! i \<le> unat q \<or> unat q + SIZE_CLASSES ! j \<le> unat p) \<and>
    (\<forall>sz. \<exists>r slub' pg'. slub_alloc map_to sz (slub, pg) = Some (r, slub', pg') \<and>
       (\<forall>p. r = Some p \<longrightarrow> sz \<le> SIZE_CLASSES ! the (size_class_index sz) \<and>
          (\<forall>(q, j) \<in> live. unat p + SIZE_CLASSES ! the (size_class_index sz) \<le> unat q \<or> unat q + SIZE_CLASSES ! j \<le> unat p)))"
proof -
  have inv: "slub_inv (slub, pg, live)"
    using assms(4)
  proof (induction rule: rtranclp_induct)
    case base
    show ?case using slub_new_inv[OF assms(2)] frames_left_le[OF assms(2)] assms(3) by simp
  qed (rule slub_step_inv[OF _ assms(1)])
  have B: "blocks_ok lim live \<Longrightarrow> (p, i) \<in> live \<Longrightarrow> (q, j) \<in> live \<Longrightarrow> (p, i) \<noteq> (q, j) \<Longrightarrow>
      unat p + SIZE_CLASSES ! i \<le> unat q \<or> unat q + SIZE_CLASSES ! j \<le> unat p" for lim live p i q j
    unfolding blocks_ok_def apart_def block_end_def by force
  have ok: "blocks_ok (unat (next_va s)) l" if "slub_inv (s, g :: 'a PageAllocator option, l)" for s g l
    using that by (simp add: slub_inv_def blocks_ok_def)
  have "\<exists>r slub' pg'. slub_alloc map_to sz (slub, pg) = Some (r, slub', pg') \<and>
       (\<forall>p. r = Some p \<longrightarrow> sz \<le> SIZE_CLASSES ! the (size_class_index sz) \<and>
          (\<forall>(q, j) \<in> live. unat p + SIZE_CLASSES ! the (size_class_index sz) \<le> unat q \<or> unat q + SIZE_CLASSES ! j \<le> unat p))" for sz
  proof (cases rule: slub_alloc_cases[OF inv assms(1), of sz, case_names none some])
    case (some p i slub' pg')
    have "\<forall>(q, j) \<in> live. unat p + SIZE_CLASSES ! i \<le> unat q \<or> unat q + SIZE_CLASSES ! j \<le> unat p"
      using B[OF ok[OF some(3)], of p i] some(4) by fastforce
    then show ?thesis using some(1,2) size_class_index_Some(2)[OF some(2)] by auto
  qed auto
  moreover have "\<forall>(p, i) \<in> live. 4096 dvd unat p \<and> unat SLUB_VA_START \<le> unat p \<and> unat p + SIZE_CLASSES ! i \<le> unat (next_va slub)"
    using ok[OF inv] by (fastforce simp: blocks_ok_def block_end_def)
  moreover have "\<forall>(p, i) \<in> live. \<forall>(q, j) \<in> live. (p, i) \<noteq> (q, j) \<longrightarrow> unat p + SIZE_CLASSES ! i \<le> unat q \<or> unat q + SIZE_CLASSES ! j \<le> unat p"
    using B[OF ok[OF inv]] by blast
  ultimately show ?thesis by blast
qed

theorem slub_blocks_disjoint_witness:
  "\<exists>slub pg live. (slub_step list_map_to)\<^sup>*\<^sup>* (slub_new, Some demo_pages, {}) (slub, pg, live) \<and> card live = 2 \<and>
     (\<exists>r. slub_alloc list_map_to 8192 (slub, pg) = Some r)"
proof -
  have c: "size_class_index 8192 = Some 1" "size_class_index 100 = Some 0"
    by (simp_all add: size_class_index_def SIZE_CLASSES_def upt_conv_Cons)
  note S = slub_alloc_def c slub_new_def index_at_def SIZE_CLASSES_def SlubCache_new_def demo_pages_def static_alloc_new_def
    block_pages_def upt_conv_Cons virt_new_def canonical_def allocate_frame.simps list_map_to_def containing_def
  define s1 where "s1 = slub_new\<lparr>next_va := 0xFFFFD00000002000\<rparr>"
  define g1 where "g1 = Some \<lparr> pa_mapper = [0xFFFFD00000001000, 0xFFFFD00000000000 :: u64],
     pa_frames = \<lparr> boot_frames = [None, None, None, Some 0x3000, Some 0x4000], fa_next = 2, fa_limit = 5 \<rparr> \<rparr>"
  have a: "slub_alloc list_map_to 8192 (slub_new, Some demo_pages) = Some (Some 0xFFFFD00000000000, s1, g1)"
    unfolding s1_def g1_def by (simp add: S)
  have b: "slub_alloc list_map_to 100 (s1, g1) = Some (Some 0xFFFFD00000002000, s1\<lparr>next_va := 0xFFFFD00000003000\<rparr>,
      Some \<lparr> pa_mapper = [0xFFFFD00000002000, 0xFFFFD00000001000, 0xFFFFD00000000000],
       pa_frames = \<lparr> boot_frames = [None, None, None, None, Some 0x4000], fa_next = 4, fa_limit = 5 \<rparr> \<rparr>)"
    unfolding s1_def g1_def by (simp add: S)
  let ?g = "Some \<lparr> pa_mapper = [0xFFFFD00000002000, 0xFFFFD00000001000, 0xFFFFD00000000000],
       pa_frames = \<lparr> boot_frames = [None, None, None, None, Some 0x4000], fa_next = 4, fa_limit = 5 \<rparr> \<rparr>"
  let ?l = "insert (0xFFFFD00000002000, 0) (insert (0xFFFFD00000000000, 1) {}) :: block set"
  have st: "(slub_step list_map_to)\<^sup>*\<^sup>* (slub_new, Some demo_pages, {}) (s1\<lparr>next_va := 0xFFFFD00000003000\<rparr>, ?g, ?l)"
    using slub_step.alloc_ok[OF a c(1), of "{}"] slub_step.alloc_ok[OF b c(2), of "{(0xFFFFD00000000000, 1)}"]
    by (rule converse_rtranclp_into_rtranclp[OF _ r_into_rtranclp])
  have "fa_wf (pa_frames demo_pages)" "length (boot_frames (pa_frames demo_pages)) \<le> 65536"
    by (simp_all add: demo_pages_def static_alloc_new_def fa_wf_def)
  note D = slub_blocks_disjoint[OF list_map_to_takes this st]
  have "card ?l = 2" by simp
  moreover obtain r where "slub_alloc list_map_to 8192 (s1\<lparr>next_va := 0xFFFFD00000003000\<rparr>, ?g) = Some r"
    using D[THEN conjunct2, THEN conjunct2, THEN spec, of 8192] by (elim exE conjE) (rule that)
  ultimately show ?thesis using st by (intro exI conjI)
qed

end
