(* ===== verification/Loader.thy ===== *)
theory Loader
  imports Memory
begin

text \<open>
  loader/src: the ELF64 loader. A file is a list of bytes; the headers are read from it as packed
  little-endian structures. The result is \<open>None\<close> when the loader panics or reads outside the
  file, \<open>Inl\<close> an error message, or \<open>Inr\<close> the image.
\<close>

unbundle bit_operations_syntax

record Elf64Header =
  e_ident :: bytes
  e_type :: u16
  e_machine :: u16
  e_version :: u32
  e_entry :: u64
  e_phoff :: u64
  e_shoff :: u64
  e_flags :: u32
  e_ehsize :: u16
  e_phentsize :: u16
  e_phnum :: u16
  e_shentsize :: u16
  e_shnum :: u16
  e_shstrndx :: u16

record ProgramHeader =
  p_type :: u32
  p_flags :: u32
  p_offset :: u64
  p_vaddr :: u64
  p_paddr :: u64
  p_filesz :: u64
  p_memsz :: u64
  p_align :: u64

record SegmentFlags =
  readable :: bool
  writable :: bool
  executable :: bool

record LoadableSegment =
  virtual_address :: u64
  seg_size :: u64
  seg_flags :: SegmentFlags
  seg_data :: bytes

record LoadedImage =
  entry_point :: u64
  segments :: "LoadableSegment list"

abbreviation PF_X :: u32 where "PF_X \<equiv> 1"
abbreviation PF_W :: u32 where "PF_W \<equiv> 2"
abbreviation PF_R :: u32 where "PF_R \<equiv> 4"
abbreviation PT_LOAD :: u32 where "PT_LOAD \<equiv> 1"
abbreviation EHDR_SIZE :: nat where "EHDR_SIZE \<equiv> 64"
abbreviation PHDR_SIZE :: nat where "PHDR_SIZE \<equiv> 56"

definition ELF_MAGIC :: bytes where
  "ELF_MAGIC = [0x7F, 0x45, 0x4C, 0x46]"

definition field :: "nat \<Rightarrow> nat \<Rightarrow> bytes \<Rightarrow> 'a::len word" where
  "field n off bs = of_le (take n (drop off bs))"

definition elf_header :: "bytes \<Rightarrow> Elf64Header" where
  "elf_header d =
     \<lparr> e_ident = take 16 d, e_type = field 2 16 d, e_machine = field 2 18 d, e_version = field 4 20 d,
       e_entry = field 8 24 d, e_phoff = field 8 32 d, e_shoff = field 8 40 d, e_flags = field 4 48 d,
       e_ehsize = field 2 52 d, e_phentsize = field 2 54 d, e_phnum = field 2 56 d, e_shentsize = field 2 58 d,
       e_shnum = field 2 60 d, e_shstrndx = field 2 62 d \<rparr>"

definition program_header :: "bytes \<Rightarrow> ProgramHeader" where
  "program_header d =
     \<lparr> p_type = field 4 0 d, p_flags = field 4 4 d, p_offset = field 8 8 d, p_vaddr = field 8 16 d,
       p_paddr = field 8 24 d, p_filesz = field 8 32 d, p_memsz = field 8 40 d, p_align = field 8 48 d \<rparr>"

definition validate :: "Elf64Header \<Rightarrow> string + unit" where
  "validate h =
     (if take 4 (e_ident h) \<noteq> ELF_MAGIC then Inl ''ELF magic doesn't match''
      else if e_ident h ! 4 \<noteq> 2 then Inl ''Not 64-bit ELF''
      else if e_machine h \<noteq> 0x3E then Inl ''Machine not x86_64''
      else Inr ())"

text \<open>\<open>Vec::resize\<close> with zeros truncates or pads.\<close>

definition resize_zero :: "bytes \<Rightarrow> nat \<Rightarrow> bytes" where
  "resize_zero xs n = take n xs @ replicate (n - length xs) 0"

definition segment_flags :: "ProgramHeader \<Rightarrow> SegmentFlags" where
  "segment_flags ph =
     \<lparr> readable = p_flags ph AND PF_R \<noteq> 0, writable = p_flags ph AND PF_W \<noteq> 0, executable = p_flags ph AND PF_X \<noteq> 0 \<rparr>"

text \<open>Sums wrap; a capacity beyond \<open>isize::MAX\<close> and a slice out of range panic.\<close>

definition load_segment :: "bytes \<Rightarrow> ProgramHeader \<Rightarrow> (string + LoadableSegment) option" where
  "load_segment d ph =
     (if of_nat (length d) < p_offset ph + p_filesz ph then Some (Inl ''Segment truncated'')
      else if 2 ^ 63 \<le> unat (p_memsz ph) then None
      else
        do { let start = p_offset ph;
             let end_off = start + p_filesz ph;
             file_data \<leftarrow> slice d (unat start) (unat end_off);
             let zero_fill = p_memsz ph - p_filesz ph;
             let sd = resize_zero file_data (unat (of_nat (length file_data) + zero_fill));
             v \<leftarrow> virt_new (p_vaddr ph);
             Some (Inr \<lparr> virtual_address = v, seg_size = p_memsz ph, seg_flags = segment_flags ph, seg_data = sd \<rparr>) })"

fun load_segments :: "bytes \<Rightarrow> u64 \<Rightarrow> u64 \<Rightarrow> nat list \<Rightarrow> (string + LoadableSegment list) option" where
  "load_segments d ph_offset ph_size [] = Some (Inr [])"
| "load_segments d ph_offset ph_size (i # is) =
     (let p = unat (ph_offset + of_nat i * ph_size)
      in if length d < p + PHDR_SIZE then None
         else let ph = program_header (drop p d)
              in if p_type ph = PT_LOAD then
                   (case load_segment d ph of
                      None \<Rightarrow> None
                    | Some (Inl e) \<Rightarrow> Some (Inl e)
                    | Some (Inr s) \<Rightarrow> map_option (map_sum id (Cons s)) (load_segments d ph_offset ph_size is))
                 else load_segments d ph_offset ph_size is)"

definition load_elf :: "bytes \<Rightarrow> (string + LoadedImage) option" where
  "load_elf d =
     (if length d < EHDR_SIZE then Some (Inl ''File too small'')
      else let h = elf_header d
           in case validate h of
                Inl e \<Rightarrow> Some (Inl e)
              | Inr _ \<Rightarrow>
                  (let ph_size = ucast (e_phentsize h) :: u64; ph_count = ucast (e_phnum h) :: u64
                   in if of_nat (length d) < e_phoff h + ph_count * ph_size then Some (Inl ''Program headers truncated'')
                      else
                        (case load_segments d (e_phoff h) ph_size [0..<unat (e_phnum h)] of
                           None \<Rightarrow> None
                         | Some (Inl e) \<Rightarrow> Some (Inl e)
                         | Some (Inr segs) \<Rightarrow>
                             do { v \<leftarrow> virt_new (e_entry h); Some (Inr \<lparr> entry_point = v, segments = segs \<rparr>) })))"

section \<open>Segments\<close>

text \<open>What the loader produces for a program header.\<close>

definition segment_of :: "bytes \<Rightarrow> ProgramHeader \<Rightarrow> LoadableSegment \<Rightarrow> bool" where
  "segment_of d ph s \<longleftrightarrow> virtual_address s = p_vaddr ph \<and> canonical (p_vaddr ph) \<and> seg_size s = p_memsz ph \<and>
     seg_flags s = segment_flags ph \<and> length (seg_data s) = unat (p_memsz ph) \<and>
     unat (p_offset ph) + unat (p_filesz ph) \<le> length d \<and>
     (\<forall>i < unat (p_memsz ph). seg_data s ! i = (if i < unat (p_filesz ph) then d ! (unat (p_offset ph) + i) else 0))"

lemma load_segment_segment_of:
  assumes "load_segment d ph = Some (Inr s)" "length d < 2 ^ 64"
  shows "segment_of d ph s"
proof -
  let ?a = "unat (p_offset ph)" and ?e = "unat (p_offset ph + p_filesz ph)"
  have c: "\<not> of_nat (length d) < p_offset ph + p_filesz ph" "unat (p_memsz ph) < 2 ^ 63"
    and sl: "?a \<le> ?e" "?e \<le> length d" and v: "canonical (p_vaddr ph)"
    and s: "s = \<lparr> virtual_address = p_vaddr ph, seg_size = p_memsz ph, seg_flags = segment_flags ph,
       seg_data = resize_zero (take (?e - ?a) (drop ?a d)) (unat (of_nat (?e - ?a) + (p_memsz ph - p_filesz ph))) \<rparr>"
    using assms(1) by (auto simp: load_segment_def slice_def virt_new_def Let_def split: if_splits Option.bind_splits)
  have f: "?e = ?a + unat (p_filesz ph)" using sl(1) unat_u64_less[of "p_filesz ph"] by (subst (asm) unat_plus_if_size, subst unat_plus_if_size) (auto simp: word_size split: if_splits)
  have "of_nat (?e - ?a) + (p_memsz ph - p_filesz ph) = p_memsz ph" by (simp add: f)
  then have "seg_data s = resize_zero (take (unat (p_filesz ph)) (drop ?a d)) (unat (p_memsz ph))" using s f by simp
  then show ?thesis using s sl v f by (auto simp: segment_of_def resize_zero_def nth_append min_def)
qed

lemma load_segment_ok:
  assumes "unat (p_offset ph) + unat (p_filesz ph) \<le> length d" "unat (p_memsz ph) < 2 ^ 63" "canonical (p_vaddr ph)" "length d < 2 ^ 64"
  shows "\<exists>s. load_segment d ph = Some (Inr s)"
proof -
  have e: "unat (p_offset ph + p_filesz ph) = unat (p_offset ph) + unat (p_filesz ph)"
    using assms(1,4) by (simp add: unat_plus_if_size word_size)
  have "\<not> of_nat (length d) < p_offset ph + p_filesz ph" using assms e by (simp add: word_less_nat_alt unat_of_nat_less)
  then show ?thesis using assms e by (simp add: load_segment_def slice_def virt_new_def Let_def)
qed

text \<open>A sum that wraps passes the bounds check and the slice panics.\<close>

lemma load_segment_wrap_panics:
  assumes "2 ^ 64 \<le> unat (p_offset ph) + unat (p_filesz ph)" "unat (p_offset ph) + unat (p_filesz ph) \<le> 2 ^ 64 + length d" "length d < 2 ^ 64"
  shows "load_segment d ph = None"
proof -
  have e: "unat (p_offset ph + p_filesz ph) = unat (p_offset ph) + unat (p_filesz ph) - 2 ^ 64"
    using assms(1) by (subst unat_plus_if_size) (simp add: word_size)
  have "\<not> of_nat (length d) < p_offset ph + p_filesz ph" using assms e by (simp add: word_less_nat_alt unat_of_nat_less)
  moreover have "\<not> unat (p_offset ph) \<le> unat (p_offset ph + p_filesz ph)" using e unat_u64_less[of "p_filesz ph"] assms(1) by simp
  ultimately show ?thesis by (simp add: load_segment_def slice_def Let_def)
qed

definition headers_at :: "bytes \<Rightarrow> u64 \<Rightarrow> u64 \<Rightarrow> nat list \<Rightarrow> ProgramHeader list" where
  "headers_at d ph_offset ph_size js =
     filter (\<lambda>ph. p_type ph = PT_LOAD) (map (\<lambda>i. program_header (drop (unat (ph_offset + of_nat i * ph_size)) d)) js)"

lemma map_sum_Inr: "map_sum id f z = Inr y \<longleftrightarrow> (\<exists>x. z = Inr x \<and> y = f x)"
  by (cases z) auto

lemma load_segments_segment_of:
  "load_segments d off sz js = Some (Inr ss) \<Longrightarrow> length d < 2 ^ 64 \<Longrightarrow> list_all2 (segment_of d) (headers_at d off sz js) ss"
proof (induction js arbitrary: ss)
  case (Cons j js)
  then show ?case
    by (auto simp: headers_at_def Let_def load_segment_segment_of map_sum_Inr split: if_splits option.splits sum.splits)
qed (simp add: headers_at_def)

lemma load_segments_ok:
  assumes "length d < 2 ^ 64" "\<forall>j \<in> set js. unat (off + of_nat j * sz) + PHDR_SIZE \<le> length d"
    and "\<forall>ph \<in> set (headers_at d off sz js). unat (p_offset ph) + unat (p_filesz ph) \<le> length d \<and> unat (p_memsz ph) < 2 ^ 63 \<and> canonical (p_vaddr ph)"
  shows "\<exists>ss. load_segments d off sz js = Some (Inr ss)"
  using assms(2,3)
proof (induction js)
  case (Cons j js)
  let ?ph = "program_header (drop (unat (off + of_nat j * sz)) d)"
  obtain ss where ss: "load_segments d off sz js = Some (Inr ss)" using Cons by (auto simp: headers_at_def split: if_splits)
  show ?case
  proof (cases "p_type ?ph = PT_LOAD")
    case True
    then obtain s where "load_segment d ?ph = Some (Inr s)" using load_segment_ok[OF _ _ _ assms(1), of ?ph] Cons.prems(2) by (auto simp: headers_at_def)
    then show ?thesis using ss True Cons.prems(1) by (simp add: Let_def)
  qed (use ss Cons.prems(1) in \<open>simp add: Let_def\<close>)
qed simp

definition load_headers :: "bytes \<Rightarrow> ProgramHeader list" where
  "load_headers d = headers_at d (e_phoff (elf_header d)) (ucast (e_phentsize (elf_header d))) [0..<unat (e_phnum (elf_header d))]"

definition elf_ok :: "bytes \<Rightarrow> bool" where
  "elf_ok d \<longleftrightarrow> (let h = elf_header d in
     EHDR_SIZE \<le> length d \<and> length d < 2 ^ 64 \<and> validate h = Inr () \<and> PHDR_SIZE \<le> unat (e_phentsize h) \<and>
     unat (e_phoff h) + unat (e_phnum h) * unat (e_phentsize h) \<le> length d \<and> canonical (e_entry h) \<and>
     (\<forall>ph \<in> set (load_headers d). unat (p_offset ph) + unat (p_filesz ph) \<le> length d \<and> unat (p_memsz ph) < 2 ^ 63 \<and> canonical (p_vaddr ph)))"

lemma header_position:
  fixes off :: u64 and n sz :: u16
  assumes "unat off + unat n * unat sz < 2 ^ 64" "j \<le> unat n"
  shows "unat (off + of_nat j * ucast sz) = unat off + j * unat sz"
proof -
  have m: "j * unat sz \<le> unat n * unat sz" using assms(2) by (rule mult_right_mono) simp
  have "off + of_nat j * ucast sz = of_nat (unat off + j * unat sz)" by simp
  moreover have "unat (of_nat (unat off + j * unat sz) :: u64) = unat off + j * unat sz"
    by (rule unat_of_nat_less) (use m assms(1) in \<open>unfold len_of_numeral_defs, simp, linarith\<close>)
  ultimately show ?thesis by (simp only:)
qed

lemma load_elf_sound:
  assumes "length d < 2 ^ 64" "load_elf d = Some (Inr img)"
  shows "list_all2 (segment_of d) (load_headers d) (segments img)"
  using assms(2) load_segments_segment_of[OF _ assms(1)]
  by (auto simp: load_elf_def Let_def load_headers_def virt_new_def split: if_splits option.splits sum.splits Option.bind_splits)

text \<open>A file with one loadable segment of four bytes in a six-byte area.\<close>

definition demo_elf :: bytes where
  "demo_elf = ELF_MAGIC @ [2] @ replicate 11 0 @ to_le 2 (2 :: u16) @ to_le 2 (0x3E :: u16) @ to_le 4 (1 :: u32) @ to_le 8 (0x400000 :: u64)
     @ to_le 8 (64 :: u64) @ to_le 8 (0 :: u64) @ to_le 4 (0 :: u32) @ to_le 2 (64 :: u16) @ to_le 2 (56 :: u16) @ to_le 2 (1 :: u16)
     @ to_le 2 (0 :: u16) @ to_le 2 (0 :: u16) @ to_le 2 (0 :: u16)
     @ to_le 4 (1 :: u32) @ to_le 4 (5 :: u32) @ to_le 8 (120 :: u64) @ to_le 8 (0x400000 :: u64) @ to_le 8 (0 :: u64)
     @ to_le 8 (4 :: u64) @ to_le 8 (6 :: u64) @ to_le 8 (4096 :: u64) @ [0x90, 0x90, 0x0F, 0x05]"

lemma demo_elf_length: "length demo_elf = 124"
  by (simp add: demo_elf_def ELF_MAGIC_def)

lemma demo_elf_header:
  "elf_header demo_elf = \<lparr> e_ident = ELF_MAGIC @ [2] @ replicate 11 0, e_type = 2, e_machine = 0x3E, e_version = 1, e_entry = 0x400000,
     e_phoff = 64, e_shoff = 0, e_flags = 0, e_ehsize = 64, e_phentsize = 56, e_phnum = 1, e_shentsize = 0, e_shnum = 0, e_shstrndx = 0 \<rparr>"
  by (simp add: elf_header_def field_def demo_elf_def ELF_MAGIC_def)

lemma demo_elf_program_header:
  "program_header (drop 64 demo_elf) = \<lparr> p_type = 1, p_flags = 5, p_offset = 120, p_vaddr = 0x400000, p_paddr = 0,
     p_filesz = 4, p_memsz = 6, p_align = 4096 \<rparr>"
  by (simp add: program_header_def field_def demo_elf_def ELF_MAGIC_def)

lemma demo_elf_data: "drop 120 demo_elf = [0x90, 0x90, 0x0F, 0x05]"
  by (simp add: demo_elf_def ELF_MAGIC_def)

lemma demo_elf_load:
  "load_elf demo_elf = Some (Inr \<lparr> entry_point = 0x400000, segments =
     [\<lparr> virtual_address = 0x400000, seg_size = 6, seg_flags = \<lparr> readable = True, writable = False, executable = True \<rparr>,
        seg_data = [0x90, 0x90, 0x0F, 0x05, 0, 0] \<rparr>] \<rparr>)"
proof -
  have z: "replicate 2 (0 :: u8) = [0, 0]" by (simp add: numeral_2_eq_2)
  have "load_segment demo_elf (program_header (drop 64 demo_elf)) = Some (Inr
     \<lparr> virtual_address = 0x400000, seg_size = 6, seg_flags = \<lparr> readable = True, writable = False, executable = True \<rparr>,
       seg_data = [0x90, 0x90, 0x0F, 0x05, 0, 0] \<rparr>)"
    unfolding demo_elf_program_header
    by (simp add: demo_elf_length demo_elf_data load_segment_def Let_def slice_def resize_zero_def virt_new_def canonical_def
        segment_flags_def z)
  then show ?thesis
    by (simp add: load_elf_def Let_def demo_elf_length demo_elf_header demo_elf_program_header validate_def
        ELF_MAGIC_def virt_new_def canonical_def)
qed

section \<open>Properties\<close>

text \<open>C13: Every well-formed ELF64 file is loaded. Whatever file is loaded, the entry point is the one of the
  header and the segments are those of the loadable program headers, in order: each holds the
  bytes of its range in the file, which lies inside the file, followed by zeros up to its size in
  memory, with the permissions of its header.\<close>

theorem load_elf_image:
  assumes "length d < 2 ^ 64"
  shows "(elf_ok d \<longrightarrow> (\<exists>img. load_elf d = Some (Inr img))) \<and>
    (\<forall>img. load_elf d = Some (Inr img) \<longrightarrow>
       take 4 d = ELF_MAGIC \<and> entry_point img = e_entry (elf_header d) \<and> list_all2 (segment_of d) (load_headers d) (segments img))"
proof (intro conjI allI impI)
  let ?h = "elf_header d"
  assume ok: "elf_ok d"
  note O = ok[unfolded elf_ok_def Let_def]
  have P: "unat (e_phoff ?h + of_nat j * ucast (e_phentsize ?h)) = unat (e_phoff ?h) + j * unat (e_phentsize ?h)" if "j \<le> unat (e_phnum ?h)" for j
    by (rule header_position[OF _ that]) (use O in linarith)
  have "\<forall>j \<in> set [0..<unat (e_phnum ?h)]. unat (e_phoff ?h + of_nat j * ucast (e_phentsize ?h)) + PHDR_SIZE \<le> length d"
  proof
    fix j assume "j \<in> set [0..<unat (e_phnum ?h)]"
    then have j: "Suc j \<le> unat (e_phnum ?h)" by simp
    then have "Suc j * unat (e_phentsize ?h) \<le> unat (e_phnum ?h) * unat (e_phentsize ?h)" by (rule mult_right_mono) simp
    then show "unat (e_phoff ?h + of_nat j * ucast (e_phentsize ?h)) + PHDR_SIZE \<le> length d" using P[of j] j O by simp
  qed
  then obtain ss where ss: "load_segments d (e_phoff ?h) (ucast (e_phentsize ?h)) [0..<unat (e_phnum ?h)] = Some (Inr ss)"
    using load_segments_ok[OF assms] O unfolding load_headers_def by blast
  have "unat (e_phoff ?h + ucast (e_phnum ?h) * ucast (e_phentsize ?h)) = unat (e_phoff ?h) + unat (e_phnum ?h) * unat (e_phentsize ?h)"
    using P[of "unat (e_phnum ?h)"] by simp
  then have "\<not> of_nat (length d) < e_phoff ?h + ucast (e_phnum ?h) * ucast (e_phentsize ?h)"
    using O assms by (simp add: word_less_nat_alt unat_of_nat_less)
  then show "\<exists>img. load_elf d = Some (Inr img)" using O ss by (simp add: load_elf_def Let_def virt_new_def)
next
  fix img assume l: "load_elf d = Some (Inr img)"
  show "take 4 d = ELF_MAGIC" using l by (auto simp: load_elf_def Let_def validate_def elf_header_def split: if_splits)
  show "entry_point img = e_entry (elf_header d)"
    using l by (auto simp: load_elf_def Let_def virt_new_def split: if_splits option.splits sum.splits Option.bind_splits)
  show "list_all2 (segment_of d) (load_headers d) (segments img)" by (rule load_elf_sound[OF assms l])
qed

theorem load_elf_image_witness:
  "\<exists>img. load_elf demo_elf = Some (Inr img) \<and> entry_point img = 0x400000 \<and> map seg_data (segments img) = [[0x90, 0x90, 0x0F, 0x05, 0, 0]]"
proof -
  note h = demo_elf_header and p = demo_elf_program_header
  have lh: "load_headers demo_elf = [program_header (drop 64 demo_elf)]" unfolding load_headers_def headers_at_def h by (simp add: p)
  have "elf_ok demo_elf" by (simp add: elf_ok_def Let_def demo_elf_length h lh p validate_def canonical_def ELF_MAGIC_def)
  then obtain img where "load_elf demo_elf = Some (Inr img)" "entry_point img = 0x400000"
    using load_elf_image[of demo_elf] demo_elf_length h by auto
  then show ?thesis using demo_elf_load by auto
qed

end
