(* ===== verification/Task.thy ===== *)
theory Task
  imports Prelude
begin

text \<open>
  task/src/lib.rs, task/src/scheduler.rs and task/src/context_switch.rs: task
  control blocks, the single-CPU run queue, preemption, blocking, waking,
  zombies and the register switch.

  An \<open>Arc<Mutex<TaskCB>>\<close> is a \<open>task_ref\<close> into the heap \<open>tcb\<close>; equality of
  references is \<open>Arc::ptr_eq\<close>. The statics \<open>RUN_QUEUE\<close>, \<open>CURRENT_TASK\<close>,
  \<open>SWITCH_HOOK\<close> and \<open>NEXT_ID\<close> are fields of \<open>sched\<close>. \<open>rq_init\<close> records whether
  \<open>scheduler::init\<close> has run: \<open>global()\<close> panics before it, and main.rs calls it
  before any task exists, so the operations that go through \<open>global()\<close> are
  modelled on the initialised queue, and \<open>task_schedule\<close>, which goes through
  \<open>global_or_none\<close>, tests the flag. \<open>kernel_stack\<close> is the value that the hook
  registered in main.rs stores in TSS.RSP0 and in the per-CPU block.
\<close>

type_synonym task_ref = nat

datatype TaskState = Ready | Running | Blocked | Sleeping | Zombie | Terminated

datatype SchedClass = Realtime u8 | Fair u8 | Batch | Iso

definition SchedClass_default :: SchedClass where
  "SchedClass_default = Fair 120"

record CPUContext =
  ctx_rsp :: u64
  ctx_rbp :: u64
  ctx_rbx :: u64
  ctx_r12 :: u64
  ctx_r13 :: u64
  ctx_r14 :: u64
  ctx_r15 :: u64
  ctx_rip :: u64
  ctx_rflags :: u64
  ctx_cs :: u64
  ctx_ss :: u64
  ctx_fs :: u64
  ctx_gs :: u64
  ctx_ds :: u64
  ctx_es :: u64
  ctx_fs_base :: u64
  ctx_gs_base :: u64
  ctx_cr3 :: u64

definition CPUContext_default :: CPUContext where
  "CPUContext_default =
     \<lparr>ctx_rsp = 0, ctx_rbp = 0, ctx_rbx = 0, ctx_r12 = 0, ctx_r13 = 0, ctx_r14 = 0,
      ctx_r15 = 0, ctx_rip = 0, ctx_rflags = 0x202, ctx_cs = 0x8, ctx_ss = 0x10,
      ctx_fs = 0, ctx_gs = 0, ctx_ds = 0, ctx_es = 0, ctx_fs_base = 0, ctx_gs_base = 0,
      ctx_cr3 = 0\<rparr>"

record TaskCB =
  t_id :: u64
  t_state :: TaskState
  t_sched_class :: SchedClass
  t_context :: CPUContext
  t_kstack :: u64
  t_ustack :: "u64 option"
  t_name :: string
  t_parent_id :: u64
  t_exit_status :: "32 word option"
  t_pml4_frame :: "u64 option"
  t_children :: "u64 list"
  t_waiting_for_child :: bool

text \<open>The registers that \<open>context_switch\<close> saves and loads. \<open>r_rip\<close> is the address at which the
  running code continues.\<close>

record cpu_regs =
  r_rsp :: u64
  r_rbp :: u64
  r_rbx :: u64
  r_r12 :: u64
  r_r13 :: u64
  r_r14 :: u64
  r_r15 :: u64
  r_rip :: u64
  r_cr3 :: u64

record sched =
  tcb :: "task_ref \<Rightarrow> TaskCB"
  next_ref :: task_ref
  next_task_id :: u64
  rq_init :: bool
  rq_queue :: "task_ref list"
  rq_current :: "task_ref option"
  rq_zombies :: "task_ref list"
  CURRENT_TASK :: u64
  switch_hook :: bool
  kernel_stack :: u64
  cpu :: cpu_regs

section \<open>Task control blocks\<close>

definition task_id_new :: "sched \<Rightarrow> u64 \<times> sched" where
  "task_id_new s = (next_task_id s, s\<lparr>next_task_id := next_task_id s + 1\<rparr>)"

definition TaskCB_new :: "string \<Rightarrow> u64 \<Rightarrow> u64 \<Rightarrow> SchedClass \<Rightarrow> sched \<Rightarrow> TaskCB \<times> sched" where
  "TaskCB_new name entry_point stack sched_class s =
     (let context = CPUContext_default
            \<lparr>ctx_rsp := stack AND NOT 0xF, ctx_rbp := 0, ctx_rip := entry_point,
             ctx_rflags := 0x202, ctx_cs := 0x8, ctx_ss := 0x10, ctx_ds := 0x10,
             ctx_es := 0x10, ctx_fs := 0, ctx_gs := 0, ctx_cr3 := r_cr3 (cpu s)\<rparr>;
          (tid, s') = task_id_new s
      in (\<lparr>t_id = tid, t_state = Ready, t_sched_class = sched_class, t_context = context,
           t_kstack = stack, t_ustack = None, t_name = name, t_parent_id = 0,
           t_exit_status = None, t_pml4_frame = None, t_children = [],
           t_waiting_for_child = False\<rparr>, s'))"

definition TaskCB_running_task :: "sched \<Rightarrow> TaskCB \<times> sched" where
  "TaskCB_running_task s =
     (let (tid, s') = task_id_new s
      in (\<lparr>t_id = tid, t_state = Running, t_sched_class = SchedClass_default,
           t_context = CPUContext_default, t_kstack = 0, t_ustack = None,
           t_name = ''kernel_main'', t_parent_id = 0, t_exit_status = None,
           t_pml4_frame = None, t_children = [], t_waiting_for_child = False\<rparr>, s'))"

definition set_state :: "task_ref \<Rightarrow> TaskState \<Rightarrow> sched \<Rightarrow> sched" where
  "set_state r st s = s\<lparr>tcb := (tcb s)(r := (tcb s r)\<lparr>t_state := st\<rparr>)\<rparr>"

fun task_priority :: "SchedClass \<Rightarrow> u8" where
  "task_priority (Realtime p) = p"
| "task_priority (Fair p) = p"
| "task_priority Batch = 140"
| "task_priority Iso = 50"

definition is_runable :: "TaskCB \<Rightarrow> bool" where
  "is_runable t = (t_state t = Ready)"

text \<open>\<open>Arc::new(Mutex::new(tcb))\<close>: a fresh heap cell.\<close>

definition arc_new_task :: "TaskCB \<Rightarrow> sched \<Rightarrow> task_ref \<times> sched" where
  "arc_new_task t s = (next_ref s, s\<lparr>tcb := (tcb s)(next_ref s := t), next_ref := Suc (next_ref s)\<rparr>)"

section \<open>The run queue\<close>

definition scheduler_init :: "sched \<Rightarrow> sched" where
  "scheduler_init s =
     (if rq_init s then s
      else s\<lparr>rq_init := True, rq_queue := [], rq_current := None, rq_zombies := []\<rparr>)"

definition enqueue :: "task_ref \<Rightarrow> sched \<Rightarrow> sched" where
  "enqueue r s = (let s1 = set_state r Ready s in s1\<lparr>rq_queue := rq_queue s1 @ [r]\<rparr>)"

definition dequeue :: "sched \<Rightarrow> task_ref option \<times> sched" where
  "dequeue s = (case rq_queue s of [] \<Rightarrow> (None, s) | r # rs \<Rightarrow> (Some r, s\<lparr>rq_queue := rs\<rparr>))"

definition enqueue_task :: "task_ref \<Rightarrow> sched \<Rightarrow> sched" where
  "enqueue_task r s = enqueue r s"

definition wake_task :: "task_ref \<Rightarrow> sched \<Rightarrow> sched" where
  "wake_task r s = enqueue r s"

definition current_task_id :: "sched \<Rightarrow> u64" where
  "current_task_id s = CURRENT_TASK s"

definition current_task_arc :: "sched \<Rightarrow> task_ref option" where
  "current_task_arc s = rq_current s"

definition take_current :: "sched \<Rightarrow> task_ref option \<times> sched" where
  "take_current s = (rq_current s, s\<lparr>rq_current := None\<rparr>)"

definition pick_next_task :: "sched \<Rightarrow> task_ref option \<times> sched" where
  "pick_next_task s =
     (case dequeue s of
        (None, s1) \<Rightarrow> (None, s1)
      | (Some r, s1) \<Rightarrow>
          (let s2 = set_state r Running s1
           in (Some r, s2\<lparr>CURRENT_TASK := t_id (tcb s2 r), rq_current := Some r\<rparr>)))"

definition reschedule_current :: "sched \<Rightarrow> sched" where
  "reschedule_current s =
     (case take_current s of
        (None, s1) \<Rightarrow> s1
      | (Some r, s1) \<Rightarrow> if t_kstack (tcb s1 r) = 0 then s1 else enqueue r s1)"

definition scheduler_schedule :: "sched \<Rightarrow> task_ref option \<times> sched" where
  "scheduler_schedule s = pick_next_task (reschedule_current s)"

definition push_zombie :: "task_ref \<Rightarrow> sched \<Rightarrow> sched" where
  "push_zombie r s = s\<lparr>rq_zombies := rq_zombies s @ [r]\<rparr>"

definition find_task_by_id :: "u64 \<Rightarrow> sched \<Rightarrow> task_ref option" where
  "find_task_by_id i s =
     (case rq_current s of
        Some c \<Rightarrow> if t_id (tcb s c) = i then Some c
                  else List.find (\<lambda>r. t_id (tcb s r) = i) (rq_queue s)
      | None \<Rightarrow> List.find (\<lambda>r. t_id (tcb s r) = i) (rq_queue s))"

text \<open>\<open>iter().position(..)\<close> followed by \<open>remove(pos)\<close>: the first match leaves the list.\<close>

definition zombie_match :: "u64 \<Rightarrow> u64 \<Rightarrow> TaskCB \<Rightarrow> bool" where
  "zombie_match parent_id child_pid t \<longleftrightarrow>
     t_parent_id t = parent_id \<and> (child_pid = - 1 \<or> t_id t = child_pid)"

fun remove_first :: "('a \<Rightarrow> bool) \<Rightarrow> 'a list \<Rightarrow> ('a \<times> 'a list) option" where
  "remove_first P [] = None"
| "remove_first P (x # xs) =
     (if P x then Some (x, xs)
      else map_option (\<lambda>(y, ys). (y, x # ys)) (remove_first P xs))"

definition find_zombie_child :: "u64 \<Rightarrow> u64 \<Rightarrow> sched \<Rightarrow> task_ref option \<times> sched" where
  "find_zombie_child parent_id child_pid s =
     (case remove_first (\<lambda>z. zombie_match parent_id child_pid (tcb s z)) (rq_zombies s) of
        None \<Rightarrow> (None, s)
      | Some (z, zs) \<Rightarrow> (Some z, s\<lparr>rq_zombies := zs\<rparr>))"

section \<open>Switching registers\<close>

definition save_regs :: "cpu_regs \<Rightarrow> CPUContext \<Rightarrow> CPUContext" where
  "save_regs c ctx = ctx
     \<lparr>ctx_rip := r_rip c, ctx_rsp := r_rsp c, ctx_rbp := r_rbp c, ctx_rbx := r_rbx c,
      ctx_r12 := r_r12 c, ctx_r13 := r_r13 c, ctx_r14 := r_r14 c, ctx_r15 := r_r15 c,
      ctx_cr3 := r_cr3 c\<rparr>"

definition load_regs :: "CPUContext \<Rightarrow> cpu_regs \<Rightarrow> cpu_regs" where
  "load_regs ctx c =
     \<lparr>r_rsp = ctx_rsp ctx, r_rbp = ctx_rbp ctx, r_rbx = ctx_rbx ctx, r_r12 = ctx_r12 ctx,
      r_r13 = ctx_r13 ctx, r_r14 = ctx_r14 ctx, r_r15 = ctx_r15 ctx, r_rip = ctx_rip ctx,
      r_cr3 = (if ctx_cr3 ctx = 0 then r_cr3 c
               else if ctx_cr3 ctx = r_cr3 c then r_cr3 c else ctx_cr3 ctx)\<rparr>"

definition context_switch :: "task_ref \<Rightarrow> task_ref \<Rightarrow> sched \<Rightarrow> sched" where
  "context_switch old new s =
     (let s1 = s\<lparr>tcb := (tcb s)(old := (tcb s old)\<lparr>t_context := save_regs (cpu s) (t_context (tcb s old))\<rparr>)\<rparr>
      in s1\<lparr>cpu := load_regs (t_context (tcb s1 new)) (cpu s1)\<rparr>)"

text \<open>The switch hook, run with the new task's kernel stack unless that is 0.\<close>

definition run_switch_hook :: "task_ref \<Rightarrow> sched \<Rightarrow> sched" where
  "run_switch_hook new s =
     (if switch_hook s \<and> t_kstack (tcb s new) \<noteq> 0
      then s\<lparr>kernel_stack := t_kstack (tcb s new)\<rparr> else s)"

definition task_schedule :: "sched \<Rightarrow> sched" where
  "task_schedule s =
     (if \<not> rq_init s then s
      else let old = rq_current s;
               s1 = reschedule_current s
           in case pick_next_task s1 of
                (None, s2) \<Rightarrow> s2
              | (Some new, s2) \<Rightarrow>
                  (case old of
                     None \<Rightarrow> s2
                   | Some o' \<Rightarrow> if o' = new then s2
                               else context_switch o' new (run_switch_hook new s2)))"

definition block_current_and_switch :: "sched \<Rightarrow> sched" where
  "block_current_and_switch s =
     (case take_current s of
        (None, s1) \<Rightarrow> s1
      | (Some old, s1) \<Rightarrow>
          (let s2 = set_state old Blocked s1
           in case pick_next_task s2 of
                (None, s3) \<Rightarrow> s3\<lparr>rq_current := Some old\<rparr>
              | (Some new, s3) \<Rightarrow> context_switch old new (run_switch_hook new s3)))"

end
