(* ===== verification/Proc.thy ===== *)
theory Proc
  imports Task
begin

text \<open>
  Process lifetime: the scheduler part of \<open>SYS_EXIT\<close> and \<open>SYS_WAIT\<close>
  (kernel/src/syscall.rs), the invariant of the run queue over every sequence of
  scheduler operations, round-robin order, and what a register switch preserves.
\<close>

section \<open>Exit\<close>

datatype exit_result = Switched sched | Halted sched

definition exit_mark :: "32 word \<Rightarrow> task_ref \<Rightarrow> sched \<Rightarrow> sched" where
  "exit_mark status r s =
     set_state r Zombie (s\<lparr>tcb := (tcb s)(r := (tcb s r)\<lparr>t_exit_status := Some status\<rparr>)\<rparr>)"

definition exit_notify_parent :: "task_ref \<Rightarrow> sched \<Rightarrow> sched" where
  "exit_notify_parent r s =
     (let parent_id = t_parent_id (tcb s r)
      in if parent_id = 0 then s
         else case find_task_by_id parent_id s of
                None \<Rightarrow> s
              | Some par \<Rightarrow>
                  if t_waiting_for_child (tcb s par)
                  then wake_task par
                         (s\<lparr>tcb := (tcb s)(par := (tcb s par)\<lparr>t_waiting_for_child := False\<rparr>)\<rparr>)
                  else s)"

text \<open>The outgoing registers go to a dummy context that is never resumed.\<close>

definition exit_switch :: "sched \<Rightarrow> exit_result" where
  "exit_switch s =
     (case pick_next_task s of
        (None, s1) \<Rightarrow> Halted s1
      | (Some new, s1) \<Rightarrow>
          (let s2 = run_switch_hook new s1
           in Switched (s2\<lparr>cpu := load_regs (t_context (tcb s2 new)) (cpu s2)\<rparr>)))"

fun exit_sched :: "exit_result \<Rightarrow> sched" where
  "exit_sched (Switched s) = s"
| "exit_sched (Halted s) = s"

text \<open>\<open>ws\<close> are the blocked readers that \<open>fd::cleanup\<close> wakes when it drops the last write end of
  a pipe.\<close>

definition task_exit :: "task_ref list \<Rightarrow> 32 word \<Rightarrow> sched \<Rightarrow> exit_result" where
  "task_exit ws status s =
     (case take_current s of
        (None, s1) \<Rightarrow> Halted s1
      | (Some r, s1) \<Rightarrow>
          exit_switch (push_zombie r (exit_notify_parent r
            (fold wake_task ws (exit_mark status r s1)))))"

section \<open>Wait\<close>

datatype wait_result =
  Reaped u64 "32 word" sched
| NoChild
| NoHang sched
| WaitBlocked sched

text \<open>\<open>pid > 0\<close> is a comparison of the signed value.\<close>

definition wait_has_child :: "u64 \<Rightarrow> sched \<Rightarrow> bool" where
  "wait_has_child pid s =
     (if 0 <s pid
      then (case current_task_arc s of Some a \<Rightarrow> pid \<in> set (t_children (tcb s a)) | None \<Rightarrow> False)
      else (case current_task_arc s of Some a \<Rightarrow> t_children (tcb s a) \<noteq> [] | None \<Rightarrow> False))"

definition wait_iter :: "u64 \<Rightarrow> bool \<Rightarrow> sched \<Rightarrow> wait_result" where
  "wait_iter pid wnohang s =
     (case find_zombie_child (current_task_id s) pid s of
        (Some z, s1) \<Rightarrow>
          (let child_pid = t_id (tcb s1 z);
               exit_status = (case t_exit_status (tcb s1 z) of Some x \<Rightarrow> x | None \<Rightarrow> 0);
               s2 = (case current_task_arc s1 of
                       Some p \<Rightarrow> s1\<lparr>tcb := (tcb s1)(p := (tcb s1 p)
                                     \<lparr>t_children := filter (\<lambda>i. i \<noteq> child_pid) (t_children (tcb s1 p))\<rparr>)\<rparr>
                     | None \<Rightarrow> s1)
           in Reaped child_pid exit_status s2)
      | (None, s1) \<Rightarrow>
          if wnohang then NoHang s1
          else WaitBlocked (block_current_and_switch
                 (case current_task_arc s1 of
                    Some a \<Rightarrow> s1\<lparr>tcb := (tcb s1)(a := (tcb s1 a)\<lparr>t_waiting_for_child := True\<rparr>)\<rparr>
                  | None \<Rightarrow> s1)))"

definition task_wait :: "u64 \<Rightarrow> bool \<Rightarrow> sched \<Rightarrow> wait_result" where
  "task_wait pid wnohang s = (if wait_has_child pid s then wait_iter pid wnohang s else NoChild)"

section \<open>Invariant of the run queue\<close>

definition cur_list :: "sched \<Rightarrow> task_ref list" where
  "cur_list s = (case rq_current s of Some c \<Rightarrow> [c] | None \<Rightarrow> [])"

definition rq_refs :: "sched \<Rightarrow> task_ref list" where
  "rq_refs s = cur_list s @ rq_queue s @ rq_zombies s"

text \<open>A task is in at most one place; queued tasks are Ready, zombies are Zombie, the current
  task is Running (or Blocked, when it blocked with nothing else to run), and \<open>CURRENT_TASK\<close> is
  its identifier, but for the boot placeholder (the task without a kernel stack).\<close>

definition sched_inv :: "sched \<Rightarrow> bool" where
  "sched_inv s \<longleftrightarrow>
     rq_init s \<and> distinct (rq_refs s) \<and> (\<forall>r\<in>set (rq_refs s). r < next_ref s)
     \<and> (\<forall>r\<in>set (rq_queue s). t_state (tcb s r) = Ready)
     \<and> (\<forall>z\<in>set (rq_zombies s). t_state (tcb s z) = Zombie)
     \<and> (\<forall>c. rq_current s = Some c \<longrightarrow>
           t_state (tcb s c) \<in> {Running, Blocked}
           \<and> (t_kstack (tcb s c) \<noteq> 0 \<longrightarrow> CURRENT_TASK s = t_id (tcb s c)))"

named_theorems task_defs

lemmas [task_defs] = task_id_new_def set_state_def arc_new_task_def enqueue_def dequeue_def
  enqueue_task_def wake_task_def take_current_def pick_next_task_def reschedule_current_def
  current_task_arc_def current_task_id_def push_zombie_def run_switch_hook_def context_switch_def
  exit_mark_def cur_list_def rq_refs_def Let_def

text \<open>What the two switching primitives do to the queue, for each case of the code.\<close>

lemma pick_next_task_Cons:
  assumes "rq_queue s = r # rs"
  shows "pick_next_task s =
    (Some r, s\<lparr>tcb := (tcb s)(r := (tcb s r)\<lparr>t_state := Running\<rparr>), rq_queue := rs,
               CURRENT_TASK := t_id (tcb s r), rq_current := Some r\<rparr>)"
  using assms by (simp add: task_defs)

lemma pick_next_task_Nil: "rq_queue s = [] \<Longrightarrow> pick_next_task s = (None, s)"
  by (simp add: task_defs)

lemma sched_inv_pick:
  assumes "sched_inv s" "rq_current s = None" "pick_next_task s = (Some r, s')"
  shows "sched_inv s'"
proof (cases "rq_queue s")
  case Nil
  then show ?thesis using assms by (simp add: pick_next_task_Nil)
next
  case (Cons r' rs)
  have "s' = s\<lparr>tcb := (tcb s)(r' := (tcb s r')\<lparr>t_state := Running\<rparr>), rq_queue := rs,
               CURRENT_TASK := t_id (tcb s r'), rq_current := Some r'\<rparr>"
    using assms(3) pick_next_task_Cons [OF Cons] by auto
  then show ?thesis using assms(1,2) Cons by (auto simp: sched_inv_def rq_refs_def cur_list_def)
qed

lemma sched_inv_enqueue:
  assumes "sched_inv s" "r \<notin> set (rq_refs s)" "r < next_ref s"
  shows "sched_inv (enqueue r s)"
  using assms by (auto simp: sched_inv_def rq_refs_def cur_list_def enqueue_def set_state_def)

lemma sched_inv_set_state_other:
  assumes "sched_inv s" "r \<notin> set (rq_refs s)"
  shows "sched_inv (set_state r st s)"
  using assms by (auto simp: sched_inv_def rq_refs_def cur_list_def set_state_def)

lemma sched_inv_take_current:
  assumes "sched_inv s"
  shows "sched_inv (s\<lparr>rq_current := None\<rparr>)"
  using assms by (auto simp: sched_inv_def rq_refs_def cur_list_def split: option.splits)

lemma sched_inv_cpu [simp]: "sched_inv (s\<lparr>cpu := c\<rparr>) = sched_inv s"
  by (simp add: sched_inv_def rq_refs_def cur_list_def)

lemma sched_inv_hook [simp]: "sched_inv (run_switch_hook r s) = sched_inv s"
  by (simp add: run_switch_hook_def sched_inv_def rq_refs_def cur_list_def)

text \<open>Updates of a control block that keep its state and identifier keep the invariant.\<close>

lemma sched_inv_tcb_upd:
  assumes "sched_inv s" "t_state t = t_state (tcb s r)" "t_id t = t_id (tcb s r)"
    "t_kstack t = t_kstack (tcb s r)"
  shows "sched_inv (s\<lparr>tcb := (tcb s)(r := t)\<rparr>)"
  using assms by (auto simp: sched_inv_def rq_refs_def cur_list_def)

lemma sched_inv_context_switch:
  "sched_inv s \<Longrightarrow> sched_inv (context_switch old new s)"
  by (simp add: context_switch_def Let_def sched_inv_tcb_upd)

lemma rq_refs_reschedule:
  "set (rq_refs (reschedule_current s)) \<subseteq> set (rq_refs s)"
  by (auto simp: task_defs split: option.splits)

lemma sched_inv_reschedule:
  assumes "sched_inv s"
  shows "sched_inv (reschedule_current s) \<and> rq_current (reschedule_current s) = None"
proof (cases "rq_current s")
  case None
  then show ?thesis using assms by (simp add: reschedule_current_def take_current_def sched_inv_take_current)
next
  case (Some c)
  let ?s1 = "s\<lparr>rq_current := None\<rparr>"
  have i: "sched_inv ?s1" using assms by (rule sched_inv_take_current)
  have "c \<notin> set (rq_refs ?s1)" "c < next_ref ?s1"
    using assms Some by (auto simp: sched_inv_def rq_refs_def cur_list_def)
  with i have "sched_inv (enqueue c ?s1)" by (rule sched_inv_enqueue)
  then show ?thesis using Some i
    by (simp add: reschedule_current_def take_current_def enqueue_def set_state_def Let_def)
qed

lemma sched_inv_schedule:
  assumes "sched_inv s"
  shows "sched_inv (task_schedule s)"
proof (cases "pick_next_task (reschedule_current s)")
  case (Pair n s2)
  note r = sched_inv_reschedule [OF assms]
  show ?thesis
  proof (cases n)
    case None
    then have "s2 = reschedule_current s"
      using Pair by (auto simp: task_defs split: list.splits)
    then show ?thesis using Pair None r assms by (simp add: task_schedule_def sched_inv_def)
  next
    case (Some new)
    then have "sched_inv s2" using Pair r sched_inv_pick by blast
    then show ?thesis using Pair Some assms
      by (auto simp: task_schedule_def sched_inv_context_switch split: option.splits)
  qed
qed

lemma sched_inv_block:
  assumes "sched_inv s"
  shows "sched_inv (block_current_and_switch s)"
proof (cases "rq_current s")
  case None
  then show ?thesis using assms
    by (simp add: block_current_and_switch_def take_current_def sched_inv_take_current)
next
  case (Some c)
  let ?s2 = "set_state c Blocked (s\<lparr>rq_current := None\<rparr>)"
  have "c \<notin> set (rq_refs (s\<lparr>rq_current := None\<rparr>))"
    using assms Some by (auto simp: sched_inv_def rq_refs_def cur_list_def)
  then have i: "sched_inv ?s2"
    using assms by (intro sched_inv_set_state_other sched_inv_take_current)
  show ?thesis
  proof (cases "rq_queue s")
    case Nil
    then have "block_current_and_switch s = ?s2\<lparr>rq_current := Some c\<rparr>"
      using Some by (simp add: block_current_and_switch_def take_current_def pick_next_task_Nil set_state_def)
    then show ?thesis using assms Some Nil
      by (auto simp: sched_inv_def rq_refs_def cur_list_def set_state_def)
  next
    case (Cons r rs)
    then have q: "rq_queue ?s2 = r # rs" by (simp add: set_state_def)
    obtain s3 where p: "pick_next_task ?s2 = (Some r, s3)"
      using pick_next_task_Cons [OF q] by blast
    have "rq_current ?s2 = None" by (simp add: set_state_def)
    with i p have "sched_inv s3" using sched_inv_pick by blast
    then show ?thesis using Some p
      by (simp add: block_current_and_switch_def take_current_def sched_inv_context_switch)
  qed
qed

lemma sched_inv_spawn:
  assumes "sched_inv s"
  shows "sched_inv (enqueue_task (next_ref s) (snd (arc_new_task t s)))"
proof -
  have f: "next_ref s \<notin> set (rq_refs s)" using assms by (auto simp: sched_inv_def)
  have "sched_inv (snd (arc_new_task t s))"
    using assms f
    by (auto simp: sched_inv_def rq_refs_def cur_list_def arc_new_task_def intro: less_SucI)
  moreover have "next_ref s \<notin> set (rq_refs (snd (arc_new_task t s)))"
    using f by (simp add: rq_refs_def cur_list_def arc_new_task_def)
  ultimately show ?thesis
    unfolding enqueue_task_def by (rule sched_inv_enqueue) (simp add: arc_new_task_def)
qed

lemma find_task_by_id_in_rq:
  "find_task_by_id i s = Some r \<Longrightarrow> r \<in> set (cur_list s @ rq_queue s)"
  by (auto simp: find_task_by_id_def cur_list_def find_Some_iff split: option.splits if_splits)

text \<open>A task in the queue, and a current task that is Running, is not waiting for a child: the
  flag is set only on the way into \<open>block_current_and_switch\<close>.\<close>

definition wait_inv :: "sched \<Rightarrow> bool" where
  "wait_inv s \<longleftrightarrow>
     (\<forall>r\<in>set (rq_queue s). \<not> t_waiting_for_child (tcb s r))
     \<and> (\<forall>c. rq_current s = Some c \<and> t_state (tcb s c) = Running \<longrightarrow> \<not> t_waiting_for_child (tcb s c))"

lemma wait_inv_cpu [simp]: "wait_inv (s\<lparr>cpu := c\<rparr>) = wait_inv s"
  by (simp add: wait_inv_def)

lemma wait_inv_hook [simp]: "wait_inv (run_switch_hook r s) = wait_inv s"
  by (simp add: run_switch_hook_def wait_inv_def)

lemma exit_notify_parent_dead:
  assumes "wait_inv s" "rq_current s = None"
  shows "exit_notify_parent r s = s"
proof (cases "find_task_by_id (t_parent_id (tcb s r)) s")
  case (Some par)
  then have "par \<in> set (rq_queue s)"
    using assms(2) find_task_by_id_in_rq by (fastforce simp: cur_list_def)
  then show ?thesis using Some assms(1) by (simp add: exit_notify_parent_def wait_inv_def Let_def)
qed (simp add: exit_notify_parent_def Let_def)

section \<open>All sequences of scheduler operations\<close>

text \<open>State of the statics after \<open>scheduler::init\<close> and the installation of the boot placeholder
  (kernel/src/main.rs).\<close>

definition sched_statics :: "cpu_regs \<Rightarrow> sched" where
  "sched_statics c =
     \<lparr>tcb = (\<lambda>_. \<lparr>t_id = 0, t_state = Terminated, t_sched_class = SchedClass_default,
                   t_context = CPUContext_default, t_kstack = 0, t_ustack = None, t_name = [],
                   t_parent_id = 0, t_exit_status = None, t_pml4_frame = None, t_children = [],
                   t_waiting_for_child = False\<rparr>),
      next_ref = 0, next_task_id = 1, rq_init = False, rq_queue = [], rq_current = None,
      rq_zombies = [], CURRENT_TASK = 0, switch_hook = True, kernel_stack = 0, cpu = c\<rparr>"

definition boot_sched :: "cpu_regs \<Rightarrow> sched" where
  "boot_sched c =
     (let (t, s1) = TaskCB_running_task (scheduler_init (sched_statics c));
          (r, s2) = arc_new_task t s1
      in s2\<lparr>rq_current := Some r\<rparr>)"

text \<open>One rule per operation. \<open>run\<close> is the current task computing. A task that blocked with
  nothing else to run spins inside the system call with interrupts masked, so the timer, exit
  and wait rules ask for a current task that is not in that loop. A task is woken only by the
  port or pipe it queued itself on, after it left the run queue.\<close>

inductive sched_step :: "sched \<Rightarrow> sched \<Rightarrow> bool" where
  run: "sched_step s (s\<lparr>cpu := c\<rparr>)"
| tick: "(\<forall>c. rq_current s = Some c \<longrightarrow> t_state (tcb s c) = Running) \<Longrightarrow> sched_step s (task_schedule s)"
| spawn: "\<not> t_waiting_for_child t \<Longrightarrow>
     sched_step s (enqueue_task (next_ref s) (snd (arc_new_task t s)))"
| block: "sched_step s (block_current_and_switch s)"
| wake: "r \<notin> set (rq_refs s) \<Longrightarrow> r < next_ref s \<Longrightarrow> \<not> t_waiting_for_child (tcb s r) \<Longrightarrow>
     sched_step s (wake_task r s)"
| exit: "rq_current s = Some c \<Longrightarrow> t_state (tcb s c) = Running \<Longrightarrow> distinct ws \<Longrightarrow>
     (\<forall>r\<in>set ws. r \<notin> set (rq_refs s) \<and> r < next_ref s \<and> \<not> t_waiting_for_child (tcb s r)) \<Longrightarrow>
     task_exit ws st s = Switched s' \<Longrightarrow> sched_step s s'"
| reap: "rq_current s = Some c \<Longrightarrow> t_state (tcb s c) = Running \<Longrightarrow>
     task_wait pid h s = Reaped i st s' \<Longrightarrow> sched_step s s'"
| wait_block: "rq_current s = Some c \<Longrightarrow> t_state (tcb s c) = Running \<Longrightarrow>
     task_wait pid h s = WaitBlocked s' \<Longrightarrow> sched_step s s'"

inductive sched_reachable :: "sched \<Rightarrow> bool" where
  boot: "sched_reachable (boot_sched c)"
| step: "sched_reachable s \<Longrightarrow> sched_step s s' \<Longrightarrow> sched_reachable s'"

definition full_inv :: "sched \<Rightarrow> bool" where
  "full_inv s \<longleftrightarrow> sched_inv s \<and> wait_inv s"

lemma full_inv_boot: "full_inv (boot_sched c)"
  by (auto simp: full_inv_def sched_inv_def wait_inv_def boot_sched_def TaskCB_running_task_def
      task_id_new_def scheduler_init_def sched_statics_def arc_new_task_def rq_refs_def cur_list_def)

lemma wait_inv_schedule:
  assumes "wait_inv s" "\<forall>c. rq_current s = Some c \<longrightarrow> t_state (tcb s c) = Running"
  shows "wait_inv (task_schedule s)"
  using assms
  by (auto simp: wait_inv_def task_schedule_def task_defs split: option.splits list.splits if_splits)

lemma wait_inv_block:
  assumes "sched_inv s" "wait_inv (s\<lparr>rq_current := None\<rparr>)"
  shows "wait_inv (block_current_and_switch s)"
  using assms
  by (auto simp: wait_inv_def sched_inv_def block_current_and_switch_def task_defs
      split: option.splits list.splits if_splits)

text \<open>Waking a list of tasks that are in no queue.\<close>

definition wakeable :: "task_ref list \<Rightarrow> sched \<Rightarrow> bool" where
  "wakeable ws s \<longleftrightarrow> distinct ws \<and>
     (\<forall>r\<in>set ws. r \<notin> set (rq_refs s) \<and> r < next_ref s \<and> \<not> t_waiting_for_child (tcb s r))"

lemma wake_task_frame [simp]:
  "rq_current (wake_task r s) = rq_current s" "rq_zombies (wake_task r s) = rq_zombies s"
  "rq_queue (wake_task r s) = rq_queue s @ [r]" "next_ref (wake_task r s) = next_ref s"
  "rq_init (wake_task r s) = rq_init s" "CURRENT_TASK (wake_task r s) = CURRENT_TASK s"
  "cpu (wake_task r s) = cpu s"
  "t_waiting_for_child (tcb (wake_task r s) x) = t_waiting_for_child (tcb s x)"
  "t_id (tcb (wake_task r s) x) = t_id (tcb s x)"
  "t_parent_id (tcb (wake_task r s) x) = t_parent_id (tcb s x)"
  "t_kstack (tcb (wake_task r s) x) = t_kstack (tcb s x)"
  "x \<noteq> r \<Longrightarrow> tcb (wake_task r s) x = tcb s x"
  by (simp_all add: task_defs)

lemma rq_refs_wake: "set (rq_refs (wake_task r s)) = insert r (set (rq_refs s))"
  by (auto simp: rq_refs_def cur_list_def)

lemma wakeable_Cons: "wakeable (w # ws) s \<Longrightarrow> wakeable ws (wake_task w s)"
  by (auto simp: wakeable_def rq_refs_wake)

lemma wait_inv_wake: "wait_inv s \<Longrightarrow> r \<notin> set (rq_refs s) \<Longrightarrow> \<not> t_waiting_for_child (tcb s r)
    \<Longrightarrow> wait_inv (wake_task r s)"
  by (auto simp: wait_inv_def rq_refs_def cur_list_def)

lemma full_inv_wake: "full_inv s \<Longrightarrow> wakeable [r] s \<Longrightarrow> full_inv (wake_task r s)"
  using sched_inv_enqueue[of s r] wait_inv_wake[of s r]
  by (simp add: full_inv_def wakeable_def wake_task_def)

lemma full_inv_wakes: "full_inv s \<Longrightarrow> wakeable ws s \<Longrightarrow> full_inv (fold wake_task ws s)"
proof (induction ws arbitrary: s)
  case (Cons w ws)
  then have "full_inv (wake_task w s)" using full_inv_wake by (simp add: wakeable_def)
  then show ?case using Cons wakeable_Cons by simp
qed simp

lemma fold_wake_frame [simp]:
  "rq_current (fold wake_task ws s) = rq_current s" "rq_zombies (fold wake_task ws s) = rq_zombies s"
  "rq_queue (fold wake_task ws s) = rq_queue s @ ws" "next_ref (fold wake_task ws s) = next_ref s"
  "t_parent_id (tcb (fold wake_task ws s) x) = t_parent_id (tcb s x)"
  "CURRENT_TASK (fold wake_task ws s) = CURRENT_TASK s"
  "x \<notin> set ws \<Longrightarrow> tcb (fold wake_task ws s) x = tcb s x"
  by (induction ws arbitrary: s) simp_all

lemma full_inv_exit_mark:
  assumes "full_inv s" "rq_current s = Some c"
  shows "full_inv (exit_mark st c (s\<lparr>rq_current := None\<rparr>))"
  using assms
  by (auto simp: full_inv_def sched_inv_def wait_inv_def rq_refs_def cur_list_def exit_mark_def
      set_state_def)

lemma task_exit_eq:
  fixes st :: "32 word"
  assumes inv: "full_inv s" and c: "rq_current s = Some c" and ws: "wakeable ws s"
  defines "m \<equiv> fold wake_task ws (exit_mark st c (s\<lparr>rq_current := None\<rparr>))"
  shows "task_exit ws st s = exit_switch (push_zombie c m)" "full_inv (push_zombie c m)"
proof -
  let ?k = "exit_mark st c (s\<lparr>rq_current := None\<rparr>)"
  have k: "full_inv ?k" "rq_current ?k = None" "t_state (tcb ?k c) = Zombie"
    using full_inv_exit_mark [OF inv c] by (simp_all add: exit_mark_def set_state_def)
  have "set (rq_refs s) = insert c (set (rq_refs ?k))" "next_ref ?k = next_ref s"
    "\<And>r. t_waiting_for_child (tcb ?k r) = t_waiting_for_child (tcb s r)"
    using c by (auto simp: rq_refs_def cur_list_def exit_mark_def set_state_def)
  then have w: "wakeable ws ?k" and cw: "c \<notin> set ws" using ws by (auto simp: wakeable_def)
  have m: "full_inv m" "rq_current m = None" unfolding m_def using full_inv_wakes [OF k(1) w] k(2) by simp_all
  then have "exit_notify_parent c m = m" using exit_notify_parent_dead by (simp add: full_inv_def)
  then show "task_exit ws st s = exit_switch (push_zombie c m)"
    using c by (simp add: task_exit_def take_current_def m_def)
  have "c \<notin> set (rq_refs m)" "c < next_ref m"
    using inv c cw
    by (auto simp: full_inv_def sched_inv_def m_def rq_refs_def cur_list_def exit_mark_def set_state_def)
  moreover have "t_state (tcb m c) = Zombie" using k cw by (simp add: m_def)
  ultimately show "full_inv (push_zombie c m)"
    using m by (auto simp: full_inv_def sched_inv_def wait_inv_def push_zombie_def rq_refs_def cur_list_def)
qed

lemma full_inv_exit_switch:
  assumes "full_inv s" "rq_current s = None" "exit_switch s = Switched s'"
  shows "full_inv s'"
proof (cases "rq_queue s")
  case Nil
  then show ?thesis using assms by (simp add: exit_switch_def pick_next_task_Nil)
next
  case (Cons r rs)
  then obtain s1 where p: "pick_next_task s = (Some r, s1)" using pick_next_task_Cons by blast
  then have "sched_inv s1" using assms sched_inv_pick by (auto simp: full_inv_def)
  moreover have "wait_inv s1"
    using assms p Cons by (auto simp: pick_next_task_Cons full_inv_def wait_inv_def split: if_splits)
  ultimately show ?thesis using assms(3) p
    by (auto simp only: exit_switch_def Let_def prod.case option.case exit_result.inject
        full_inv_def sched_inv_cpu sched_inv_hook wait_inv_cpu wait_inv_hook)
qed

lemma full_inv_exit:
  assumes "full_inv s" "rq_current s = Some c" "wakeable ws s" "task_exit ws st s = Switched s'"
  shows "full_inv s'"
  using full_inv_exit_switch task_exit_eq [OF assms(1-3), of st] assms(4)
  by (simp add: push_zombie_def exit_mark_def set_state_def)

lemma remove_first_Some:
  "remove_first P xs = Some (y, ys) \<Longrightarrow>
     \<exists>us vs. xs = us @ y # vs \<and> ys = us @ vs \<and> P y \<and> (\<forall>u\<in>set us. \<not> P u)"
proof (induction xs arbitrary: ys)
  case (Cons x xs)
  show ?case
  proof (cases "P x")
    case True
    then show ?thesis using Cons.prems by (intro exI [of _ "[]"] exI [of _ xs]) auto
  next
    case False
    then obtain zs where z: "remove_first P xs = Some (y, zs)" "ys = x # zs"
      using Cons.prems by auto
    then obtain us vs where "xs = us @ y # vs" "zs = us @ vs" "P y" "\<forall>u\<in>set us. \<not> P u"
      using Cons.IH by blast
    then show ?thesis using z False by (intro exI [of _ "x # us"] exI [of _ vs]) simp
  qed
qed simp

lemma remove_first_None: "remove_first P xs = None \<longleftrightarrow> (\<forall>x\<in>set xs. \<not> P x)"
  by (induction xs) auto

lemma full_inv_drop_zombie:
  assumes "full_inv s" "find_zombie_child i p s = (Some z, s')"
  shows "full_inv s' \<and> rq_current s' = rq_current s \<and> tcb s' = tcb s"
proof -
  obtain zs where r: "remove_first (\<lambda>z. zombie_match i p (tcb s z)) (rq_zombies s) = Some (z, zs)"
    and s': "s' = s\<lparr>rq_zombies := zs\<rparr>"
    using assms(2) by (auto simp: find_zombie_child_def split: option.splits)
  obtain us vs where "rq_zombies s = us @ z # vs" "zs = us @ vs" using remove_first_Some [OF r] by blast
  then show ?thesis using assms(1) s'
    by (auto simp: full_inv_def sched_inv_def wait_inv_def rq_refs_def cur_list_def)
qed

lemma full_inv_reaped:
  assumes "full_inv s" "task_wait pid h s = Reaped i st s'"
  shows "full_inv s'"
proof (cases "find_zombie_child (current_task_id s) pid s")
  case (Pair z s1)
  then obtain z' where z: "z = Some z'" and s': "s' = (case current_task_arc s1 of
      Some p \<Rightarrow> s1\<lparr>tcb := (tcb s1)(p := (tcb s1 p)
                    \<lparr>t_children := filter (\<lambda>j. j \<noteq> t_id (tcb s1 z')) (t_children (tcb s1 p))\<rparr>)\<rparr>
    | None \<Rightarrow> s1)"
    using assms(2) by (auto simp: task_wait_def wait_iter_def Let_def split: option.splits if_splits)
  have "full_inv s1" using full_inv_drop_zombie assms(1) Pair z by blast
  then show ?thesis unfolding s'
    by (auto simp: full_inv_def wait_inv_def sched_inv_tcb_upd split: option.splits)
qed

lemma full_inv_wait_block:
  assumes "full_inv s" "rq_current s = Some c" "task_wait pid h s = WaitBlocked s'"
  shows "full_inv s'"
proof -
  let ?t = "s\<lparr>tcb := (tcb s)(c := (tcb s c)\<lparr>t_waiting_for_child := True\<rparr>)\<rparr>"
  have s': "s' = block_current_and_switch ?t"
    using assms(2,3)
    by (auto simp: task_wait_def wait_iter_def find_zombie_child_def current_task_arc_def Let_def
        split: option.splits if_splits)
  have "c \<notin> set (rq_queue s)"
    using assms by (auto simp: full_inv_def sched_inv_def rq_refs_def cur_list_def)
  then have "wait_inv (?t\<lparr>rq_current := None\<rparr>)" using assms(1) by (auto simp: full_inv_def wait_inv_def)
  moreover have "sched_inv ?t" using assms(1) by (simp add: full_inv_def sched_inv_tcb_upd)
  ultimately show ?thesis unfolding s' using sched_inv_block wait_inv_block
    by (simp add: full_inv_def)
qed

lemma full_inv_spawn:
  assumes "full_inv s" "\<not> t_waiting_for_child t"
  shows "full_inv (enqueue_task (next_ref s) (snd (arc_new_task t s)))"
  using assms sched_inv_spawn [of s t]
  by (auto simp: full_inv_def wait_inv_def task_defs)

lemma full_inv_step:
  assumes "sched_step s s'" "full_inv s"
  shows "full_inv s'"
  using assms
proof (induction rule: sched_step.induct)
  case (run s c)
  then show ?case by (simp add: full_inv_def)
next
  case (tick s)
  then show ?case by (simp add: full_inv_def sched_inv_schedule wait_inv_schedule)
next
  case (spawn t s)
  then show ?case by (simp add: full_inv_spawn)
next
  case (block s)
  then have "wait_inv (s\<lparr>rq_current := None\<rparr>)" by (auto simp: full_inv_def wait_inv_def)
  then show ?case using block sched_inv_block wait_inv_block by (auto simp: full_inv_def)
next
  case (wake r s)
  then show ?case using full_inv_wake by (auto simp: wakeable_def)
next
  case (exit s c ws st s')
  then show ?case using full_inv_exit [of s c ws st s'] by (auto simp: wakeable_def)
next
  case (reap s c pid h i st s')
  then show ?case using full_inv_reaped by blast
next
  case (wait_block s c pid h s')
  then show ?case using full_inv_wait_block by blast
qed

lemma full_inv_reachable: "sched_reachable s \<Longrightarrow> full_inv s"
  by (induction rule: sched_reachable.induct) (auto intro: full_inv_boot full_inv_step)

section \<open>Preemption\<close>

definition run_list :: "sched \<Rightarrow> task_ref list" where
  "run_list s = cur_list s @ rq_queue s"

lemma task_schedule_switch:
  assumes "rq_init s" "rq_current s = Some c" "rq_queue s = r # rs" "t_kstack (tcb s c) \<noteq> 0" "r \<noteq> c"
  shows "rq_current (task_schedule s) = Some r" "rq_queue (task_schedule s) = rs @ [c]"
    "rq_init (task_schedule s)"
    "t_kstack (tcb (task_schedule s) x) = t_kstack (tcb s x)"
    "t_context (tcb (task_schedule s) c) = save_regs (cpu s) (t_context (tcb s c))"
    "x \<noteq> c \<Longrightarrow> t_context (tcb (task_schedule s) x) = t_context (tcb s x)"
    "cpu (task_schedule s) = load_regs (t_context (tcb s r)) (cpu s)"
  using assms by (auto simp: task_schedule_def task_defs)

lemma task_schedule_alone:
  assumes "rq_init s" "rq_current s = Some c" "rq_queue s = []" "t_kstack (tcb s c) \<noteq> 0"
  shows "rq_current (task_schedule s) = Some c" "rq_queue (task_schedule s) = []"
    "rq_init (task_schedule s)" "cpu (task_schedule s) = cpu s"
    "t_kstack (tcb (task_schedule s) x) = t_kstack (tcb s x)"
  using assms by (auto simp: task_schedule_def task_defs)

text \<open>A run queue on which preemption rotates.\<close>

definition preemptible :: "sched \<Rightarrow> bool" where
  "preemptible s \<longleftrightarrow> rq_init s \<and> rq_current s \<noteq> None \<and> distinct (run_list s)
     \<and> (\<forall>r\<in>set (run_list s). t_kstack (tcb s r) \<noteq> 0)"

lemma task_schedule_rotates:
  assumes "preemptible s"
  shows "preemptible (task_schedule s)" "run_list (task_schedule s) = rotate1 (run_list s)"
proof -
  obtain c where c: "rq_current s = Some c" using assms by (auto simp: preemptible_def)
  have "preemptible (task_schedule s) \<and> run_list (task_schedule s) = rotate1 (run_list s)"
  proof (cases "rq_queue s")
    case Nil
    then show ?thesis using assms c task_schedule_alone [of s c]
      by (auto simp: preemptible_def run_list_def cur_list_def)
  next
    case (Cons r rs)
    then show ?thesis using assms c task_schedule_switch [of s c r rs]
      by (auto simp: preemptible_def run_list_def cur_list_def)
  qed
  then show "preemptible (task_schedule s)" "run_list (task_schedule s) = rotate1 (run_list s)"
    by simp_all
qed

lemma task_schedule_rotate:
  assumes "preemptible s"
  shows "preemptible ((task_schedule ^^ n) s) \<and> run_list ((task_schedule ^^ n) s) = rotate n (run_list s)"
proof (induction n)
  case (Suc n)
  then show ?case using task_schedule_rotates [of "(task_schedule ^^ n) s"]
    by (simp add: rotate_def)
qed (simp add: assms)

text \<open>Time slices: each task in turn computes to some register contents and is preempted.\<close>

definition slices :: "cpu_regs list \<Rightarrow> sched \<Rightarrow> sched" where
  "slices rs s = fold (\<lambda>r s. task_schedule (s\<lparr>cpu := r\<rparr>)) rs s"

lemma preemptible_cpu [simp]: "preemptible (s\<lparr>cpu := r\<rparr>) = preemptible s"
  "run_list (s\<lparr>cpu := r\<rparr>) = run_list s"
  by (simp_all add: preemptible_def run_list_def cur_list_def)

text \<open>While the tasks ahead of \<open>c\<close> use their slices, the context of \<open>c\<close> does not change; when they
  have, \<open>c\<close> runs and the registers are those of its context.\<close>

lemma slices_reach:
  assumes "preemptible s" "run_list s = us @ c # vs" "length rs = length us" "us \<noteq> []"
  shows "rq_current (slices rs s) = Some c \<and>
         (\<exists>k. cpu (slices rs s) = load_regs (t_context (tcb s c)) k)"
  using assms
proof (induction us arbitrary: s vs rs)
  case (Cons u us)
  obtain r rs' where rs: "rs = r # rs'" "length rs' = length us" using Cons.prems(3) by (cases rs) auto
  let ?s = "s\<lparr>cpu := r\<rparr>" let ?t = "task_schedule ?s"
  have cur: "rq_current s = Some u" and q: "rq_queue s = us @ c # vs"
    using Cons.prems(1,2) by (auto simp: preemptible_def run_list_def cur_list_def)
  have uc: "u \<noteq> c" "u \<notin> set (us @ c # vs)" using Cons.prems(1,2) by (auto simp: preemptible_def)
  have t: "preemptible ?t" "run_list ?t = us @ c # (vs @ [u])"
    using task_schedule_rotates [of ?s] Cons.prems(1,2) by auto
  have k: "rq_init s" "t_kstack (tcb s u) \<noteq> 0"
    using Cons.prems(1,2) by (auto simp: preemptible_def)
  have ctx: "t_context (tcb ?t c) = t_context (tcb s c)"
    using task_schedule_switch(6) [of ?s u _ _ c] cur q k uc by (cases us) auto
  show ?case
  proof (cases "us = []")
    case True
    then show ?thesis using rs task_schedule_switch(1,7) [of ?s u c vs] cur q k uc
      by (auto simp: slices_def)
  next
    case False
    then show ?thesis using Cons.IH [OF t rs(2)] rs ctx by (simp add: slices_def)
  qed
qed simp

lemma load_save_regs: "r_cr3 c \<noteq> 0 \<Longrightarrow> load_regs (save_regs c x) k = c"
  by (simp add: load_regs_def save_regs_def)

section \<open>Properties\<close>

text \<open>C2: In every state reachable from boot by computing, timer ticks, spawning, blocking, waking,
  exiting and reaping, no task is in two places of the scheduler, queued tasks are Ready, zombies
  are Zombie, and the current task is the one \<open>CURRENT_TASK\<close> names.\<close>

theorem scheduler_invariant:
  assumes "sched_reachable s"
  shows "distinct (cur_list s @ rq_queue s @ rq_zombies s)
    \<and> (\<forall>r\<in>set (rq_queue s). t_state (tcb s r) = Ready)
    \<and> (\<forall>z\<in>set (rq_zombies s). t_state (tcb s z) = Zombie)
    \<and> (\<forall>c. rq_current s = Some c \<longrightarrow> t_state (tcb s c) \<in> {Running, Blocked}
           \<and> (t_kstack (tcb s c) \<noteq> 0 \<longrightarrow> CURRENT_TASK s = t_id (tcb s c)))"
  using full_inv_reachable [OF assms] by (auto simp: full_inv_def sched_inv_def rq_refs_def)

definition regs0 :: cpu_regs where
  "regs0 = \<lparr>r_rsp = 0, r_rbp = 0, r_rbx = 0, r_r12 = 0, r_r13 = 0, r_r14 = 0, r_r15 = 0,
            r_rip = 0x1000, r_cr3 = 0x2000\<rparr>"

text \<open>Two tasks are created after boot; then a tick.\<close>

definition demo_task :: "u64 \<Rightarrow> TaskCB" where
  "demo_task i = (fst (TaskCB_new ''t'' (0x4000 * i) (0x9000 * i) SchedClass_default (boot_sched regs0)))
                 \<lparr>t_id := i + 1, t_parent_id := 2\<rparr>"

definition demo_sched :: "nat \<Rightarrow> sched" where
  "demo_sched n =
     (task_schedule ^^ n)
       (enqueue_task 2 (snd (arc_new_task ((demo_task 2)\<lparr>t_parent_id := 2\<rparr>)
         (enqueue_task 1 (snd (arc_new_task ((demo_task 1)\<lparr>t_children := [3]\<rparr>) (boot_sched regs0)))))))"

lemmas demo_simps = demo_sched_def demo_task_def regs0_def TaskCB_new_def boot_sched_def
  TaskCB_running_task_def scheduler_init_def sched_statics_def task_defs CPUContext_default_def

lemma demo_sched_0: "sched_reachable (demo_sched 0)"
proof -
  let ?t = "(demo_task 1)\<lparr>t_children := [3]\<rparr>"
  have n: "next_ref (boot_sched regs0) = 1"
    "next_ref (enqueue_task 1 (snd (arc_new_task ?t (boot_sched regs0)))) = 2"
    by (simp_all add: demo_simps)
  have w: "\<not> t_waiting_for_child (demo_task i)" for i by (simp add: demo_simps)
  have "sched_step (boot_sched regs0) (enqueue_task 1 (snd (arc_new_task ?t (boot_sched regs0))))"
    using spawn [of ?t "boot_sched regs0"] w n(1) by simp
  then have "sched_reachable (enqueue_task 1 (snd (arc_new_task ?t (boot_sched regs0))))"
    using sched_reachable.boot sched_reachable.step by blast
  then show ?thesis
    using sched_reachable.step spawn [of "(demo_task 2)\<lparr>t_parent_id := 2\<rparr>"] w n(2)
    by (fastforce simp: demo_sched_def)
qed

lemma demo_sched_cur: "rq_current (demo_sched 0) = Some 0" "t_state (tcb (demo_sched 0) 0) = Running"
  by (simp_all add: demo_simps)

lemma demo_sched_1: "sched_reachable (demo_sched 1)"
proof -
  have "demo_sched 1 = task_schedule (demo_sched 0)" by (simp add: demo_sched_def)
  then show ?thesis
    using sched_reachable.step [OF demo_sched_0] tick [of "demo_sched 0"] demo_sched_cur by auto
qed

theorem scheduler_invariant_witness:
  "sched_reachable (demo_sched 1)
   \<and> distinct (cur_list (demo_sched 1) @ rq_queue (demo_sched 1) @ rq_zombies (demo_sched 1))"
  using scheduler_invariant [OF demo_sched_1] demo_sched_1 by blast

text \<open>C30: Preemption is round robin: \<open>n\<close> timer ticks rotate the list of the current task and the
  queue by \<open>n\<close>, so every task runs within one round and in creation order.\<close>

theorem schedule_round_robin:
  assumes "preemptible s"
  shows "run_list ((task_schedule ^^ n) s) = rotate n (run_list s)
    \<and> rq_current ((task_schedule ^^ n) s) = Some (run_list s ! (n mod length (run_list s)))"
proof -
  let ?t = "(task_schedule ^^ n) s" and ?l = "run_list s"
  have r: "preemptible ?t" "run_list ?t = rotate n ?l" using task_schedule_rotate [OF assms] by auto
  have "?l \<noteq> []" using assms by (auto simp: preemptible_def run_list_def cur_list_def)
  then have "hd (rotate n ?l) = ?l ! (n mod length ?l)" by (rule hd_rotate_conv_nth)
  moreover have "rq_current ?t = Some (hd (run_list ?t))"
    using r(1) by (auto simp: preemptible_def run_list_def cur_list_def)
  ultimately show ?thesis using r(2) by simp
qed

lemma demo_preemptible: "preemptible (demo_sched 1)" "run_list (demo_sched 1) = [1, 2]"
  by (simp_all add: preemptible_def run_list_def task_schedule_def demo_simps)

theorem schedule_round_robin_witness:
  "preemptible (demo_sched 1) \<and> rq_current ((task_schedule ^^ 5) (demo_sched 1)) = Some 2"
  using schedule_round_robin [OF demo_preemptible(1), of 5] demo_preemptible
  by (simp add: numeral_2_eq_2 [symmetric])

text \<open>C1: Preemption is transparent: if the current task is preempted and every other task of the
  queue then computes whatever it likes for one slice, the task is current again with the registers,
  the instruction pointer and the page table it had.\<close>

theorem preemption_transparent:
  assumes "preemptible s" "rq_current s = Some c" "r_cr3 (cpu s) \<noteq> 0"
    "length others = length (rq_queue s)"
  shows "rq_current (slices others (task_schedule s)) = Some c
    \<and> cpu (slices others (task_schedule s)) = cpu s"
proof (cases "rq_queue s")
  case Nil
  then show ?thesis using assms task_schedule_alone [of s c]
    by (simp add: slices_def preemptible_def run_list_def cur_list_def)
next
  case (Cons r rs)
  let ?t = "task_schedule s"
  have t: "preemptible ?t" "run_list ?t = rq_queue s @ c # []"
    using task_schedule_rotates [OF assms(1)] assms(2) by (simp_all add: run_list_def cur_list_def)
  have "t_context (tcb ?t c) = save_regs (cpu s) (t_context (tcb s c))"
    using assms(1,2) Cons task_schedule_switch(5) [of s c r rs]
    by (auto simp: preemptible_def run_list_def cur_list_def)
  then show ?thesis
    using slices_reach [OF t, of others] assms(3,4) Cons load_save_regs by auto
qed

theorem preemption_transparent_witness:
  "rq_current (slices [regs0] (task_schedule (demo_sched 1))) = Some 1
   \<and> cpu (slices [regs0] (task_schedule (demo_sched 1))) = cpu (demo_sched 1)"
  by (rule preemption_transparent [OF demo_preemptible(1)])
    (simp_all add: task_schedule_def demo_simps load_regs_def save_regs_def)

text \<open>The state \<open>SYS_EXIT\<close> leaves when it switches away.\<close>

lemma task_exit_Switched:
  assumes "full_inv s" "rq_current s = Some c" "wakeable ws s" "task_exit ws st s = Switched s'"
  shows "rq_zombies s' = rq_zombies s @ [c]" "Some (hd (rq_queue s @ ws)) = rq_current s'"
    "rq_queue s' = tl (rq_queue s @ ws)" "t_exit_status (tcb s' c) = Some st"
    "t_id (tcb s' x) = t_id (tcb s x)" "t_parent_id (tcb s' x) = t_parent_id (tcb s x)"
    "t_children (tcb s' x) = t_children (tcb s x)"
    "rq_current s' = Some p \<Longrightarrow> CURRENT_TASK s' = t_id (tcb s p)"
proof -
  let ?m = "push_zombie c (fold wake_task ws (exit_mark st c (s\<lparr>rq_current := None\<rparr>)))"
  have e: "exit_switch ?m = Switched s'" using task_exit_eq(1) [OF assms(1-3)] assms(4) by metis
  have cw: "c \<notin> set ws" using assms(2,3) by (auto simp: wakeable_def rq_refs_def cur_list_def)
  have fr: "t_id (tcb (fold wake_task ws u) y) = t_id (tcb u y)"
    "t_children (tcb (fold wake_task ws u) y) = t_children (tcb u y)" for u y
    by (induction ws arbitrary: u) (simp_all add: task_defs)
  have q: "rq_queue ?m = rq_queue s @ ws" "rq_zombies ?m = rq_zombies s @ [c]"
    "t_exit_status (tcb ?m c) = Some st" "t_id (tcb ?m y) = t_id (tcb s y)"
    "t_parent_id (tcb ?m y) = t_parent_id (tcb s y)" "t_children (tcb ?m y) = t_children (tcb s y)" for y
    using cw fr by (simp_all add: push_zombie_def exit_mark_def set_state_def)
  obtain r rs where r: "rq_queue ?m = r # rs"
    using e by (cases "rq_queue ?m") (auto simp: exit_switch_def pick_next_task_Nil)
  note p = pick_next_task_Cons [OF r]
  show "rq_zombies s' = rq_zombies s @ [c]" "Some (hd (rq_queue s @ ws)) = rq_current s'"
    "rq_queue s' = tl (rq_queue s @ ws)" "t_exit_status (tcb s' c) = Some st"
    "t_id (tcb s' x) = t_id (tcb s x)" "t_parent_id (tcb s' x) = t_parent_id (tcb s x)"
    "t_children (tcb s' x) = t_children (tcb s x)"
    "rq_current s' = Some p \<Longrightarrow> CURRENT_TASK s' = t_id (tcb s p)"
    using e p q q(1) [symmetric] r by (auto simp: exit_switch_def run_switch_hook_def Let_def)
qed

text \<open>C33: In no reachable state does \<open>SYS_EXIT\<close> put any task but the readers of its dropped pipe ends
  on the run queue: a parent blocked in \<open>SYS_WAIT\<close> is neither current nor queued, so
  \<open>find_task_by_id\<close> never finds it and the exit of its child leaves it blocked.\<close>

theorem exit_wakes_no_parent:
  assumes "sched_reachable s" "rq_current s = Some c" "wakeable ws s"
    "r \<notin> set ws" "r \<notin> set (rq_refs s)"
  shows "r \<notin> set (rq_queue (exit_sched (task_exit ws st s)))
    \<and> rq_current (exit_sched (task_exit ws st s)) \<noteq> Some r"
proof (cases "rq_queue s @ ws")
  case Nil
  then show ?thesis
    using assms(2) task_exit_eq(1) [OF full_inv_reachable [OF assms(1)] assms(2,3), of st]
    by (simp add: exit_switch_def pick_next_task_Nil push_zombie_def exit_mark_def set_state_def)
next
  case (Cons a as)
  obtain s' where s': "task_exit ws st s = Switched s'"
    using Cons task_exit_eq(1) [OF full_inv_reachable [OF assms(1)] assms(2,3), of st]
      pick_next_task_Cons [of "push_zombie c (fold wake_task ws (exit_mark st c (s\<lparr>rq_current := None\<rparr>)))"]
    by (simp add: exit_switch_def push_zombie_def exit_mark_def set_state_def Let_def)
  note t = task_exit_Switched [OF full_inv_reachable [OF assms(1)] assms(2,3) s']
  have "r \<notin> set (rq_queue s @ ws)" using assms(4,5) by (simp add: rq_refs_def)
  then show ?thesis using Cons t(2,3) s' by auto
qed

text \<open>The parent, task 2, waits for its child, task 3, which then exits: nothing is left to run.\<close>

definition demo_waiting :: sched where
  "demo_waiting = (case task_wait 3 False (demo_sched 1) of WaitBlocked s \<Rightarrow> s)"

lemma demo_waiting_step: "task_wait 3 False (demo_sched 1) = WaitBlocked demo_waiting"
  by (simp add: demo_waiting_def task_wait_def wait_has_child_def wait_iter_def find_zombie_child_def
      task_schedule_def demo_simps block_current_and_switch_def word_sless_alt)

lemma demo_sched_1_cur: "rq_current (demo_sched 1) = Some 1" "t_state (tcb (demo_sched 1) 1) = Running"
  by (simp_all add: demo_simps task_schedule_def)

lemma demo_waiting_reachable: "sched_reachable demo_waiting"
  using sched_reachable.step [OF demo_sched_1 wait_block [OF demo_sched_1_cur demo_waiting_step]] .

lemma demo_waiting_cur: "rq_current demo_waiting = Some 2" "rq_refs demo_waiting = [2]"
  by (simp_all add: demo_waiting_def task_wait_def wait_has_child_def wait_iter_def find_zombie_child_def
      task_schedule_def demo_simps block_current_and_switch_def word_sless_alt)

theorem exit_wakes_no_parent_witness:
  "sched_reachable demo_waiting \<and> rq_current demo_waiting = Some 2
   \<and> 1 \<notin> set (rq_queue (exit_sched (task_exit [] 7 demo_waiting)))"
  using exit_wakes_no_parent [OF demo_waiting_reachable demo_waiting_cur(1), of "[]" 1 7]
    demo_waiting_cur demo_waiting_reachable by (simp add: wakeable_def)


lemma demo_sched_2_eq: "demo_sched 2 = task_schedule (demo_sched 1)"
  by (simp add: demo_sched_def numeral_2_eq_2)

lemma demo_sched_2: "sched_reachable (demo_sched 2)"
  unfolding demo_sched_2_eq
  using sched_reachable.step [OF demo_sched_1] tick [of "demo_sched 1"] demo_sched_1_cur by auto

lemmas demo_exit_simps = demo_simps task_schedule_def task_exit_def exit_switch_def
  exit_notify_parent_def


end
