(* ===== verification/Wait_List.thy ===== *)
theory Wait_List
  imports Proc
begin

text \<open>
  Lists of blocked tasks, as a pipe keeps its readers and a port its receivers:
  a task that queues itself and then blocks is in no place of the scheduler, and
  stays so until the owner of the list wakes it. The locale \<open>blocking_resource\<close>
  collects what the two kernel resources promise about their list.
\<close>

lemma rq_refs_schedule: "set (rq_refs (task_schedule s)) \<subseteq> set (rq_refs s)"
  by (auto simp: task_schedule_def task_defs split: option.splits list.splits)

lemma task_schedule_frame [simp]:
  "next_ref (task_schedule s) = next_ref s"
  "t_waiting_for_child (tcb (task_schedule s) r) = t_waiting_for_child (tcb s r)"
  by (auto simp: task_schedule_def task_defs split: option.splits list.splits)

lemma wakeable_schedule: "wakeable ws s \<Longrightarrow> wakeable ws (task_schedule s)"
  using rq_refs_schedule [of s] by (auto simp: wakeable_def)

lemma wakeable_cpu [simp]: "wakeable ws (s\<lparr>cpu := c\<rparr>) = wakeable ws s"
  by (simp add: wakeable_def rq_refs_def cur_list_def)

lemma wakeable_spawn:
  assumes "wakeable ws s"
  shows "wakeable ws (enqueue_task (next_ref s) (snd (arc_new_task t s)))"
  using assms by (auto simp: wakeable_def task_defs)

lemma wakeable_wakes: "wakeable (ws @ vs) s \<Longrightarrow> wakeable vs (fold wake_task ws s)"
  by (induction ws arbitrary: s) (auto dest: wakeable_Cons)

lemma wakeable_append: "wakeable (ws @ vs) s \<Longrightarrow> wakeable ws s"
  by (auto simp: wakeable_def)

text \<open>Blocking with another task to run: the task leaves the scheduler and joins the list.\<close>

lemma block_refs:
  assumes "rq_current s = Some c" "rq_queue s \<noteq> []"
  shows "rq_refs (block_current_and_switch s) = rq_queue s @ rq_zombies s"
    "next_ref (block_current_and_switch s) = next_ref s"
    "t_waiting_for_child (tcb (block_current_and_switch s) r) = t_waiting_for_child (tcb s r)"
  using assms by (auto simp: block_current_and_switch_def task_defs neq_Nil_conv split: if_splits)

lemma wakeable_block:
  assumes "full_inv s" "rq_current s = Some c" "t_state (tcb s c) = Running" "rq_queue s \<noteq> []"
    "wakeable ws s"
  shows "wakeable (ws @ [c]) (block_current_and_switch s)"
proof -
  have "c \<notin> set (rq_queue s @ rq_zombies s)" "c < next_ref s" "\<not> t_waiting_for_child (tcb s c)"
    using assms(1-3) by (auto simp: full_inv_def sched_inv_def wait_inv_def rq_refs_def cur_list_def)
  moreover have "c \<notin> set ws" using assms(2,5) by (auto simp: wakeable_def rq_refs_def cur_list_def)
  ultimately show ?thesis
    using assms(5) block_refs [OF assms(2,4)] by (auto simp: wakeable_def rq_refs_def)
qed

lemma full_inv_block: "full_inv s \<Longrightarrow> full_inv (block_current_and_switch s)"
  by (rule full_inv_step [OF block])

lemma full_inv_tick:
  "full_inv s \<Longrightarrow> (\<forall>c. rq_current s = Some c \<longrightarrow> t_state (tcb s c) = Running) \<Longrightarrow> full_inv (task_schedule s)"
  by (rule full_inv_step [OF tick])

text \<open>Which tasks stay runnable.\<close>

lemma run_list_schedule:
  assumes "r \<in> set (run_list s)" "t_kstack (tcb s r) \<noteq> 0"
  shows "r \<in> set (run_list (task_schedule s))"
  using assms by (auto simp: run_list_def task_schedule_def task_defs split: option.splits list.splits)

lemma run_list_block:
  assumes "rq_current s = Some c" "rq_queue s \<noteq> []"
  shows "run_list (block_current_and_switch s) = rq_queue s"
  using assms by (auto simp: run_list_def block_current_and_switch_def task_defs neq_Nil_conv)

lemma run_list_wakes [simp]: "run_list (fold wake_task ws s) = run_list s @ ws"
  by (simp add: run_list_def cur_list_def)

lemma run_list_cpu [simp]: "run_list (s\<lparr>cpu := c\<rparr>) = run_list s"
  by (simp add: run_list_def cur_list_def)

lemma kstack_frame [simp]:
  "t_kstack (tcb (task_schedule s) r) = t_kstack (tcb s r)"
  "t_kstack (tcb (block_current_and_switch s) r) = t_kstack (tcb s r)"
  "t_kstack (tcb (fold wake_task ws s) r) = t_kstack (tcb s r)"
  subgoal by (auto simp: task_schedule_def task_defs split: option.splits list.splits if_splits)
  subgoal by (auto simp: block_current_and_switch_def task_defs split: option.splits list.splits if_splits)
  subgoal by (induction ws arbitrary: s) simp_all
  done

lemma run_list_spawn [simp]:
  "run_list (enqueue_task (next_ref s) (snd (arc_new_task t s))) = run_list s @ [next_ref s]"
  by (simp add: run_list_def task_defs)

lemma kstack_spawn:
  "w \<noteq> next_ref s \<Longrightarrow>
     t_kstack (tcb (enqueue_task (next_ref s) (snd (arc_new_task t s))) w) = t_kstack (tcb s w)"
  by (simp add: task_defs)

section \<open>Resources with a wait list\<close>

text \<open>\<open>acquire\<close> is one pass of the blocking loop (\<open>None\<close> when it blocked), \<open>release\<close> any operation
  that can wake waiters. The laws: the list only loses a prefix, which is woken in order, or gains
  the current task, which is then blocked.\<close>

locale blocking_resource =
  fixes waiting :: "'r \<Rightarrow> task_ref list"
    and acquire :: "'r \<Rightarrow> sched \<Rightarrow> 'v option \<times> 'r \<times> sched"
    and release :: "'op \<Rightarrow> 'r \<Rightarrow> 'r \<times> task_ref list"
  assumes acquire_done: "acquire r s = (Some v, r', s') \<Longrightarrow> waiting r' = waiting r \<and> s' = s"
    and acquire_block: "acquire r s = (None, r', s') \<Longrightarrow> rq_current s = Some c \<Longrightarrow>
          waiting r' = waiting r @ [c] \<and> s' = block_current_and_switch s"
    and release_wakes: "release x r = (r', ws) \<Longrightarrow> waiting r = ws @ waiting r'"
begin

lemma acquire_keeps:
  assumes "full_inv s" "wakeable (waiting r) s" "rq_current s = Some c"
    "t_state (tcb s c) = Running" "rq_queue s \<noteq> []" "acquire r s = (v, r', s')"
  shows "full_inv s' \<and> wakeable (waiting r') s'"
proof (cases v)
  case None
  then show ?thesis
    using assms acquire_block full_inv_block wakeable_block by metis
next
  case (Some x)
  then show ?thesis using assms acquire_done by metis
qed

lemma release_keeps:
  assumes "full_inv s" "wakeable (waiting r) s" "release x r = (r', ws)"
  shows "full_inv (fold wake_task ws s) \<and> wakeable (waiting r') (fold wake_task ws s)"
  using assms release_wakes [OF assms(3)] full_inv_wakes wakeable_wakes wakeable_append by metis

text \<open>A blocked task is never runnable: it is in no queue.\<close>

lemma waiter_not_scheduled:
  "wakeable (waiting r) s \<Longrightarrow> w \<in> set (waiting r) \<Longrightarrow> w \<notin> set (rq_refs s)"
  by (simp add: wakeable_def)

end

end
