(* ===== verification/Ring.thy ===== *)
theory Ring
  imports Prelude
begin

text \<open>
  Contents of a circular buffer: \<open>cnt\<close> elements from position \<open>start\<close>, indices
  taken modulo the buffer's length. Shared by the keyboard buffer and the pipe
  buffer, which keep the same layout with different bookkeeping.
\<close>

definition ring_content :: "'a list \<Rightarrow> nat \<Rightarrow> nat \<Rightarrow> 'a list" where
  "ring_content buf start cnt = map (\<lambda>i. buf ! ((start + i) mod length buf)) [0..<cnt]"

lemma length_ring_content [simp]: "length (ring_content buf start cnt) = cnt"
  by (simp add: ring_content_def)

lemma ring_content_0 [simp]: "ring_content buf start 0 = []"
  by (simp add: ring_content_def)

lemma nth_ring_content [simp]:
  "i < cnt \<Longrightarrow> ring_content buf start cnt ! i = buf ! ((start + i) mod length buf)"
  by (simp add: ring_content_def)

lemma ring_content_Suc:
  "ring_content buf start (Suc cnt) =
     ring_content buf start cnt @ [buf ! ((start + cnt) mod length buf)]"
  by (simp add: ring_content_def)

lemma ring_index_inj_le:
  fixes n :: nat
  assumes "i \<le> j" "j < n" "(s + i) mod n = (s + j) mod n"
  shows "i = j"
proof -
  have "n dvd (s + j) - (s + i)"
    using assms by (metis add_le_mono1 add.commute mod_eq_dvd_iff_nat)
  then have "n dvd j - i" by simp
  then show ?thesis using assms by (auto dest: dvd_imp_le)
qed

lemma ring_index_inj:
  fixes n :: nat
  assumes "i < n" "j < n" "(s + i) mod n = (s + j) mod n"
  shows "i = j"
  using assms ring_index_inj_le [of i j n s] ring_index_inj_le [of j i n s]
  by (cases "i \<le> j") auto

text \<open>Storing at the write position appends one element.\<close>

lemma ring_content_push:
  assumes "cnt < length buf"
  shows "ring_content (buf[(start + cnt) mod length buf := v]) start (Suc cnt) =
           ring_content buf start cnt @ [v]"
proof (rule nth_equalityI)
  fix i
  assume "i < length (ring_content (buf[(start + cnt) mod length buf := v]) start (Suc cnt))"
  then have i: "i < Suc cnt" by simp
  have ne: "(start + i) mod length buf \<noteq> (start + cnt) mod length buf" if "i < cnt"
    using ring_index_inj [of i "length buf" cnt start] that assms by auto
  have "(start + i) mod length buf < length buf"
    using assms by (intro mod_less_divisor) linarith
  with i ne show "ring_content (buf[(start + cnt) mod length buf := v]) start (Suc cnt) ! i =
      (ring_content buf start cnt @ [v]) ! i"
    by (cases "i = cnt") (auto simp: nth_append)
qed simp

text \<open>Advancing the read position by \<open>n\<close> drops \<open>n\<close> elements.\<close>

lemma ring_content_drop:
  assumes "n \<le> cnt"
  shows "ring_content buf ((start + n) mod length buf) (cnt - n) = drop n (ring_content buf start cnt)"
  using assms by (intro nth_equalityI) (simp_all add: mod_add_left_eq add.assoc)

lemma ring_content_take:
  "n \<le> cnt \<Longrightarrow> take n (ring_content buf start cnt) = ring_content buf start n"
  by (intro nth_equalityI) simp_all

end
