(* ===== verification/Pipe.thy ===== *)
theory Pipe
  imports Wait_List Ring
begin

text \<open>
  kernel/src/pipe.rs: a 4096-byte ring shared by a read end and a write end, and
  the list of blocked readers. The invariant, the byte stream, end of file, and the
  absence of a reader that sleeps on a pipe with data.
\<close>

abbreviation PIPE_BUFSZ :: nat where
  "PIPE_BUFSZ \<equiv> 4096"

record PipeInner =
  p_buf :: bytes
  p_read_pos :: nat
  p_count :: nat
  p_write_closed :: bool
  p_read_closed :: bool
  p_waiters :: "task_ref list"

definition pipe_new :: PipeInner where
  "pipe_new = \<lparr>p_buf = replicate PIPE_BUFSZ 0, p_read_pos = 0, p_count = 0,
               p_write_closed = False, p_read_closed = False, p_waiters = []\<rparr>"

definition write_pos :: "PipeInner \<Rightarrow> nat" where
  "write_pos p = (p_read_pos p + p_count p) mod PIPE_BUFSZ"

definition pipe_space :: "PipeInner \<Rightarrow> nat" where
  "pipe_space p = PIPE_BUFSZ - p_count p"

definition pipe_push :: "bytes \<Rightarrow> PipeInner \<Rightarrow> nat \<times> PipeInner" where
  "pipe_push src p =
     (let n = min (length src) (pipe_space p);
          buf = fold (\<lambda>(i, b) buf. buf[(write_pos p + i) mod PIPE_BUFSZ := b])
                  (enumerate 0 (take n src)) (p_buf p)
      in (n, p\<lparr>p_buf := buf, p_count := p_count p + n\<rparr>))"

text \<open>The bytes stored in the first \<open>n\<close> places of a destination of \<open>len\<close> bytes.\<close>

definition pipe_pop :: "nat \<Rightarrow> PipeInner \<Rightarrow> bytes \<times> PipeInner" where
  "pipe_pop len p =
     (let n = min len (p_count p);
          dst = map (\<lambda>i. p_buf p ! ((p_read_pos p + i) mod PIPE_BUFSZ)) [0..<n]
      in (dst, p\<lparr>p_read_pos := (p_read_pos p + n) mod PIPE_BUFSZ, p_count := p_count p - n\<rparr>))"

text \<open>One pass of the loop in \<open>PipeReadEnd::read\<close>: \<open>None\<close> when the task blocked.\<close>

definition pipe_read :: "nat \<Rightarrow> PipeInner \<Rightarrow> sched \<Rightarrow> bytes option \<times> PipeInner \<times> sched" where
  "pipe_read len p s =
     (if 0 < p_count p then (let (bs, p') = pipe_pop len p in (Some bs, p', s))
      else if p_write_closed p then (Some [], p, s)
      else let p' = (case current_task_arc s of
                       Some a \<Rightarrow> p\<lparr>p_waiters := p_waiters p @ [a]\<rparr> | None \<Rightarrow> p)
           in (None, p', block_current_and_switch s))"

text \<open>\<open>PipeWriteEnd::write\<close>: the value returned, the pipe, and the readers to wake.\<close>

definition pipe_write :: "bytes \<Rightarrow> PipeInner \<Rightarrow> u64 \<times> PipeInner \<times> task_ref list" where
  "pipe_write src p =
     (if p_read_closed p then (U64_MAX, p, [])
      else let (n, p1) = pipe_push src p
           in (of_nat n, p1\<lparr>p_waiters := []\<rparr>, p_waiters p1))"

definition pipe_read_drop :: "PipeInner \<Rightarrow> PipeInner" where
  "pipe_read_drop p = p\<lparr>p_read_closed := True\<rparr>"

definition pipe_write_drop :: "PipeInner \<Rightarrow> PipeInner \<times> task_ref list" where
  "pipe_write_drop p = (p\<lparr>p_write_closed := True, p_waiters := []\<rparr>, p_waiters p)"

definition pipe_size :: "PipeInner \<Rightarrow> nat" where
  "pipe_size p = p_count p"

section \<open>Contents\<close>

definition pipe_content :: "PipeInner \<Rightarrow> bytes" where
  "pipe_content p = ring_content (p_buf p) (p_read_pos p) (p_count p)"

definition pipe_inv :: "PipeInner \<Rightarrow> bool" where
  "pipe_inv p \<longleftrightarrow> length (p_buf p) = PIPE_BUFSZ \<and> p_read_pos p < PIPE_BUFSZ \<and> p_count p \<le> PIPE_BUFSZ
     \<and> (p_waiters p \<noteq> [] \<longrightarrow> p_count p = 0 \<and> \<not> p_write_closed p)"

lemma pipe_new_inv [simp]: "pipe_inv pipe_new" "pipe_content pipe_new = []"
  by (simp_all add: pipe_inv_def pipe_new_def pipe_content_def)

lemma length_pipe_content [simp]: "length (pipe_content p) = p_count p"
  by (simp add: pipe_content_def)

lemma push_loop:
  assumes "length buf = n" "cnt + length xs \<le> n"
  shows "length (fold (\<lambda>(i, b) buf. buf[((rp + cnt) mod n + i) mod n := b]) (enumerate 0 xs) buf) = n
    \<and> ring_content (fold (\<lambda>(i, b) buf. buf[((rp + cnt) mod n + i) mod n := b]) (enumerate 0 xs) buf)
        rp (cnt + length xs) = ring_content buf rp cnt @ xs"
  using assms(2)
proof (induction xs rule: rev_induct)
  case (snoc x xs)
  let ?b = "fold (\<lambda>(i, b) buf. buf[((rp + cnt) mod n + i) mod n := b]) (enumerate 0 xs) buf"
  have IH: "length ?b = n" "ring_content ?b rp (cnt + length xs) = ring_content buf rp cnt @ xs"
    using snoc by auto
  have "((rp + cnt) mod n + length xs) mod n = (rp + (cnt + length xs)) mod n"
    by (simp add: mod_add_left_eq add.assoc)
  then show ?case
    using IH ring_content_push [of "cnt + length xs" ?b rp x] snoc.prems
    by (simp add: enumerate_append_eq)
qed (simp add: assms(1))

lemma pipe_push_spec:
  assumes "pipe_inv p" "pipe_push src p = (n, p')"
  shows "n = min (length src) (PIPE_BUFSZ - length (pipe_content p))"
    "pipe_content p' = pipe_content p @ take n src"
    "length (p_buf p') = PIPE_BUFSZ" "p_read_pos p' = p_read_pos p" "p_count p' = p_count p + n"
    "p_waiters p' = p_waiters p" "p_write_closed p' = p_write_closed p"
    "p_read_closed p' = p_read_closed p"
proof -
  have len: "length (p_buf p) = PIPE_BUFSZ" "p_count p \<le> PIPE_BUFSZ" using assms(1) by (simp_all add: pipe_inv_def)
  have n: "n = min (length src) (pipe_space p)" using assms(2) by (simp add: pipe_push_def Let_def)
  then have "p_count p + length (take n src) \<le> PIPE_BUFSZ" using len by (simp add: pipe_space_def)
  note l = push_loop [OF len(1) this, of "p_read_pos p"]
  have lt: "length (take n src) = n" using n by simp
  show "pipe_content p' = pipe_content p @ take n src" "length (p_buf p') = PIPE_BUFSZ"
    using l lt assms(2) n by (auto simp: pipe_push_def Let_def pipe_content_def write_pos_def)
  show "n = min (length src) (PIPE_BUFSZ - length (pipe_content p))" "p_read_pos p' = p_read_pos p"
    "p_count p' = p_count p + n" "p_waiters p' = p_waiters p" "p_write_closed p' = p_write_closed p"
    "p_read_closed p' = p_read_closed p"
    using assms(2) n by (auto simp: pipe_push_def Let_def pipe_space_def)
qed

lemma pipe_pop_spec:
  assumes "pipe_inv p" "pipe_pop len p = (bs, p')"
  shows "bs = take len (pipe_content p)" "pipe_content p' = drop len (pipe_content p)"
    "pipe_inv p'" "p_waiters p' = p_waiters p"
proof -
  let ?n = "min len (p_count p)"
  have b: "length (p_buf p) = PIPE_BUFSZ" using assms(1) by (simp add: pipe_inv_def)
  have "bs = ring_content (p_buf p) (p_read_pos p) ?n"
    using assms(2) b by (auto simp: pipe_pop_def Let_def ring_content_def)
  then show "bs = take len (pipe_content p)"
    using ring_content_take [of ?n "p_count p" "p_buf p" "p_read_pos p"]
    by (simp add: pipe_content_def min_def split: if_splits)
  show "pipe_content p' = drop len (pipe_content p)"
    using assms(2) b ring_content_drop [of ?n "p_count p" "p_buf p" "p_read_pos p"]
    by (auto simp: pipe_pop_def Let_def pipe_content_def min_def split: if_splits)
  show "pipe_inv p'" "p_waiters p' = p_waiters p"
    using assms by (auto simp: pipe_pop_def Let_def pipe_inv_def)
qed

section \<open>Pipe and scheduler\<close>

datatype pipe_op = WriteBytes bytes | DropWriteEnd | DropReadEnd

fun pipe_release :: "pipe_op \<Rightarrow> PipeInner \<Rightarrow> PipeInner \<times> task_ref list" where
  "pipe_release (WriteBytes src) p = snd (pipe_write src p)"
| "pipe_release DropWriteEnd p = pipe_write_drop p"
| "pipe_release DropReadEnd p = (pipe_read_drop p, [])"

interpretation pipe_wait: blocking_resource p_waiters "pipe_read len" pipe_release for len
proof
  fix r s r' s' c x ws and v :: bytes
  show "p_waiters r' = p_waiters r \<and> s' = s" if "pipe_read len r s = (Some v, r', s')"
    using that by (auto simp: pipe_read_def pipe_pop_def Let_def split: if_splits)
  show "p_waiters r' = p_waiters r @ [c] \<and> s' = block_current_and_switch s"
    if "pipe_read len r s = (None, r', s')" "rq_current s = Some c"
    using that by (auto simp: pipe_read_def pipe_pop_def current_task_arc_def Let_def split: if_splits)
  show "p_waiters r = ws @ p_waiters r'" if "pipe_release x r = (r', ws)"
    using that by (cases x) (auto simp: pipe_write_def pipe_push_def pipe_write_drop_def
        pipe_read_drop_def Let_def split: if_splits)
qed

lemma pipe_inv_read:
  assumes "pipe_inv p" "pipe_read len p s = (r, p', s')"
  shows "pipe_inv p'"
    "pipe_content p = (case r of Some bs \<Rightarrow> bs | None \<Rightarrow> []) @ pipe_content p'"
    "r = None \<Longrightarrow> pipe_content p = []"
proof -
  obtain bs q where q: "pipe_pop len p = (bs, q)" by (cases "pipe_pop len p")
  have w: "p_waiters p \<noteq> [] \<Longrightarrow> p_count p = 0" using assms(1) by (auto simp: pipe_inv_def)
  have e: "p_count p = 0 \<Longrightarrow> pipe_content p = []"
    by (metis length_pipe_content length_0_conv)
  show "pipe_inv p'" "r = None \<Longrightarrow> pipe_content p = []"
    using assms pipe_pop_spec [OF assms(1) q] q e
    by (auto simp: pipe_read_def pipe_inv_def split: if_splits option.splits)
  show "pipe_content p = (case r of Some bs \<Rightarrow> bs | None \<Rightarrow> []) @ pipe_content p'"
    using assms pipe_pop_spec [OF assms(1) q] q e
    by (auto simp: pipe_read_def pipe_content_def split: if_splits option.splits)
qed

lemma pipe_write_spec:
  assumes "pipe_inv p" "\<not> p_read_closed p" "pipe_write src p = (n, p', ws)"
  shows "pipe_inv p'" "unat n = min (length src) (PIPE_BUFSZ - length (pipe_content p))"
    "pipe_content p' = pipe_content p @ take (unat n) src" "ws = p_waiters p" "p_waiters p' = []"
proof -
  obtain k q where q: "pipe_push src p = (k, q)" by (cases "pipe_push src p")
  note sp = pipe_push_spec [OF assms(1) q]
  have e: "n = of_nat k" "p' = q\<lparr>p_waiters := []\<rparr>" "ws = p_waiters q"
    using assms(2,3) q by (auto simp: pipe_write_def)
  have k: "k \<le> PIPE_BUFSZ" using sp(1) by simp
  then have u: "unat n = k" using e by (simp add: unat_of_nat_less)
  show "unat n = min (length src) (PIPE_BUFSZ - length (pipe_content p))"
    "ws = p_waiters p" "p_waiters p' = []"
    using sp e u by simp_all
  have "pipe_content p' = pipe_content q" using e by (simp add: pipe_content_def)
  then show "pipe_content p' = pipe_content p @ take (unat n) src" using sp(2) u by simp
  have "k \<le> PIPE_BUFSZ - p_count p" "p_count p \<le> PIPE_BUFSZ"
    using sp(1) assms(1) by (simp_all add: pipe_inv_def)
  then have "p_count p + k \<le> PIPE_BUFSZ" by linarith
  then show "pipe_inv p'" using assms(1) sp(3-5) e(2) by (simp add: pipe_inv_def)
qed

text \<open>A pipe in a running system, with what was accepted from writers and what readers got.\<close>

record pipe_sys =
  ps_pipe :: PipeInner
  ps_sched :: sched
  ps_written :: bytes
  ps_read :: bytes

text \<open>Every operation is performed by the running task; a reader that would block has another task
  to switch to (it spins otherwise).\<close>

inductive pipe_step :: "pipe_sys \<Rightarrow> pipe_sys \<Rightarrow> bool" where
  rd: "rq_current (ps_sched y) = Some c \<Longrightarrow> t_state (tcb (ps_sched y) c) = Running \<Longrightarrow>
       rq_queue (ps_sched y) \<noteq> [] \<Longrightarrow> pipe_read len (ps_pipe y) (ps_sched y) = (r, p', s') \<Longrightarrow>
       pipe_step y (y\<lparr>ps_pipe := p', ps_sched := s',
                      ps_read := ps_read y @ (case r of Some bs \<Rightarrow> bs | None \<Rightarrow> [])\<rparr>)"
| wr: "pipe_write src (ps_pipe y) = (n, p', ws) \<Longrightarrow>
       pipe_step y (y\<lparr>ps_pipe := p', ps_sched := fold wake_task ws (ps_sched y),
                      ps_written := ps_written y @ (if p_read_closed (ps_pipe y) then [] else take (unat n) src)\<rparr>)"
| close_w: "pipe_write_drop (ps_pipe y) = (p', ws) \<Longrightarrow>
       pipe_step y (y\<lparr>ps_pipe := p', ps_sched := fold wake_task ws (ps_sched y)\<rparr>)"
| close_r: "pipe_step y (y\<lparr>ps_pipe := pipe_read_drop (ps_pipe y)\<rparr>)"
| tick: "(\<forall>c. rq_current (ps_sched y) = Some c \<longrightarrow> t_state (tcb (ps_sched y) c) = Running) \<Longrightarrow>
       pipe_step y (y\<lparr>ps_sched := task_schedule (ps_sched y)\<rparr>)"
| run: "pipe_step y (y\<lparr>ps_sched := (ps_sched y)\<lparr>cpu := c\<rparr>\<rparr>)"
| spawn: "\<not> t_waiting_for_child t \<Longrightarrow>
       pipe_step y (y\<lparr>ps_sched := enqueue_task (next_ref (ps_sched y)) (snd (arc_new_task t (ps_sched y)))\<rparr>)"

inductive pipe_reachable :: "pipe_sys \<Rightarrow> bool" where
  start: "sched_reachable s \<Longrightarrow>
     pipe_reachable \<lparr>ps_pipe = pipe_new, ps_sched = s, ps_written = [], ps_read = []\<rparr>"
| step: "pipe_reachable y \<Longrightarrow> pipe_step y y' \<Longrightarrow> pipe_reachable y'"

definition pipe_sys_inv :: "pipe_sys \<Rightarrow> bool" where
  "pipe_sys_inv y \<longleftrightarrow> pipe_inv (ps_pipe y) \<and> full_inv (ps_sched y)
     \<and> wakeable (p_waiters (ps_pipe y)) (ps_sched y)
     \<and> ps_written y = ps_read y @ pipe_content (ps_pipe y)"

lemma pipe_sys_inv_step:
  assumes "pipe_step y y'" "pipe_sys_inv y"
  shows "pipe_sys_inv y'"
  using assms
proof (induction rule: pipe_step.induct)
  case (rd y c len r p' s')
  then have i: "pipe_inv (ps_pipe y)" by (simp add: pipe_sys_inv_def)
  show ?case
    using rd pipe_inv_read [OF i rd.hyps(4)]
      pipe_wait.acquire_keeps [of "ps_sched y" "ps_pipe y" c len r p' s']
    by (simp add: pipe_sys_inv_def)
next
  case (wr src y n p' ws)
  then have i: "pipe_inv (ps_pipe y)" "full_inv (ps_sched y)" "wakeable (p_waiters (ps_pipe y)) (ps_sched y)"
    by (simp_all add: pipe_sys_inv_def)
  have "full_inv (fold wake_task ws (ps_sched y)) \<and> wakeable (p_waiters p') (fold wake_task ws (ps_sched y))"
    by (rule pipe_wait.release_keeps [OF i(2,3), of "WriteBytes src"]) (simp add: wr)
  moreover have "pipe_inv p' \<and> pipe_content p' =
      pipe_content (ps_pipe y) @ (if p_read_closed (ps_pipe y) then [] else take (unat n) src)"
  proof (cases "p_read_closed (ps_pipe y)")
    case True
    then show ?thesis using wr.hyps i(1) by (simp add: pipe_write_def)
  next
    case False
    then show ?thesis using pipe_write_spec(1,3) [OF i(1) _ wr.hyps] by simp
  qed
  ultimately show ?case using wr by (simp add: pipe_sys_inv_def)
next
  case (close_w y p' ws)
  then have i: "pipe_inv (ps_pipe y)" "full_inv (ps_sched y)" "wakeable (p_waiters (ps_pipe y)) (ps_sched y)"
    by (simp_all add: pipe_sys_inv_def)
  have "full_inv (fold wake_task ws (ps_sched y)) \<and> wakeable (p_waiters p') (fold wake_task ws (ps_sched y))"
    by (rule pipe_wait.release_keeps [OF i(2,3), of DropWriteEnd]) (simp add: close_w)
  then show ?case using close_w
    by (auto simp: pipe_sys_inv_def pipe_write_drop_def pipe_inv_def pipe_content_def)
next
  case (close_r y)
  then show ?case by (simp add: pipe_sys_inv_def pipe_read_drop_def pipe_inv_def pipe_content_def)
next
  case (tick y)
  then show ?case by (simp add: pipe_sys_inv_def full_inv_tick wakeable_schedule)
next
  case (run y c)
  then show ?case by (simp add: pipe_sys_inv_def full_inv_def)
next
  case (spawn t y)
  then show ?case by (simp add: pipe_sys_inv_def full_inv_spawn wakeable_spawn)
qed

lemma pipe_sys_inv_reachable: "pipe_reachable y \<Longrightarrow> pipe_sys_inv y"
proof (induction rule: pipe_reachable.induct)
  case (start s)
  then show ?case
    using full_inv_reachable by (simp add: pipe_sys_inv_def wakeable_def) (simp add: pipe_new_def)
qed (rule pipe_sys_inv_step)

section \<open>Properties\<close>

text \<open>C8: A pipe is a byte stream: under every interleaving of reads, writes, closes, blocking, waking
  and preemption, the bytes accepted from writers are the bytes delivered to readers followed by
  the bytes still buffered, of which there are at most 4096.\<close>

theorem pipe_stream:
  assumes "pipe_reachable y"
  shows "ps_written y = ps_read y @ pipe_content (ps_pipe y) \<and> pipe_size (ps_pipe y) \<le> PIPE_BUFSZ"
  using pipe_sys_inv_reachable [OF assms] by (auto simp: pipe_sys_inv_def pipe_inv_def pipe_size_def)

text \<open>Task 1 reads from the empty pipe and blocks; task 2 writes three bytes, which wakes it.\<close>

definition demo_pipe0 :: pipe_sys where
  "demo_pipe0 = \<lparr>ps_pipe = pipe_new, ps_sched = demo_sched 1, ps_written = [], ps_read = []\<rparr>"

definition demo_pipe1 :: pipe_sys where
  "demo_pipe1 = demo_pipe0\<lparr>ps_pipe := pipe_new\<lparr>p_waiters := [1]\<rparr>,
                           ps_sched := block_current_and_switch (demo_sched 1)\<rparr>"

definition demo_pipe2 :: pipe_sys where
  "demo_pipe2 = demo_pipe1\<lparr>ps_pipe := fst (snd (pipe_write [1, 2, 3] (ps_pipe demo_pipe1))),
     ps_sched := fold wake_task [1] (ps_sched demo_pipe1), ps_written := [1, 2, 3]\<rparr>"

lemma demo_pipe0_reachable: "pipe_reachable demo_pipe0"
  unfolding demo_pipe0_def by (rule start [OF demo_sched_1])

lemma demo_pipe1_reachable: "pipe_reachable demo_pipe1"
proof -
  have c: "rq_current (ps_sched demo_pipe0) = Some 1"
    "t_state (tcb (ps_sched demo_pipe0) 1) = Running" "rq_queue (ps_sched demo_pipe0) \<noteq> []"
    using demo_sched_1_cur by (simp_all add: demo_pipe0_def) (simp add: task_schedule_def demo_simps)
  have "pipe_read 8 (ps_pipe demo_pipe0) (ps_sched demo_pipe0)
      = (None, pipe_new\<lparr>p_waiters := [1]\<rparr>, block_current_and_switch (demo_sched 1))"
    using demo_sched_1_cur by (simp add: demo_pipe0_def pipe_read_def pipe_new_def current_task_arc_def)
  from step [OF demo_pipe0_reachable rd [OF c this]] show ?thesis
    by (simp add: demo_pipe1_def demo_pipe0_def)
qed

lemma demo_pipe2_reachable: "pipe_reachable demo_pipe2"
proof -
  have "pipe_write [1, 2, 3] (ps_pipe demo_pipe1)
      = (3, fst (snd (pipe_write [1, 2, 3] (ps_pipe demo_pipe1))), [1])"
    by (simp add: demo_pipe1_def pipe_new_def pipe_write_def pipe_push_def pipe_space_def Let_def)
  from step [OF demo_pipe1_reachable wr [OF this]] show ?thesis
    by (simp add: demo_pipe2_def demo_pipe1_def demo_pipe0_def pipe_new_def)
qed

theorem pipe_stream_witness:
  "pipe_reachable demo_pipe2 \<and> [1, 2, 3] = pipe_content (ps_pipe demo_pipe2)"
  using pipe_stream [OF demo_pipe2_reachable] demo_pipe2_reachable
  by (simp add: demo_pipe2_def demo_pipe1_def demo_pipe0_def)

text \<open>C9: No reader sleeps on a pipe that has something for it: while a task is on the wait list the
  pipe is empty with its write end open, the task is in no queue of the scheduler, and the next write
  of a non-empty buffer (or the drop of the write end) puts every waiting reader on the run queue.\<close>

theorem pipe_no_lost_wakeup:
  assumes "pipe_reachable y" "w \<in> set (p_waiters (ps_pipe y))" "\<not> p_read_closed (ps_pipe y)"
    "pipe_write src (ps_pipe y) = (n, p', ws)" "src \<noteq> []"
  shows "pipe_content (ps_pipe y) = [] \<and> \<not> p_write_closed (ps_pipe y) \<and> w \<notin> set (rq_refs (ps_sched y))
    \<and> w \<in> set (rq_queue (fold wake_task ws (ps_sched y))) \<and> 0 < p_count p'
    \<and> w \<in> set (snd (pipe_write_drop (ps_pipe y)))"
proof -
  have i: "pipe_inv (ps_pipe y)" "wakeable (p_waiters (ps_pipe y)) (ps_sched y)"
    using pipe_sys_inv_reachable [OF assms(1)] by (simp_all add: pipe_sys_inv_def)
  have c: "p_count (ps_pipe y) = 0" "\<not> p_write_closed (ps_pipe y)"
    using i(1) assms(2) by (auto simp: pipe_inv_def)
  then have e: "pipe_content (ps_pipe y) = []" by (metis length_pipe_content length_0_conv)
  note sp = pipe_write_spec [OF i(1) assms(3,4)]
  have "0 < length src" using assms(5) by simp
  then have "0 < length (pipe_content p')" using sp(2,3) e by simp
  then show ?thesis
    using c e sp(4) assms(2) i(2) by (simp add: wakeable_def pipe_write_drop_def)
qed

theorem pipe_no_lost_wakeup_witness:
  "1 \<in> set (rq_queue (fold wake_task (snd (snd (pipe_write [1, 2, 3] (ps_pipe demo_pipe1)))) (ps_sched demo_pipe1)))"
proof -
  have "1 \<in> set (p_waiters (ps_pipe demo_pipe1))" "\<not> p_read_closed (ps_pipe demo_pipe1)"
    by (simp_all add: demo_pipe1_def pipe_new_def)
  from pipe_no_lost_wakeup [OF demo_pipe1_reachable this, of "[1, 2, 3]"] show ?thesis
    by (metis list.distinct(1) prod.collapse)
qed

text \<open>A read returns no bytes exactly at end of file: on a consistent pipe, a read into a
  non-empty buffer delivers the empty string if and only if the pipe is empty and its write end is
  closed; otherwise it delivers the longest available prefix or blocks.\<close>

theorem pipe_read_eof:
  assumes "pipe_inv p" "0 < len"
  shows "fst (pipe_read len p s) =
    (if pipe_content p \<noteq> [] then Some (take len (pipe_content p))
     else if p_write_closed p then Some [] else None)
    \<and> (fst (pipe_read len p s) = Some [] \<longleftrightarrow> pipe_content p = [] \<and> p_write_closed p)"
proof -
  obtain bs q where q: "pipe_pop len p = (bs, q)" by (cases "pipe_pop len p")
  have "p_count p = 0 \<longleftrightarrow> pipe_content p = []" by (metis length_pipe_content length_0_conv)
  then show ?thesis using pipe_pop_spec(1) [OF assms(1) q] q assms(2)
    by (auto simp: pipe_read_def Let_def)
qed

theorem pipe_read_eof_witness:
  "fst (pipe_read 8 (fst (pipe_write_drop pipe_new)) (demo_sched 1)) = Some []"
proof -
  have "pipe_inv (fst (pipe_write_drop pipe_new))"
    by (simp add: pipe_inv_def pipe_write_drop_def pipe_new_def)
  from pipe_read_eof [OF this, of 8 "demo_sched 1"] show ?thesis
    by (simp add: pipe_write_drop_def pipe_new_def pipe_content_def)
qed

end
