(* ===== verification/Vfs.thy ===== *)
theory Vfs
  imports Prelude "HOL-Library.Sublist"
begin

text \<open>
  vfs/src/lib.rs: the mount table with longest-prefix resolution, RAM files and
  RAM directories. Strings are their UTF-8 bytes. An \<open>Arc<dyn INode>\<close> is an
  \<open>inode_ref\<close> into the heap \<open>nodes\<close>; the constructors of \<open>node\<close> are the
  implementations of the \<open>INode\<close> trait that a descriptor of the running kernel can
  refer to through the RAM file system, the pipes and the standard streams. A method
  that an implementation does not override has the trait's default.
\<close>

type_synonym str = bytes
type_synonym inode_ref = nat
type_synonym pipe_ref = nat

abbreviation SLASH :: u8 where
  "SLASH \<equiv> 0x2F"

datatype FileType = File | Directory | Device

datatype node =
  RamFile str bytes
| RamDir str "(str \<times> inode_ref) list"
| PipeReadEnd pipe_ref
| PipeWriteEnd pipe_ref
| StdinINode
| StdoutINode
| StderrINode

record MountEntry =
  me_path :: str
  me_root :: inode_ref

record vfs =
  nodes :: "inode_ref \<Rightarrow> node"
  next_node :: inode_ref
  MOUNT_TABLE :: "MountEntry list"

definition arc_new_node :: "node \<Rightarrow> vfs \<Rightarrow> inode_ref \<times> vfs" where
  "arc_new_node n v = (next_node v, v\<lparr>nodes := (nodes v)(next_node v := n), next_node := Suc (next_node v)\<rparr>)"

section \<open>Strings\<close>

definition starts_with :: "str \<Rightarrow> str \<Rightarrow> bool" where
  "starts_with s p = (take (length p) s = p)"

definition strip_prefix :: "str \<Rightarrow> str \<Rightarrow> str option" where
  "strip_prefix s p = (if starts_with s p then Some (drop (length p) s) else None)"

definition trim_start_matches :: "u8 \<Rightarrow> str \<Rightarrow> str" where
  "trim_start_matches c s = dropWhile (\<lambda>x. x = c) s"

definition trim_end_matches :: "u8 \<Rightarrow> str \<Rightarrow> str" where
  "trim_end_matches c s = rev (dropWhile (\<lambda>x. x = c) (rev s))"

fun split_on :: "u8 \<Rightarrow> str \<Rightarrow> str list" where
  "split_on c [] = [[]]"
| "split_on c (x # xs) =
     (if x = c then [] # split_on c xs
      else case split_on c xs of w # ws \<Rightarrow> (x # w) # ws | [] \<Rightarrow> [[x]])"

definition components :: "str \<Rightarrow> str list" where
  "components s = filter (\<lambda>c. c \<noteq> []) (split_on SLASH s)"

section \<open>Mount table\<close>

definition normalize_mount_path :: "str \<Rightarrow> str" where
  "normalize_mount_path path =
     (if path = [SLASH] then [SLASH] else trim_end_matches SLASH path @ [SLASH])"

text \<open>\<open>sort_unstable_by\<close> on the descending length of the path. The order of entries of equal
  length is left open by Rust; the stable order is taken here and \<open>find_mount_unique\<close> shows
  that resolution does not depend on it.\<close>

definition sort_mounts :: "MountEntry list \<Rightarrow> MountEntry list" where
  "sort_mounts es = sort_key (\<lambda>e. - int (length (me_path e))) es"

fun replace_root :: "str \<Rightarrow> inode_ref \<Rightarrow> MountEntry list \<Rightarrow> MountEntry list option" where
  "replace_root key root [] = None"
| "replace_root key root (e # es) =
     (if me_path e = key then Some (e\<lparr>me_root := root\<rparr> # es)
      else map_option (\<lambda>es'. e # es') (replace_root key root es))"

definition mount :: "str \<Rightarrow> inode_ref \<Rightarrow> vfs \<Rightarrow> vfs" where
  "mount path root v =
     (let key = normalize_mount_path path
      in case replace_root key root (MOUNT_TABLE v) of
           Some t \<Rightarrow> v\<lparr>MOUNT_TABLE := t\<rparr>
         | None \<Rightarrow> v\<lparr>MOUNT_TABLE := sort_mounts (MOUNT_TABLE v @ [\<lparr>me_path = key, me_root = root\<rparr>])\<rparr>)"

fun remove_mount :: "str \<Rightarrow> MountEntry list \<Rightarrow> MountEntry list option" where
  "remove_mount key [] = None"
| "remove_mount key (e # es) =
     (if me_path e = key then Some es else map_option (\<lambda>es'. e # es') (remove_mount key es))"

definition umount :: "str \<Rightarrow> vfs \<Rightarrow> (string + unit) \<times> vfs" where
  "umount path v =
     (case remove_mount (normalize_mount_path path) (MOUNT_TABLE v) of
        Some t \<Rightarrow> (Inr (), v\<lparr>MOUNT_TABLE := t\<rparr>)
      | None \<Rightarrow> (Inl ''not mounted'', v))"

definition set_root :: "inode_ref \<Rightarrow> vfs \<Rightarrow> vfs" where
  "set_root root v = mount [SLASH] root v"

definition mount_matches :: "str \<Rightarrow> MountEntry \<Rightarrow> bool" where
  "mount_matches path e =
     (if me_path e = [SLASH] then starts_with path [SLASH]
      else path = trim_end_matches SLASH (me_path e) \<or> starts_with path (me_path e))"

definition mount_remainder :: "str \<Rightarrow> MountEntry \<Rightarrow> str" where
  "mount_remainder path e =
     (if me_path e = [SLASH] then trim_start_matches SLASH path
      else trim_start_matches SLASH
             (case strip_prefix path (me_path e) of Some r \<Rightarrow> r | None \<Rightarrow> []))"

section \<open>INode methods\<close>

fun inode_lookup :: "node \<Rightarrow> str \<Rightarrow> inode_ref option" where
  "inode_lookup (RamDir _ children) name = map_of children name"
| "inode_lookup _ name = None"

fun walk :: "vfs \<Rightarrow> inode_ref \<Rightarrow> str list \<Rightarrow> inode_ref option" where
  "walk v r [] = Some r"
| "walk v r (c # cs) = (case inode_lookup (nodes v r) c of None \<Rightarrow> None | Some r' \<Rightarrow> walk v r' cs)"

definition lookup_path :: "vfs \<Rightarrow> str \<Rightarrow> inode_ref option" where
  "lookup_path v path =
     (if MOUNT_TABLE v = [] then None
      else case List.find (mount_matches path) (MOUNT_TABLE v) of
             None \<Rightarrow> None
           | Some entry \<Rightarrow>
               (let remainder = mount_remainder path entry
                in if remainder = [] then Some (me_root entry)
                   else walk v (me_root entry) (components remainder)))"

fun inode_metadata :: "node \<Rightarrow> FileType" where
  "inode_metadata (RamFile _ _) = File"
| "inode_metadata (RamDir _ _) = Directory"
| "inode_metadata (PipeReadEnd _) = File"
| "inode_metadata (PipeWriteEnd _) = File"
| "inode_metadata _ = Device"

text \<open>\<open>RamFile::read\<close> on a buffer of \<open>len\<close> bytes: the bytes stored at its start.\<close>

definition ramfile_read :: "bytes \<Rightarrow> u64 \<Rightarrow> nat \<Rightarrow> bytes option" where
  "ramfile_read data offset len =
     (if length data \<le> unat offset then Some []
      else let n = min len (length data - unat offset)
           in slice data (unat offset) (unat offset + n))"

text \<open>\<open>RamFile::write\<close>: \<open>offset + buf.len()\<close> wraps; \<open>resize\<close> aborts above \<open>isize::MAX\<close>; the slice
  panics when the wrapped end lies before the start.\<close>

definition vec_resize :: "bytes \<Rightarrow> nat \<Rightarrow> u8 \<Rightarrow> bytes option" where
  "vec_resize data n x =
     (if 2 ^ 63 \<le> n then None
      else Some (if n \<le> length data then take n data else data @ replicate (n - length data) x))"

definition ramfile_write :: "bytes \<Rightarrow> u64 \<Rightarrow> bytes \<Rightarrow> (nat \<times> bytes) option" where
  "ramfile_write data offset buf =
     do {
       let e = offset + of_nat (length buf);
       data1 \<leftarrow> (if length data < unat e then vec_resize data (unat e) 0 else Some data);
       data2 \<leftarrow> copy_slice data1 (unat offset) (unat e) buf;
       Some (length buf, data2)
     }"

definition ramdir_insert :: "inode_ref \<Rightarrow> str \<Rightarrow> inode_ref \<Rightarrow> vfs \<Rightarrow> (string + unit) \<times> vfs" where
  "ramdir_insert d name node v =
     (case nodes v d of
        RamDir dn children \<Rightarrow>
          if name \<in> fst ` set children then (Inl ''file exists'', v)
          else (Inr (), v\<lparr>nodes := (nodes v)(d := RamDir dn (children @ [(name, node)]))\<rparr>)
      | _ \<Rightarrow> (Inl ''not a directory'', v))"

text \<open>A node created for a failed insert is dropped again, so the error leaves the state alone.\<close>

definition inode_create_file :: "inode_ref \<Rightarrow> str \<Rightarrow> vfs \<Rightarrow> (string + inode_ref) \<times> vfs" where
  "inode_create_file d name v =
     (case nodes v d of
        RamDir _ _ \<Rightarrow>
          (let (r, v1) = arc_new_node (RamFile name []) v
           in case ramdir_insert d name r v1 of
                (Inl e, _) \<Rightarrow> (Inl e, v)
              | (Inr _, v2) \<Rightarrow> (Inr r, v2))
      | _ \<Rightarrow> (Inl ''not a directory'', v))"

definition inode_mkdir :: "inode_ref \<Rightarrow> str \<Rightarrow> vfs \<Rightarrow> (string + unit) \<times> vfs" where
  "inode_mkdir d name v =
     (case nodes v d of
        RamDir _ _ \<Rightarrow>
          (let (r, v1) = arc_new_node (RamDir name []) v
           in case ramdir_insert d name r v1 of
                (Inl e, _) \<Rightarrow> (Inl e, v)
              | (Inr _, v2) \<Rightarrow> (Inr (), v2))
      | _ \<Rightarrow> (Inl ''not a directory'', v))"

fun remove_child :: "str \<Rightarrow> (str \<times> inode_ref) list \<Rightarrow> (str \<times> inode_ref) list option" where
  "remove_child name [] = None"
| "remove_child name ((n, r) # cs) =
     (if n = name then Some cs else map_option (\<lambda>cs'. (n, r) # cs') (remove_child name cs))"

definition inode_unlink :: "inode_ref \<Rightarrow> str \<Rightarrow> vfs \<Rightarrow> (string + unit) \<times> vfs" where
  "inode_unlink d name v =
     (case nodes v d of
        RamDir dn children \<Rightarrow>
          (case remove_child name children of
             Some cs \<Rightarrow> (Inr (), v\<lparr>nodes := (nodes v)(d := RamDir dn cs)\<rparr>)
           | None \<Rightarrow> (Inl ''not found'', v))
      | _ \<Rightarrow> (Inl ''not a directory'', v))"

definition inode_readdir :: "inode_ref \<Rightarrow> vfs \<Rightarrow> (str \<times> FileType) list option" where
  "inode_readdir d v =
     (case nodes v d of
        RamDir _ children \<Rightarrow> Some (map (\<lambda>(n, r). (n, inode_metadata (nodes v r))) children)
      | _ \<Rightarrow> None)"

section \<open>The mount table as a map, resolved by longest prefix\<close>

definition mounts :: "MountEntry list \<Rightarrow> str \<rightharpoonup> inode_ref" where
  "mounts es = map_of (map (\<lambda>e. (me_path e, me_root e)) es)"

definition normal_path :: "str \<Rightarrow> bool" where
  "normal_path k \<longleftrightarrow> k \<noteq> [] \<and> last k = SLASH \<and> (butlast k = [] \<or> last (butlast k) \<noteq> SLASH)"

definition mount_inv :: "MountEntry list \<Rightarrow> bool" where
  "mount_inv es \<longleftrightarrow> sorted_wrt (\<lambda>a b. length (me_path b) \<le> length (me_path a)) es
     \<and> distinct (map me_path es) \<and> (\<forall>e\<in>set es. normal_path (me_path e))"

lemma normal_pathI: "p = [] \<or> last p \<noteq> SLASH \<Longrightarrow> normal_path (p @ [SLASH])"
  by (auto simp: normal_path_def butlast_append)

lemma normal_pathE:
  assumes "normal_path k"
  obtains p where "k = p @ [SLASH]" "p = [] \<or> last p \<noteq> SLASH"
  using assms by (metis append_butlast_last_id normal_path_def)

lemma last_trim_end: "trim_end_matches c s = [] \<or> last (trim_end_matches c s) \<noteq> c"
  unfolding trim_end_matches_def
  by (metis (mono_tags) hd_dropWhile last_rev rev.simps(1) rev_rev_ident)

lemma normal_normalize: "normal_path (normalize_mount_path path)"
  using normal_pathI [of "[]"] normal_pathI [OF last_trim_end [of SLASH path]]
  by (auto simp: normalize_mount_path_def)

lemma trim_end_normal: "p = [] \<or> last p \<noteq> c \<Longrightarrow> trim_end_matches c (p @ [c]) = p"
  unfolding trim_end_matches_def by (cases p rule: rev_cases) auto

lemma normalize_id: "normal_path k \<Longrightarrow> normalize_mount_path k = k"
  by (auto simp: normalize_mount_path_def trim_end_normal elim!: normal_pathE)

text \<open>On a normal key \<open>p/\<close>, a path matches when it is \<open>p\<close> or lies below \<open>p/\<close>.\<close>

lemma mount_matches_normal:
  assumes "me_path e = p @ [SLASH]" "p = [] \<or> last p \<noteq> SLASH"
  shows "mount_matches path e \<longleftrightarrow> (p \<noteq> [] \<and> path = p) \<or> starts_with path (p @ [SLASH])"
  using assms trim_end_normal [OF assms(2)] by (cases p) (auto simp: mount_matches_def)

lemma mount_matches_same_length:
  assumes "normal_path (me_path e1)" "normal_path (me_path e2)"
    "mount_matches path e1" "mount_matches path e2" "length (me_path e1) = length (me_path e2)"
  shows "me_path e1 = me_path e2"
proof -
  obtain p1 where p1: "me_path e1 = p1 @ [SLASH]" "p1 = [] \<or> last p1 \<noteq> SLASH"
    using assms(1) by (rule normal_pathE)
  obtain p2 where p2: "me_path e2 = p2 @ [SLASH]" "p2 = [] \<or> last p2 \<noteq> SLASH"
    using assms(2) by (rule normal_pathE)
  have len: "length p1 = length p2" using assms(5) p1 p2 by simp
  have m1: "(p1 \<noteq> [] \<and> path = p1) \<or> starts_with path (p1 @ [SLASH])"
    and m2: "(p2 \<noteq> [] \<and> path = p2) \<or> starts_with path (p2 @ [SLASH])"
    using assms(3,4) mount_matches_normal [OF p1] mount_matches_normal [OF p2] by auto
  have no: "\<not> starts_with q (p @ [SLASH])" if "length p = length q" for p q
    using that by (auto simp: starts_with_def dest: arg_cong [of _ _ length])
  have "p1 = p2"
  proof (cases "path = p1 \<or> path = p2")
    case True
    then show ?thesis using m1 m2 len no [of p1 p2] no [of p2 p1] by auto
  next
    case False
    then have "take (length (p1 @ [SLASH])) path = p1 @ [SLASH]" "take (length (p2 @ [SLASH])) path = p2 @ [SLASH]"
      using m1 m2 by (auto simp: starts_with_def)
    then show ?thesis using len by simp
  qed
  then show ?thesis using p1 p2 by simp
qed

lemma sort_mounts_set [simp]: "set (sort_mounts es) = set es"
  by (simp add: sort_mounts_def)

lemma sort_mounts_sorted: "sorted_wrt (\<lambda>a b. length (me_path b) \<le> length (me_path a)) (sort_mounts es)"
proof -
  have "sorted (map (\<lambda>e. - int (length (me_path e))) (sort_mounts es))"
    by (simp add: sort_mounts_def)
  then show ?thesis by (simp add: sorted_wrt_map)
qed

lemma sort_mounts_distinct: "distinct (map me_path es) \<Longrightarrow> distinct (map me_path (sort_mounts es))"
  by (metis distinct_map distinct_sort inj_on_def set_sort sort_mounts_def)

lemma mounts_Some: "distinct (map me_path es) \<Longrightarrow>
    mounts es k = Some r \<longleftrightarrow> (\<exists>e\<in>set es. me_path e = k \<and> me_root e = r)"
  by (auto simp: mounts_def comp_def map_of_eq_Some_iff)

lemma mounts_None: "mounts es k = None \<longleftrightarrow> k \<notin> me_path ` set es"
  by (auto simp: mounts_def map_of_eq_None_iff image_iff)

lemma mounts_sort: "distinct (map me_path es) \<Longrightarrow> mounts (sort_mounts es) = mounts es"
proof (rule ext)
  fix k assume d: "distinct (map me_path es)"
  have "mounts (sort_mounts es) k = Some r \<longleftrightarrow> mounts es k = Some r" for r
    using mounts_Some [OF d, of k r] mounts_Some [OF sort_mounts_distinct [OF d], of k r] by simp
  then show "mounts (sort_mounts es) k = mounts es k" by (metis option.exhaust)
qed

lemma replace_root_None: "replace_root k r es = None \<longleftrightarrow> k \<notin> me_path ` set es"
  by (induction es) auto

lemma replace_root_Some:
  "replace_root k r es = Some es' \<Longrightarrow>
     map me_path es' = map me_path es \<and> mounts es' = (mounts es)(k \<mapsto> r)"
  by (induction es arbitrary: es') (auto simp: mounts_def fun_upd_twist split: if_splits)

lemma remove_mount_Some:
  "remove_mount k es = Some es' \<Longrightarrow> distinct (map me_path es) \<Longrightarrow>
     es' = filter (\<lambda>e. me_path e \<noteq> k) es \<and> k \<in> me_path ` set es"
proof (induction es arbitrary: es')
  case (Cons e es)
  have "filter (\<lambda>e'. me_path e' \<noteq> me_path e) es = es"
    using Cons.prems(2) by (auto simp: filter_id_conv) (metis image_eqI)
  then show ?case using Cons by (auto split: if_splits)
qed simp

lemma remove_mount_None: "remove_mount k es = None \<longleftrightarrow> k \<notin> me_path ` set es"
  by (induction es) auto

lemma mounts_filter: "mounts (filter (\<lambda>e. me_path e \<noteq> k) es) = (mounts es)(k := None)"
  by (rule ext, induction es) (auto simp: mounts_def)

lemma mounts_snoc: "k \<notin> me_path ` set es \<Longrightarrow>
    mounts (es @ [\<lparr>me_path = k, me_root = r\<rparr>]) = (mounts es)(k \<mapsto> r)"
  by (induction es) (auto simp: mounts_def fun_upd_twist)

lemma mount_inv_alt:
  "mount_inv es \<longleftrightarrow> sorted_wrt (\<lambda>a b. length b \<le> length a) (map me_path es)
     \<and> distinct (map me_path es) \<and> (\<forall>k\<in>set (map me_path es). normal_path k)"
  by (simp add: mount_inv_def sorted_wrt_map)

lemma mount_inv_map: "map me_path es' = map me_path es \<Longrightarrow> mount_inv es \<Longrightarrow> mount_inv es'"
  by (auto simp only: mount_inv_alt)

lemma mount_step:
  assumes "mount_inv (MOUNT_TABLE v)"
  shows "mount_inv (MOUNT_TABLE (mount path root v))"
    "mounts (MOUNT_TABLE (mount path root v)) = (mounts (MOUNT_TABLE v))(normalize_mount_path path \<mapsto> root)"
proof -
  let ?k = "normalize_mount_path path" and ?t = "MOUNT_TABLE v"
  have "mount_inv (MOUNT_TABLE (mount path root v)) \<and>
    mounts (MOUNT_TABLE (mount path root v)) = (mounts ?t)(?k \<mapsto> root)"
  proof (cases "replace_root ?k root ?t")
    case (Some t)
    then show ?thesis
      using replace_root_Some [OF Some] assms mount_inv_map [of t ?t] by (simp add: mount_def)
  next
    case None
    then have k: "?k \<notin> me_path ` set ?t" by (simp add: replace_root_None)
    let ?n = "?t @ [\<lparr>me_path = ?k, me_root = root\<rparr>]"
    have d: "distinct (map me_path ?n)" using k assms by (simp add: mount_inv_def)
    have "mount_inv (sort_mounts ?n)"
      using sort_mounts_sorted [of ?n] sort_mounts_distinct [OF d] assms normal_normalize
      by (auto simp: mount_inv_def)
    then show ?thesis using None mounts_sort [OF d] mounts_snoc [OF k] by (simp add: mount_def)
  qed
  then show "mount_inv (MOUNT_TABLE (mount path root v))"
    "mounts (MOUNT_TABLE (mount path root v)) = (mounts ?t)(?k \<mapsto> root)" by simp_all
qed

lemma umount_step:
  assumes "mount_inv (MOUNT_TABLE v)" "umount path v = (res, v')"
  shows "mount_inv (MOUNT_TABLE v')"
    "mounts (MOUNT_TABLE v') = (mounts (MOUNT_TABLE v))(normalize_mount_path path := None)"
    "res = Inr () \<longleftrightarrow> mounts (MOUNT_TABLE v) (normalize_mount_path path) \<noteq> None"
proof -
  let ?k = "normalize_mount_path path" and ?t = "MOUNT_TABLE v"
  have d: "distinct (map me_path ?t)" using assms(1) by (simp add: mount_inv_def)
  have "mount_inv (MOUNT_TABLE v') \<and> mounts (MOUNT_TABLE v') = (mounts ?t)(?k := None)
      \<and> (res = Inr () \<longleftrightarrow> mounts ?t ?k \<noteq> None)"
  proof (cases "remove_mount ?k ?t")
    case None
    then have "mounts ?t ?k = None" by (simp add: remove_mount_None mounts_None)
    moreover have "v' = v" "res \<noteq> Inr ()" using None assms(2) by (simp_all add: umount_def) auto
    ultimately show ?thesis using assms(1) fun_upd_idem [of "mounts ?t" ?k None] by simp
  next
    case (Some t)
    have "mounts ?t ?k \<noteq> None" using remove_mount_Some [OF Some d] mounts_None [of ?t ?k] by blast
    moreover have "mount_inv (filter (\<lambda>e. me_path e \<noteq> ?k) ?t)"
      using assms(1) by (auto simp: mount_inv_def sorted_wrt_filter distinct_map_filter)
    moreover have "res = Inr ()" "MOUNT_TABLE v' = filter (\<lambda>e. me_path e \<noteq> ?k) ?t"
      using Some assms(2) remove_mount_Some [OF Some d] by (auto simp: umount_def)
    ultimately show ?thesis using mounts_filter [of ?k ?t] by simp
  qed
  then show "mount_inv (MOUNT_TABLE v')" "mounts (MOUNT_TABLE v') = (mounts ?t)(?k := None)"
    "res = Inr () \<longleftrightarrow> mounts ?t ?k \<noteq> None" by simp_all
qed

lemma find_mount_unique:
  assumes "mount_inv es"
  shows "List.find (mount_matches path) es = Some e \<longleftrightarrow>
     e \<in> set es \<and> mount_matches path e
     \<and> (\<forall>e'\<in>set es. mount_matches path e' \<longrightarrow> e' = e \<or> length (me_path e') < length (me_path e))"
    (is "_ \<longleftrightarrow> ?u e")
proof -
  have srt: "length (me_path (es ! j)) \<le> length (me_path (es ! i))" if "i < j" "j < length es" for i j
    using assms that by (simp add: mount_inv_def sorted_wrt_iff_nth_less)
  have inj: "a = b" if "a \<in> set es" "b \<in> set es" "me_path a = me_path b" for a b
    using assms that by (simp add: mount_inv_def distinct_map inj_on_def)
  have same: "a = b" if "a \<in> set es" "b \<in> set es" "mount_matches path a" "mount_matches path b"
      "length (me_path a) = length (me_path b)" for a b
    using that inj mount_matches_same_length [of a b path] assms by (simp add: mount_inv_def)
  have fwd: "?u a" if f: "List.find (mount_matches path) es = Some a" for a
  proof -
    obtain i where i: "i < length es" "mount_matches path (es ! i)" "a = es ! i"
      "\<forall>j<i. \<not> mount_matches path (es ! j)"
      using f by (auto simp: find_Some_iff)
    have "e' = a \<or> length (me_path e') < length (me_path a)" if e': "e' \<in> set es" "mount_matches path e'" for e'
    proof -
      obtain j where j: "j < length es" "e' = es ! j" using e'(1) by (auto simp: in_set_conv_nth)
      then have "i \<le> j" using i(4) e'(2) by (meson leI)
      then have "length (me_path e') \<le> length (me_path a)" using srt [of i j] i j by (cases "i = j") auto
      moreover have "a \<in> set es" using i by simp
      ultimately show ?thesis using same [of e' a] e' i by (auto simp: le_less)
    qed
    then show ?thesis using i by simp
  qed
  have "List.find (mount_matches path) es = Some e" if u: "?u e"
  proof -
    obtain a where a: "List.find (mount_matches path) es = Some a"
      using u by (cases "List.find (mount_matches path) es") (auto simp: find_None_iff)
    have "a = e" using fwd [OF a] u by (metis less_asym)
    then show ?thesis using a by simp
  qed
  then show ?thesis using fwd by blast
qed

section \<open>Path traversal\<close>

lemma split_on_ne: "split_on c xs \<noteq> []"
  by (induction xs) (auto split: list.splits)

lemma split_on_append: "split_on c (xs @ c # ys) = split_on c xs @ split_on c ys"
proof (induction xs)
  case (Cons x xs)
  then show ?case using split_on_ne [of c xs] by (cases "split_on c xs") auto
qed simp

lemma split_on_single: "c \<notin> set xs \<Longrightarrow> split_on c xs = [xs]"
  by (induction xs) auto

lemma components_Nil [simp]: "components [] = []"
  by (simp add: components_def)

lemma components_trim: "components (trim_start_matches SLASH s) = components s"
  by (induction s) (simp_all add: components_def trim_start_matches_def)

lemma components_snoc:
  "n \<noteq> [] \<Longrightarrow> SLASH \<notin> set n \<Longrightarrow> components (p @ SLASH # n) = components p @ [n]"
  by (simp add: components_def split_on_append split_on_single)

lemma components_name: "n \<noteq> [] \<Longrightarrow> SLASH \<notin> set n \<Longrightarrow> components n = [n]"
  by (simp add: components_def split_on_single)

lemma walk_append:
  "walk v r (cs @ ds) = (case walk v r cs of None \<Rightarrow> None | Some r' \<Rightarrow> walk v r' ds)"
  by (induction cs arbitrary: r) (auto split: option.splits)

definition mount_strip :: "str \<Rightarrow> MountEntry \<Rightarrow> str" where
  "mount_strip path e =
     (if me_path e = [SLASH] then path
      else case strip_prefix path (me_path e) of Some r \<Rightarrow> r | None \<Rightarrow> [])"

lemma lookup_path_walk:
  "lookup_path v path =
     (case List.find (mount_matches path) (MOUNT_TABLE v) of
        None \<Rightarrow> None
      | Some e \<Rightarrow> walk v (me_root e) (components (mount_strip path e)))"
proof (cases "List.find (mount_matches path) (MOUNT_TABLE v)")
  case (Some e)
  have "components (mount_remainder path e) = components (mount_strip path e)"
    by (simp add: mount_remainder_def mount_strip_def components_trim)
  moreover have "MOUNT_TABLE v \<noteq> []" using Some by auto
  ultimately show ?thesis using Some
    by (cases "mount_remainder path e = []") (auto simp: lookup_path_def Let_def)
qed (simp add: lookup_path_def)

text \<open>The components of \<open>parent/name\<close> below a mount are those of \<open>parent\<close> followed by \<open>name\<close>.\<close>

lemma components_strip_snoc:
  assumes "normal_path (me_path e)" "mount_matches parent e" "mount_matches (parent @ SLASH # name) e"
    "name \<noteq> []" "SLASH \<notin> set name"
  shows "components (mount_strip (parent @ SLASH # name) e) = components (mount_strip parent e) @ [name]"
proof -
  obtain p where p: "me_path e = p @ [SLASH]" "p = [] \<or> last p \<noteq> SLASH"
    using assms(1) by (rule normal_pathE)
  show ?thesis
  proof (cases "p = []")
    case True
    then show ?thesis using p assms(4,5) by (simp add: mount_strip_def components_snoc)
  next
    case False
    then consider "parent = p" | "starts_with parent (p @ [SLASH])"
      using mount_matches_normal [OF p] assms(2) by auto
    then show ?thesis
    proof cases
      case 1
      then show ?thesis using p False assms(4,5)
        by (simp add: mount_strip_def strip_prefix_def starts_with_def components_name)
    next
      case 2
      then obtain rest where r: "parent = p @ SLASH # rest"
        by (metis append.assoc append_Cons append_Nil append_take_drop_id starts_with_def)
      then show ?thesis using p False assms(4,5)
        by (simp add: mount_strip_def strip_prefix_def starts_with_def components_snoc)
    qed
  qed
qed

definition vfs_wf :: "vfs \<Rightarrow> bool" where
  "vfs_wf v \<longleftrightarrow> mount_inv (MOUNT_TABLE v) \<and> (\<forall>e\<in>set (MOUNT_TABLE v). me_root e < next_node v)
     \<and> (\<forall>r n cs. nodes v r = RamDir n cs \<longrightarrow> r < next_node v \<longrightarrow>
          distinct (map fst cs) \<and> (\<forall>c\<in>set cs. snd c < next_node v))"

lemma inode_lookup_less:
  assumes "vfs_wf v" "r < next_node v" "inode_lookup (nodes v r) c = Some r'"
  shows "r' < next_node v"
proof (cases "nodes v r")
  case (RamDir n cs)
  then have "(c, r') \<in> set cs" using assms(3) by (auto dest: map_of_SomeD)
  then show ?thesis using assms(1,2) RamDir by (fastforce simp: vfs_wf_def)
qed (use assms(3) in auto)

lemma walk_less: "vfs_wf v \<Longrightarrow> r < next_node v \<Longrightarrow> walk v r cs = Some r' \<Longrightarrow> r' < next_node v"
  by (induction cs arbitrary: r) (auto split: option.splits intro: inode_lookup_less)

lemma lookup_path_less:
  assumes "vfs_wf v" "lookup_path v path = Some r"
  shows "r < next_node v"
proof -
  obtain e where e: "List.find (mount_matches path) (MOUNT_TABLE v) = Some e"
    "walk v (me_root e) (components (mount_strip path e)) = Some r"
    using assms(2) by (auto simp: lookup_path_walk split: option.splits)
  then have "e \<in> set (MOUNT_TABLE v)" by (auto simp: find_Some_iff)
  then have "me_root e < next_node v" using assms(1) by (simp add: vfs_wf_def)
  then show ?thesis using walk_less assms(1) e(2) by blast
qed

text \<open>Adding a fresh node as a new child of \<open>d\<close> keeps every traversal that succeeded.\<close>

definition add_child :: "inode_ref \<Rightarrow> str \<Rightarrow> node \<Rightarrow> vfs \<Rightarrow> vfs" where
  "add_child d name n v =
     (case nodes v d of
        RamDir dn cs \<Rightarrow> v\<lparr>nodes := (nodes v)(next_node v := n, d := RamDir dn (cs @ [(name, next_node v)])),
                         next_node := Suc (next_node v)\<rparr>
      | _ \<Rightarrow> v)"

lemma walk_add_child:
  assumes "vfs_wf v" "r < next_node v" "nodes v d = RamDir dn ch" "d < next_node v"
    "walk v r cs = Some r'"
  shows "walk (add_child d name n v) r cs = Some r'"
  using assms(2,5)
proof (induction cs arbitrary: r)
  case (Cons c cs)
  then obtain r1 where r1: "inode_lookup (nodes v r) c = Some r1" "walk v r1 cs = Some r'"
    by (auto split: option.splits)
  have "inode_lookup (nodes (add_child d name n v) r) c = Some r1"
    using r1(1) Cons.prems(1) assms(3) by (auto simp: add_child_def map_add_def split: option.splits)
  moreover have "r1 < next_node v" using inode_lookup_less [OF assms(1) Cons.prems(1) r1(1)] .
  ultimately show ?case using Cons.IH r1(2) by simp
qed simp

lemma inode_mkdir_eq:
  assumes "nodes v d = RamDir dn ch" "d < next_node v"
  shows "inode_mkdir d name v =
    (if name \<in> fst ` set ch then (Inl ''file exists'', v) else (Inr (), add_child d name (RamDir name []) v))"
proof -
  have "d \<noteq> next_node v" using assms(2) by simp
  then show ?thesis using assms(1)
    by (simp add: inode_mkdir_def arc_new_node_def ramdir_insert_def add_child_def Let_def)
qed

lemma inode_create_file_eq:
  assumes "nodes v d = RamDir dn ch" "d < next_node v"
  shows "inode_create_file d name v =
    (if name \<in> fst ` set ch then (Inl ''file exists'', v)
     else (Inr (next_node v), add_child d name (RamFile name []) v))"
proof -
  have "d \<noteq> next_node v" using assms(2) by simp
  then show ?thesis using assms(1)
    by (simp add: inode_create_file_def arc_new_node_def ramdir_insert_def add_child_def Let_def)
qed

lemma lookup_add_child:
  assumes "vfs_wf v" "List.find (mount_matches parent) (MOUNT_TABLE v) = Some e"
    "List.find (mount_matches path) (MOUNT_TABLE v) = Some e"
    "components (mount_strip path e) = components (mount_strip parent e) @ [name]"
    "lookup_path v parent = Some d" "nodes v d = RamDir dn ch" "name \<notin> fst ` set ch"
  shows "lookup_path (add_child d name n v) path = Some (next_node v)
    \<and> nodes (add_child d name n v) (next_node v) = n"
proof -
  have e: "e \<in> set (MOUNT_TABLE v)" using assms(2) by (auto simp: find_Some_iff)
  have np: "me_root e < next_node v" using assms(1) e by (simp add: vfs_wf_def)
  have d: "d < next_node v" using assms(1,5) by (rule lookup_path_less)
  have w: "walk v (me_root e) (components (mount_strip parent e)) = Some d"
    using assms(2,5) by (simp add: lookup_path_walk)
  note w' = walk_add_child [OF assms(1) np assms(6) d w, of name n]
  have t: "MOUNT_TABLE (add_child d name n v) = MOUNT_TABLE v" using assms(6) by (simp add: add_child_def)
  have none: "map_of ch name = None" using assms(7) by (simp add: map_of_eq_None_iff)
  have "inode_lookup (nodes (add_child d name n v) d) name = Some (next_node v)"
    using assms(6) none by (simp add: add_child_def map_add_def)
  moreover have "nodes (add_child d name n v) (next_node v) = n"
    using assms(6) d by (simp add: add_child_def)
  ultimately show ?thesis using assms(3,4) w' by (simp add: lookup_path_walk t walk_append)
qed

text \<open>Both forms of a path with a last component: \<open>/name\<close>, with parent \<open>/\<close>, and \<open>parent/name\<close>.\<close>

lemma components_rsplit:
  assumes "normal_path (me_path e)" "mount_matches parent e" "mount_matches (pre @ SLASH # name) e"
    "parent = (if pre = [] then [SLASH] else pre)" "name \<noteq> []" "SLASH \<notin> set name"
  shows "components (mount_strip (pre @ SLASH # name) e) = components (mount_strip parent e) @ [name]"
proof (cases "pre = []")
  case False
  then show ?thesis using components_strip_snoc [of e parent name] assms by simp
next
  case True
  obtain p where p: "me_path e = p @ [SLASH]" "p = [] \<or> last p \<noteq> SLASH"
    using assms(1) by (rule normal_pathE)
  have "p = []"
    using mount_matches_normal [OF p, of "[SLASH]"] assms(2,4) True p(2) by (auto simp: starts_with_def)
  then show ?thesis using p True assms(4-6) components_snoc [of name "[]"]
    by (simp add: mount_strip_def) (simp add: components_def)
qed

section \<open>RAM files\<close>

lemma ramfile_write_ok:
  assumes "unat off + length buf < 2 ^ 63"
  shows "\<exists>data'. ramfile_write data off buf = Some (length buf, data')
    \<and> length data' = max (length data) (unat off + length buf)
    \<and> (\<forall>i<length data'. data' ! i =
         (if unat off \<le> i \<and> i < unat off + length buf then buf ! (i - unat off)
          else if i < length data then data ! i else 0))"
proof -
  let ?o = "unat off" and ?e = "off + of_nat (length buf)"
  have "unat (of_nat (length buf) :: u64) = length buf" using assms by (simp add: unat_of_nat_less)
  then have e: "unat ?e = ?o + length buf" using assms by (simp add: unat_word_ariths)
  let ?p = "data @ replicate (?o + length buf - length data) 0"
  have r: "(if length data < unat ?e then vec_resize data (unat ?e) 0 else Some data) = Some ?p"
    using assms e by (simp add: vec_resize_def)
  have "?o + length buf \<le> length ?p" by simp
  then have "ramfile_write data off buf = Some (length buf, overlay ?p ?o buf)"
    unfolding ramfile_write_def using r e by (simp add: copy_slice_def)
  moreover have "length (overlay ?p ?o buf) = max (length data) (?o + length buf)" by simp
  moreover have "overlay ?p ?o buf ! i = (if ?o \<le> i \<and> i < ?o + length buf then buf ! (i - ?o)
      else if i < length data then data ! i else 0)" if "i < length (overlay ?p ?o buf)" for i
    using that by (simp add: nth_overlay nth_append)
  ultimately show ?thesis by simp
qed

lemma ramfile_read_ok:
  "ramfile_read data off len = Some (take len (drop (unat off) data))"
  by (auto simp: ramfile_read_def Let_def slice_def min_def)

section \<open>Properties\<close>

datatype mount_op = MountOp str inode_ref | UmountOp str

fun mount_run :: "mount_op list \<Rightarrow> vfs \<Rightarrow> vfs" where
  "mount_run [] v = v"
| "mount_run (MountOp p r # ops) v = mount_run ops (mount p r v)"
| "mount_run (UmountOp p # ops) v = mount_run ops (snd (umount p v))"

fun mount_spec :: "mount_op list \<Rightarrow> (str \<rightharpoonup> inode_ref) \<Rightarrow> (str \<rightharpoonup> inode_ref)" where
  "mount_spec [] m = m"
| "mount_spec (MountOp p r # ops) m = mount_spec ops (m(normalize_mount_path p \<mapsto> r))"
| "mount_spec (UmountOp p # ops) m = mount_spec ops (m(normalize_mount_path p := None))"

lemma mount_run_refines:
  "mount_inv (MOUNT_TABLE v) \<Longrightarrow>
     mount_inv (MOUNT_TABLE (mount_run ops v))
     \<and> mounts (MOUNT_TABLE (mount_run ops v)) = mount_spec ops (mounts (MOUNT_TABLE v))"
proof (induction ops arbitrary: v)
  case (Cons op ops)
  show ?case
  proof (cases op)
    case (MountOp p r)
    then show ?thesis using Cons.IH [OF mount_step(1) [OF Cons.prems, of p r]] mount_step(2) [OF Cons.prems, of p r]
      by (simp only: mount_run.simps mount_spec.simps simp_thms)
  next
    case (UmountOp p)
    have u: "umount p v = (fst (umount p v), snd (umount p v))" by simp
    show ?thesis using UmountOp Cons.IH [OF umount_step(1) [OF Cons.prems u]] umount_step(2) [OF Cons.prems u]
      by (simp only: mount_run.simps mount_spec.simps simp_thms)
  qed
qed simp

text \<open>C29: After any sequence of mounts and unmounts from the empty table, the table holds exactly the
  map from normalised mount points to roots that the sequence describes, and the entry that
  path resolution picks is the unique longest mount point that the path lies under, whatever order
  the sort leaves entries of equal length in.\<close>

theorem mount_longest_prefix:
  assumes "MOUNT_TABLE v = []" "t = MOUNT_TABLE (mount_run ops v)"
  shows "mounts t = mount_spec ops Map.empty
    \<and> (\<forall>t'. set t' = set t \<and> mount_inv t' \<longrightarrow>
          List.find (mount_matches path) t' = List.find (mount_matches path) t)
    \<and> (\<forall>e. List.find (mount_matches path) t = Some e \<longleftrightarrow>
          e \<in> set t \<and> mount_matches path e
          \<and> (\<forall>e'\<in>set t. mount_matches path e' \<longrightarrow> e' = e \<or> length (me_path e') < length (me_path e)))"
proof -
  have "mount_inv (MOUNT_TABLE v)" "mounts (MOUNT_TABLE v) = Map.empty"
    using assms(1) by (simp_all add: mount_inv_def mounts_def)
  then have t: "mount_inv t" "mounts t = mount_spec ops Map.empty"
    using mount_run_refines [of v ops] by (simp_all add: assms(2))
  have "List.find (mount_matches path) t' = List.find (mount_matches path) t"
    if "set t' = set t" "mount_inv t'" for t'
  proof (cases "List.find (mount_matches path) t")
    case None
    then show ?thesis using that(1) by (metis find_None_iff)
  next
    case (Some e)
    then show ?thesis
      using find_mount_unique [OF t(1), of path e] find_mount_unique [OF that(2), of path e] that(1) by simp
  qed
  then show ?thesis using t find_mount_unique [OF t(1), of path] by blast
qed

definition demo_vfs :: vfs where
  "demo_vfs = \<lparr>nodes = (\<lambda>_. RamDir [] []), next_node = 2, MOUNT_TABLE = []\<rparr>"

theorem mount_longest_prefix_witness:
  "MOUNT_TABLE demo_vfs = []
   \<and> mounts (MOUNT_TABLE (mount_run [MountOp [SLASH] 0, MountOp [SLASH, 0x64] 1] demo_vfs))
     = mount_spec [MountOp [SLASH] 0, MountOp [SLASH, 0x64] 1] Map.empty"
proof -
  have "MOUNT_TABLE demo_vfs = []" by (simp add: demo_vfs_def)
  then show ?thesis using mount_longest_prefix by blast
qed

text \<open>Reading a RAM file where it was just written returns the bytes written; every other byte is
  unchanged, a gap past the old end reads as zero, and the size is the larger of the old size and
  the end of the write.\<close>

theorem ramfile_write_read:
  assumes "unat off + length buf < 2 ^ 63"
  shows "\<exists>data'. ramfile_write data off buf = Some (length buf, data')
    \<and> ramfile_read data' off (length buf) = Some buf
    \<and> length data' = max (length data) (unat off + length buf)
    \<and> (\<forall>i<length data'. \<not> (unat off \<le> i \<and> i < unat off + length buf) \<longrightarrow>
         data' ! i = (if i < length data then data ! i else 0))"
proof -
  obtain data' where d: "ramfile_write data off buf = Some (length buf, data')"
    "length data' = max (length data) (unat off + length buf)"
    "\<forall>i<length data'. data' ! i = (if unat off \<le> i \<and> i < unat off + length buf then buf ! (i - unat off)
          else if i < length data then data ! i else 0)"
    using ramfile_write_ok [OF assms, of data] by auto
  have "take (length buf) (drop (unat off) data') = buf"
    using d(2,3) by (intro nth_equalityI) auto
  then show ?thesis using d by (auto simp: ramfile_read_ok)
qed

theorem ramfile_write_read_witness:
  "\<exists>data'. ramfile_write [1, 2] 4 [7, 8] = Some (2, data') \<and> ramfile_read data' 4 2 = Some [7, 8]
     \<and> length data' = 6"
  using ramfile_write_read [of 4 "[7, 8]" "[1, 2]"] by (auto simp: numeral_2_eq_2 [symmetric])

text \<open>A write whose end \<open>offset + len\<close> exceeds the 64-bit range panics: the sum wraps, so the file is
  not resized to it and the slice bounds are reversed.\<close>

theorem ramfile_write_wrap_panics:
  assumes "2 ^ 64 \<le> unat off + length buf" "length buf < 2 ^ 63"
  shows "ramfile_write data off buf = None"
proof -
  let ?e = "off + of_nat (length buf)"
  have "unat (of_nat (length buf) :: u64) = length buf" using assms(2) by (simp add: unat_of_nat_less)
  moreover have "unat off < 2 ^ 64" using unsigned_less [of off] by simp
  ultimately have "unat ?e < unat off" using assms by (auto simp: unat_word_ariths mod_if)
  then show ?thesis by (auto simp: ramfile_write_def copy_slice_def Let_def bind_eq_None_conv)
qed

theorem ramfile_write_wrap_panics_witness: "ramfile_write [1, 2] 0xFFFFFFFFFFFFFFFF [7, 8] = None"
  using ramfile_write_wrap_panics [of "0xFFFFFFFFFFFFFFFF" "[7, 8]" "[1, 2]"] by simp

end
