(* ===== verification/Fifo.thy ===== *)
theory Fifo
  imports Prelude
begin

text \<open>
  The contract of a bounded first-in first-out queue, as the keyboard buffer and
  the IPC port queue promise it: an element is accepted exactly when the queue
  holds fewer than \<open>cap\<close> elements, and elements leave in the order in which they
  were accepted. \<open>fifo_run\<close> runs a sequence of operations and records what was
  accepted and what was delivered.
\<close>

datatype 'a fifo_op = Put 'a | Take

fun fifo_run ::
  "('a \<Rightarrow> 'q \<Rightarrow> bool \<times> 'q) \<Rightarrow> ('q \<Rightarrow> 'a option \<times> 'q) \<Rightarrow> 'q \<Rightarrow> 'a fifo_op list
     \<Rightarrow> 'a list \<times> 'a list \<times> 'q" where
  "fifo_run put get q [] = ([], [], q)"
| "fifo_run put get q (Put a # ops) =
     (let (ok, q1) = put a q; (acc, del, q2) = fifo_run put get q1 ops
      in (if ok then a # acc else acc, del, q2))"
| "fifo_run put get q (Take # ops) =
     (let (r, q1) = get q; (acc, del, q2) = fifo_run put get q1 ops
      in (acc, case r of Some a \<Rightarrow> a # del | None \<Rightarrow> del, q2))"

locale bounded_fifo =
  fixes put :: "'a \<Rightarrow> 'q \<Rightarrow> bool \<times> 'q"
    and get :: "'q \<Rightarrow> 'a option \<times> 'q"
    and content :: "'q \<Rightarrow> 'a list"
    and inv :: "'q \<Rightarrow> bool"
    and cap :: nat
  assumes put_room: "inv q \<Longrightarrow> length (content q) < cap \<Longrightarrow>
      \<exists>q'. put a q = (True, q') \<and> inv q' \<and> content q' = content q @ [a]"
    and put_full: "inv q \<Longrightarrow> length (content q) \<ge> cap \<Longrightarrow> put a q = (False, q)"
    and get_empty: "inv q \<Longrightarrow> content q = [] \<Longrightarrow> get q = (None, q)"
    and get_cons: "inv q \<Longrightarrow> content q = a # rest \<Longrightarrow>
      \<exists>q'. get q = (Some a, q') \<and> inv q' \<and> content q' = rest"
    and bounded: "inv q \<Longrightarrow> length (content q) \<le> cap"
begin

lemma put_inv: "inv q \<Longrightarrow> put a q = (ok, q') \<Longrightarrow> inv q'"
  using put_room [of q a] put_full [of q a] by (cases "length (content q) < cap") auto

lemma put_content:
  "inv q \<Longrightarrow> put a q = (ok, q') \<Longrightarrow> content q' = content q @ (if ok then [a] else [])"
  using put_room [of q a] put_full [of q a] by (cases "length (content q) < cap") auto

lemma put_accepts_iff: "inv q \<Longrightarrow> fst (put a q) \<longleftrightarrow> length (content q) < cap"
  using put_room [of q a] put_full [of q a] by (cases "length (content q) < cap") auto

lemma get_inv: "inv q \<Longrightarrow> get q = (r, q') \<Longrightarrow> inv q'"
  using get_empty [of q] get_cons [of q] by (cases "content q") force+

lemma get_content:
  "inv q \<Longrightarrow> get q = (r, q') \<Longrightarrow>
     content q = (case r of Some a \<Rightarrow> [a] | None \<Rightarrow> []) @ content q'"
  using get_empty [of q] get_cons [of q] by (cases "content q") force+

text \<open>Nothing is lost, duplicated or reordered: what was in the queue followed by what
  was accepted is what was delivered followed by what is still in the queue.\<close>

lemma run_conserves:
  "inv q \<Longrightarrow> fifo_run put get q ops = (acc, del, q') \<Longrightarrow>
     inv q' \<and> content q @ acc = del @ content q'"
proof (induction ops arbitrary: q acc del q')
  case Nil
  then show ?case by simp
next
  case (Cons op ops)
  show ?case
  proof (cases op)
    case (Put a)
    obtain ok q1 where p: "put a q = (ok, q1)" by (cases "put a q")
    obtain acc1 where r: "fifo_run put get q1 ops = (acc1, del, q')"
      and acc: "acc = (if ok then a # acc1 else acc1)"
      using Cons.prems(2) Put p by (auto split: prod.splits)
    from Cons.IH [OF put_inv [OF Cons.prems(1) p] r]
    show ?thesis using put_content [OF Cons.prems(1) p] acc by auto
  next
    case Take
    obtain x q1 where g: "get q = (x, q1)" by (cases "get q")
    obtain del1 where r: "fifo_run put get q1 ops = (acc, del1, q')"
      and del: "del = (case x of Some a \<Rightarrow> a # del1 | None \<Rightarrow> del1)"
      using Cons.prems(2) Take g by (auto split: prod.splits)
    from Cons.IH [OF get_inv [OF Cons.prems(1) g] r]
    show ?thesis using get_content [OF Cons.prems(1) g] del by (auto split: option.splits)
  qed
qed

lemma run_bounded:
  "inv q \<Longrightarrow> fifo_run put get q ops = (acc, del, q') \<Longrightarrow> length (content q') \<le> cap"
  using run_conserves bounded by blast

end

end
