(* ===== verification/BTree_Map.thy ===== *)
theory BTree_Map
  imports Prelude
begin

text \<open>
  Rust's \<open>BTreeMap<K, V>\<close>: an association list kept strictly ascending in the
  key, so that iterating the list visits the entries in the order the Rust
  iterator does. The locale \<open>keyed_map\<close> states what the components rely on
  (lookup after insert and after remove); the association list is its provider.
\<close>

type_synonym ('k, 'v) btree = "('k \<times> 'v) list"

abbreviation bt_get :: "('k, 'v) btree \<Rightarrow> 'k \<Rightarrow> 'v option" where
  "bt_get \<equiv> map_of"

definition bt_contains :: "('k, 'v) btree \<Rightarrow> 'k \<Rightarrow> bool" where
  "bt_contains m k = (bt_get m k \<noteq> None)"

fun bt_insert :: "'k::linorder \<Rightarrow> 'v \<Rightarrow> ('k, 'v) btree \<Rightarrow> ('k, 'v) btree" where
  "bt_insert k v [] = [(k, v)]"
| "bt_insert k v ((k', v') # m) =
     (if k < k' then (k, v) # (k', v') # m
      else if k = k' then (k, v) # m
      else (k', v') # bt_insert k v m)"

definition bt_remove :: "'k \<Rightarrow> ('k, 'v) btree \<Rightarrow> ('k, 'v) btree" where
  "bt_remove k m = filter (\<lambda>e. fst e \<noteq> k) m"

definition bt_retain :: "('k \<Rightarrow> bool) \<Rightarrow> ('k, 'v) btree \<Rightarrow> ('k, 'v) btree" where
  "bt_retain P m = filter (\<lambda>e. P (fst e)) m"

definition bt_wf :: "('k::linorder, 'v) btree \<Rightarrow> bool" where
  "bt_wf m = sorted_wrt (<) (map fst m)"

lemma bt_get_insert [simp]:
  "bt_wf m \<Longrightarrow> bt_get (bt_insert k v m) = (bt_get m)(k \<mapsto> v)"
proof (induction m)
  case (Cons e m)
  show ?case
  proof (cases "k < fst e")
    case True
    then show ?thesis by (cases e) auto
  next
    case False
    then show ?thesis using Cons by (cases e) (auto simp: bt_wf_def fun_upd_twist)
  qed
qed auto

lemma fst_set_bt_insert: "fst ` set (bt_insert k v m) = insert k (fst ` set m)"
  by (induction k v m rule: bt_insert.induct) (simp_all add: insert_commute)

lemma bt_wf_insert [simp]: "bt_wf m \<Longrightarrow> bt_wf (bt_insert k v m)"
proof (induction m)
  case (Cons e m)
  then have IH: "bt_wf (bt_insert k v m)" by (simp add: bt_wf_def)
  have keys: "set (map fst (bt_insert k v m)) = insert k (fst ` set m)"
    by (simp add: fst_set_bt_insert)
  from Cons.prems IH keys show ?case
    by (cases e) (auto simp: bt_wf_def dest: order.strict_trans)
qed (simp add: bt_wf_def)

lemma bt_get_retain: "bt_get (bt_retain P m) k = (if P k then bt_get m k else None)"
  by (induction m) (auto simp: bt_retain_def)

lemma bt_get_remove [simp]: "bt_get (bt_remove k m) = (bt_get m)(k := None)"
  by (rule ext, induction m) (auto simp: bt_remove_def)

lemma bt_wf_filter: "bt_wf m \<Longrightarrow> bt_wf (filter P m)"
  by (induction m) (auto simp: bt_wf_def)

lemma bt_wf_remove [simp]: "bt_wf m \<Longrightarrow> bt_wf (bt_remove k m)"
  by (simp add: bt_remove_def bt_wf_filter)

lemma bt_wf_retain [simp]: "bt_wf m \<Longrightarrow> bt_wf (bt_retain P m)"
  by (simp add: bt_retain_def bt_wf_filter)

lemma bt_wf_Nil [simp]: "bt_wf []"
  by (simp add: bt_wf_def)

lemma bt_wf_distinct: "bt_wf m \<Longrightarrow> distinct (map fst m)"
  by (simp add: bt_wf_def strict_sorted_iff)

lemma bt_get_mem: "bt_wf m \<Longrightarrow> bt_get m k = Some v \<longleftrightarrow> (k, v) \<in> set m"
  by (simp add: bt_wf_distinct)

lemma bt_get_in_dom: "bt_get m k \<noteq> None \<longleftrightarrow> k \<in> fst ` set m"
  by (simp add: map_of_eq_None_iff)

section \<open>The interface\<close>

locale keyed_map =
  fixes lookup :: "'m \<Rightarrow> 'k \<Rightarrow> 'v option"
    and insert_kv :: "'k \<Rightarrow> 'v \<Rightarrow> 'm \<Rightarrow> 'm"
    and remove_k :: "'k \<Rightarrow> 'm \<Rightarrow> 'm"
    and wf_map :: "'m \<Rightarrow> bool"
  assumes lookup_insert: "wf_map m \<Longrightarrow> lookup (insert_kv k v m) k' = (if k' = k then Some v else lookup m k')"
    and lookup_remove: "wf_map m \<Longrightarrow> lookup (remove_k k m) k' = (if k' = k then None else lookup m k')"
    and wf_insert: "wf_map m \<Longrightarrow> wf_map (insert_kv k v m)"
    and wf_remove: "wf_map m \<Longrightarrow> wf_map (remove_k k m)"
begin

text \<open>Inserting a batch of entries leaves every key outside the batch alone.\<close>

lemma lookup_fold_insert_other:
  "wf_map m \<Longrightarrow> k \<notin> fst ` set es \<Longrightarrow>
     lookup (fold (\<lambda>(k, v). insert_kv k v) es m) k = lookup m k"
  by (induction es arbitrary: m) (auto simp: lookup_insert wf_insert)

lemma wf_fold_insert:
  "wf_map m \<Longrightarrow> wf_map (fold (\<lambda>(k, v). insert_kv k v) es m)"
  by (induction es arbitrary: m) (auto simp: wf_insert)

lemma lookup_fold_insert:
  "wf_map m \<Longrightarrow> distinct (map fst es) \<Longrightarrow>
     lookup (fold (\<lambda>(k, v). insert_kv k v) es m) k =
       (case map_of es k of Some v \<Rightarrow> Some v | None \<Rightarrow> lookup m k)"
proof (induction es arbitrary: m)
  case (Cons e es)
  obtain k1 v1 where e: "e = (k1, v1)" by (cases e)
  from Cons.prems e have k1: "map_of es k1 = None"
    by (simp add: map_of_eq_None_iff)
  show ?case
    using Cons.IH [of "insert_kv k1 v1 m"] Cons.prems k1
    by (auto simp: e wf_insert lookup_insert split: option.splits)
qed simp

lemma replace_is_insert:
  "wf_map m \<Longrightarrow> lookup (insert_kv k v (remove_k k m)) k' = lookup (insert_kv k v m) k'"
  by (simp add: lookup_insert lookup_remove wf_remove)

end

interpretation bt: keyed_map bt_get bt_insert bt_remove bt_wf
  by unfold_locales auto

end
