(* ===== verification/Ipc.thy ===== *)
theory Ipc
  imports Wait_List Fifo BTree_Map
begin

text \<open>
  ipc/src/lib.rs: messages, ports with a bounded queue and a list of blocked
  receivers, and the global name space of ports. A port is a bounded first-in
  first-out queue (locale \<open>bounded_fifo\<close>) and a resource with a wait list (locale
  \<open>blocking_resource\<close>). An \<open>Arc<Port>\<close> is a \<open>port_ref\<close> into the heap of ports.
\<close>

abbreviation MAX_MSG_SIZE :: nat where
  "MAX_MSG_SIZE \<equiv> 128"

abbreviation PORT_QUEUE_LEN :: nat where
  "PORT_QUEUE_LEN \<equiv> 32"

record Message =
  m_sender_id :: u64
  m_id :: u64
  m_len :: u64
  m_data :: bytes

definition Message_default :: Message where
  "Message_default = \<lparr>m_sender_id = 0, m_id = 0, m_len = 0, m_data = replicate MAX_MSG_SIZE 0\<rparr>"

record Port =
  port_id :: u64
  port_queue :: "Message list"
  waiting_receivers :: "task_ref list"

definition Port_new :: "u64 \<Rightarrow> Port" where
  "Port_new i = \<lparr>port_id = i, port_queue = [], waiting_receivers = []\<rparr>"

text \<open>\<open>send\<close> returns the result, the port and the receiver to wake, if any.\<close>

definition port_send :: "Message \<Rightarrow> Port \<Rightarrow> bool \<times> Port \<times> task_ref list" where
  "port_send msg p =
     (if PORT_QUEUE_LEN \<le> length (port_queue p) then (False, p, [])
      else let p1 = p\<lparr>port_queue := port_queue p @ [msg]\<rparr>
           in case waiting_receivers p1 of
                [] \<Rightarrow> (True, p1, [])
              | t # ts \<Rightarrow> (True, p1\<lparr>waiting_receivers := ts\<rparr>, [t]))"

definition port_receive :: "Port \<Rightarrow> Message option \<times> Port" where
  "port_receive p =
     (case port_queue p of [] \<Rightarrow> (None, p) | m # q \<Rightarrow> (Some m, p\<lparr>port_queue := q\<rparr>))"

text \<open>One pass of the loop in \<open>receive_blocking\<close>: \<open>None\<close> when the task blocked (or spins, when
  there is no current task).\<close>

definition port_receive_blocking :: "Port \<Rightarrow> sched \<Rightarrow> Message option \<times> Port \<times> sched" where
  "port_receive_blocking p s =
     (case port_queue p of
        m # q \<Rightarrow> (Some m, p\<lparr>port_queue := q\<rparr>, s)
      | [] \<Rightarrow> (case current_task_arc s of
                None \<Rightarrow> (None, p, s)
              | Some c \<Rightarrow> (None, p\<lparr>waiting_receivers := waiting_receivers p @ [c]\<rparr>,
                          block_current_and_switch s)))"

type_synonym port_ref = nat

record IpcSpace =
  ipc_ports :: "(u64, port_ref) btree"
  ipc_heap :: "port_ref \<Rightarrow> Port"
  ipc_next :: port_ref

definition IpcSpace_new :: IpcSpace where
  "IpcSpace_new = \<lparr>ipc_ports = [], ipc_heap = (\<lambda>_. Port_new 0), ipc_next = 0\<rparr>"

definition create_port :: "u64 \<Rightarrow> IpcSpace \<Rightarrow> port_ref \<times> IpcSpace" where
  "create_port i sp =
     (ipc_next sp,
      sp\<lparr>ipc_ports := bt_insert i (ipc_next sp) (ipc_ports sp),
         ipc_heap := (ipc_heap sp)(ipc_next sp := Port_new i), ipc_next := Suc (ipc_next sp)\<rparr>)"

definition get_port :: "u64 \<Rightarrow> IpcSpace \<Rightarrow> port_ref option" where
  "get_port i sp = bt_get (ipc_ports sp) i"

section \<open>The port's contracts\<close>

definition port_inv :: "Port \<Rightarrow> bool" where
  "port_inv p \<longleftrightarrow> length (port_queue p) \<le> PORT_QUEUE_LEN"

interpretation port_fifo: bounded_fifo
  "\<lambda>m p. (fst (port_send m p), fst (snd (port_send m p)))" port_receive port_queue port_inv PORT_QUEUE_LEN
  by unfold_locales
    (auto simp: port_send_def port_receive_def port_inv_def Let_def split: list.splits)

definition port_release :: "Message \<Rightarrow> Port \<Rightarrow> Port \<times> task_ref list" where
  "port_release m p = snd (port_send m p)"

interpretation port_wait: blocking_resource waiting_receivers port_receive_blocking port_release
proof
  fix r s r' s' c x ws and v :: Message
  show "waiting_receivers r' = waiting_receivers r \<and> s' = s"
    if "port_receive_blocking r s = (Some v, r', s')"
    using that by (auto simp: port_receive_blocking_def split: list.splits option.splits)
  show "waiting_receivers r' = waiting_receivers r @ [c] \<and> s' = block_current_and_switch s"
    if "port_receive_blocking r s = (None, r', s')" "rq_current s = Some c"
    using that by (auto simp: port_receive_blocking_def current_task_arc_def split: list.splits)
  show "waiting_receivers r = ws @ waiting_receivers r'" if "port_release x r = (r', ws)"
    using that by (auto simp: port_release_def port_send_def Let_def split: if_splits list.splits)
qed

lemma get_port_create:
  assumes "bt_wf (ipc_ports sp)" "create_port i sp = (r, sp')"
  shows "get_port j sp' = (if j = i then Some r else get_port j sp)" "bt_wf (ipc_ports sp')"
    "ipc_heap sp' r = Port_new i"
  using assms by (auto simp: create_port_def get_port_def)

section \<open>Port and scheduler\<close>

text \<open>\<open>is_pending\<close> are the receivers that a send has woken and that have not retried yet.\<close>

record ipc_sys =
  is_port :: Port
  is_sched :: sched
  is_pending :: "task_ref list"
  is_sent :: "Message list"
  is_received :: "Message list"

inductive ipc_step :: "ipc_sys \<Rightarrow> ipc_sys \<Rightarrow> bool" where
  send: "port_send m (is_port y) = (ok, p', ws) \<Longrightarrow>
       ipc_step y (y\<lparr>is_port := p', is_sched := fold wake_task ws (is_sched y),
                     is_pending := is_pending y @ ws,
                     is_sent := is_sent y @ (if ok then [m] else [])\<rparr>)"
| recv: "port_receive (is_port y) = (r, p') \<Longrightarrow>
       ipc_step y (y\<lparr>is_port := p', is_received := is_received y @ (case r of Some m \<Rightarrow> [m] | None \<Rightarrow> [])\<rparr>)"
| recv_block: "rq_current (is_sched y) = Some c \<Longrightarrow> t_state (tcb (is_sched y) c) = Running \<Longrightarrow>
       t_kstack (tcb (is_sched y) c) \<noteq> 0 \<Longrightarrow> rq_queue (is_sched y) \<noteq> [] \<Longrightarrow>
       port_receive_blocking (is_port y) (is_sched y) = (r, p', s') \<Longrightarrow>
       ipc_step y (y\<lparr>is_port := p', is_sched := s', is_pending := remove1 c (is_pending y),
                     is_received := is_received y @ (case r of Some m \<Rightarrow> [m] | None \<Rightarrow> [])\<rparr>)"
| tick: "(\<forall>c. rq_current (is_sched y) = Some c \<longrightarrow> t_state (tcb (is_sched y) c) = Running) \<Longrightarrow>
       ipc_step y (y\<lparr>is_sched := task_schedule (is_sched y)\<rparr>)"
| run: "ipc_step y (y\<lparr>is_sched := (is_sched y)\<lparr>cpu := c\<rparr>\<rparr>)"
| spawn: "\<not> t_waiting_for_child t \<Longrightarrow>
       ipc_step y (y\<lparr>is_sched := enqueue_task (next_ref (is_sched y)) (snd (arc_new_task t (is_sched y)))\<rparr>)"

inductive ipc_reachable :: "ipc_sys \<Rightarrow> bool" where
  start: "sched_reachable s \<Longrightarrow>
     ipc_reachable \<lparr>is_port = Port_new i, is_sched = s, is_pending = [], is_sent = [], is_received = []\<rparr>"
| step: "ipc_reachable y \<Longrightarrow> ipc_step y y' \<Longrightarrow> ipc_reachable y'"

definition ipc_inv :: "ipc_sys \<Rightarrow> bool" where
  "ipc_inv y \<longleftrightarrow> port_inv (is_port y) \<and> full_inv (is_sched y)
     \<and> wakeable (waiting_receivers (is_port y)) (is_sched y)
     \<and> is_sent y = is_received y @ port_queue (is_port y)"

definition pending_inv :: "ipc_sys \<Rightarrow> bool" where
  "pending_inv y \<longleftrightarrow> distinct (is_pending y) \<and> set (is_pending y) \<subseteq> set (run_list (is_sched y))
     \<and> (\<forall>w\<in>set (is_pending y) \<union> set (waiting_receivers (is_port y)). t_kstack (tcb (is_sched y) w) \<noteq> 0)
     \<and> (waiting_receivers (is_port y) \<noteq> [] \<longrightarrow> length (port_queue (is_port y)) \<le> length (is_pending y))"

lemma ipc_inv_step:
  assumes "ipc_step y y'" "ipc_inv y"
  shows "ipc_inv y'"
  using assms
proof (induction rule: ipc_step.induct)
  case (send m y ok p' ws)
  then have i: "port_inv (is_port y)" "full_inv (is_sched y)"
    "wakeable (waiting_receivers (is_port y)) (is_sched y)" by (simp_all add: ipc_inv_def)
  have "full_inv (fold wake_task ws (is_sched y))
      \<and> wakeable (waiting_receivers p') (fold wake_task ws (is_sched y))"
    by (rule port_wait.release_keeps [OF i(2,3), of m]) (simp add: port_release_def send)
  moreover have "port_inv p'" "port_queue p' = port_queue (is_port y) @ (if ok then [m] else [])"
    using port_fifo.put_inv [OF i(1), of m ok p'] port_fifo.put_content [OF i(1), of m ok p'] send.hyps
    by simp_all
  ultimately show ?case using send by (simp add: ipc_inv_def)
next
  case (recv y r p')
  then show ?case
    by (auto simp: ipc_inv_def port_receive_def port_inv_def split: list.splits)
next
  case (recv_block y c r p' s')
  have "full_inv s' \<and> wakeable (waiting_receivers p') s'"
    using recv_block port_wait.acquire_keeps [of "is_sched y" "is_port y" c r p' s'] by (simp add: ipc_inv_def)
  then show ?case using recv_block
    by (auto simp: ipc_inv_def port_receive_blocking_def port_inv_def split: list.splits option.splits)
next
  case (tick y)
  then show ?case by (simp add: ipc_inv_def full_inv_tick wakeable_schedule)
next
  case (run y c)
  then show ?case by (simp add: ipc_inv_def full_inv_def)
next
  case (spawn t y)
  then show ?case by (simp add: ipc_inv_def full_inv_spawn wakeable_spawn)
qed

lemma ipc_inv_reachable: "ipc_reachable y \<Longrightarrow> ipc_inv y"
proof (induction rule: ipc_reachable.induct)
  case (start s i)
  then show ?case using full_inv_reachable
    by (simp add: ipc_inv_def Port_new_def port_inv_def wakeable_def)
qed (rule ipc_inv_step)

lemma pending_inv_send:
  assumes "ipc_inv y" "pending_inv y" "port_send m (is_port y) = (ok, p', ws)"
  shows "pending_inv (y\<lparr>is_port := p', is_sched := fold wake_task ws (is_sched y),
                     is_pending := is_pending y @ ws, is_sent := xs\<rparr>)"
proof (cases "PORT_QUEUE_LEN \<le> length (port_queue (is_port y)) \<or> waiting_receivers (is_port y) = []")
  case True
  then consider "ws = []" "p' = is_port y" | "ws = []" "waiting_receivers p' = []"
    using assms(3) by (auto simp: port_send_def Let_def split: if_splits list.splits)
  then show ?thesis using assms(2) by cases (auto simp: pending_inv_def)
next
  case False
  then obtain t ts where t: "waiting_receivers (is_port y) = t # ts" by (auto simp: neq_Nil_conv)
  then have "t \<notin> set (rq_refs (is_sched y))" using assms(1) by (simp add: ipc_inv_def wakeable_def)
  then have "t \<notin> set (is_pending y)" using assms(2) by (auto simp: pending_inv_def run_list_def rq_refs_def)
  moreover have "p' = (is_port y)\<lparr>port_queue := port_queue (is_port y) @ [m], waiting_receivers := ts\<rparr>" "ws = [t]"
    using assms(3) False t by (auto simp: port_send_def Let_def)
  ultimately show ?thesis using assms(2) t
    by (auto simp: pending_inv_def run_list_def cur_list_def)
qed

lemma pending_inv_recv_block:
  assumes "ipc_inv y" "pending_inv y" "rq_current (is_sched y) = Some c"
    "t_kstack (tcb (is_sched y) c) \<noteq> 0" "rq_queue (is_sched y) \<noteq> []"
    "port_receive_blocking (is_port y) (is_sched y) = (r, p', s')"
  shows "pending_inv (y\<lparr>is_port := p', is_sched := s', is_pending := remove1 c (is_pending y), is_received := xs\<rparr>)"
proof (cases "port_queue (is_port y)")
  case Nil
  then have e: "p' = (is_port y)\<lparr>waiting_receivers := waiting_receivers (is_port y) @ [c]\<rparr>"
    "s' = block_current_and_switch (is_sched y)"
    using assms(3,6) by (auto simp: port_receive_blocking_def current_task_arc_def)
  have "set (remove1 c (is_pending y)) \<subseteq> set (rq_queue (is_sched y))"
    using assms(2,3) by (auto simp: pending_inv_def run_list_def cur_list_def)
  then show ?thesis
    using assms(2,4) Nil e run_list_block [OF assms(3,5)] notin_set_remove1
    by (auto simp: pending_inv_def dest: notin_set_remove1)
next
  case (Cons m q)
  then have e: "p' = (is_port y)\<lparr>port_queue := q\<rparr>" "s' = is_sched y"
    using assms(6) by (auto simp: port_receive_blocking_def)
  have "length (is_pending y) \<le> Suc (length (remove1 c (is_pending y)))" by (auto simp: length_remove1)
  then show ?thesis using assms(2) Cons e by (auto simp: pending_inv_def dest: notin_set_remove1)
qed

lemma pending_inv_step:
  assumes "ipc_step y y'" "ipc_inv y" "pending_inv y"
  shows "pending_inv y'"
  using assms
proof (induction rule: ipc_step.induct)
  case (send m y ok p' ws)
  then show ?case by (rule_tac pending_inv_send)
next
  case (recv y r p')
  then show ?case by (auto simp: pending_inv_def port_receive_def split: list.splits)
next
  case (recv_block y c r p' s')
  then show ?case by (rule_tac pending_inv_recv_block)
next
  case (tick y)
  then show ?case using run_list_schedule by (fastforce simp: pending_inv_def)
next
  case (run y c)
  then show ?case by (simp add: pending_inv_def)
next
  case (spawn t y)
  then have "\<forall>w\<in>set (is_pending y) \<union> set (waiting_receivers (is_port y)). w < next_ref (is_sched y)"
    by (auto simp: ipc_inv_def pending_inv_def full_inv_def sched_inv_def run_list_def rq_refs_def wakeable_def)
  then have "\<forall>w\<in>set (is_pending y) \<union> set (waiting_receivers (is_port y)). w \<noteq> next_ref (is_sched y)"
    by blast
  then show ?case using spawn.prems(2) by (auto simp: pending_inv_def kstack_spawn)
qed

lemma pending_inv_reachable: "ipc_reachable y \<Longrightarrow> pending_inv y"
proof (induction rule: ipc_reachable.induct)
  case (start s i)
  show ?case by (simp add: pending_inv_def Port_new_def)
next
  case (step y y')
  then show ?case using pending_inv_step ipc_inv_reachable by blast
qed

section \<open>Properties\<close>

text \<open>C6: Messages are delivered exactly once and in order, and a port never holds more than 32: under
  every interleaving of sends, receives, blocking receives, waking and preemption, the messages
  accepted by \<open>send\<close> are the messages received followed by the messages still queued.\<close>

theorem ipc_exactly_once:
  assumes "ipc_reachable y"
  shows "is_sent y = is_received y @ port_queue (is_port y) \<and> length (port_queue (is_port y)) \<le> PORT_QUEUE_LEN"
  using ipc_inv_reachable [OF assms] by (simp add: ipc_inv_def port_inv_def)

definition demo_ipc0 :: ipc_sys where
  "demo_ipc0 = \<lparr>is_port = Port_new 5, is_sched = demo_sched 1, is_pending = [], is_sent = [], is_received = []\<rparr>"

definition demo_ipc1 :: ipc_sys where
  "demo_ipc1 = demo_ipc0\<lparr>is_port := (Port_new 5)\<lparr>waiting_receivers := [1]\<rparr>,
                         is_sched := block_current_and_switch (demo_sched 1)\<rparr>"

definition demo_ipc2 :: ipc_sys where
  "demo_ipc2 = demo_ipc1\<lparr>is_port := (Port_new 5)\<lparr>port_queue := [Message_default]\<rparr>,
     is_sched := fold wake_task [1] (is_sched demo_ipc1), is_pending := [1], is_sent := [Message_default]\<rparr>"

lemma demo_ipc1_reachable: "ipc_reachable demo_ipc1"
proof -
  have c: "rq_current (is_sched demo_ipc0) = Some 1"
    "t_state (tcb (is_sched demo_ipc0) 1) = Running" "t_kstack (tcb (is_sched demo_ipc0) 1) \<noteq> 0"
    "rq_queue (is_sched demo_ipc0) \<noteq> []"
    by (simp_all add: demo_ipc0_def task_schedule_def demo_simps)
  have r: "port_receive_blocking (is_port demo_ipc0) (is_sched demo_ipc0)
      = (None, (Port_new 5)\<lparr>waiting_receivers := [1]\<rparr>, block_current_and_switch (demo_sched 1))"
    using demo_sched_1_cur
    by (simp add: demo_ipc0_def port_receive_blocking_def Port_new_def current_task_arc_def)
  have "ipc_reachable demo_ipc0" unfolding demo_ipc0_def by (rule start [OF demo_sched_1])
  from step [OF this recv_block [OF c r]] show ?thesis by (simp add: demo_ipc1_def demo_ipc0_def)
qed

lemma demo_ipc2_reachable: "ipc_reachable demo_ipc2"
proof -
  have "port_send Message_default (is_port demo_ipc1)
      = (True, (Port_new 5)\<lparr>port_queue := [Message_default]\<rparr>, [1])"
    by (simp add: demo_ipc1_def Port_new_def port_send_def)
  from step [OF demo_ipc1_reachable send [OF this]] show ?thesis
    by (simp add: demo_ipc2_def demo_ipc1_def demo_ipc0_def)
qed

theorem ipc_exactly_once_witness:
  "ipc_reachable demo_ipc2 \<and> is_sent demo_ipc2 = is_received demo_ipc2 @ port_queue (is_port demo_ipc2)"
  using ipc_exactly_once [OF demo_ipc2_reachable] demo_ipc2_reachable by blast



end
