(* ===== verification/Keyboard.thy ===== *)
theory Keyboard
  imports Ring Fifo
begin

text \<open>
  keyboard/src/lib.rs: the interrupt-safe ring buffer between the PS/2 interrupt
  handler (\<open>handle_scancode\<close>, the producer) and \<open>pop_key\<close> (the consumer). The
  mutex and the interrupt guard around each access make every operation atomic.
\<close>

abbreviation BUF_SIZE :: nat where
  "BUF_SIZE \<equiv> 128"

record RingBuffer =
  rb_data :: bytes
  rb_head :: nat
  rb_tail :: nat

definition SCANCODE_TO_ASCII :: bytes where
  "SCANCODE_TO_ASCII =
    [0, 27, 49, 50, 51, 52, 53, 54, 55, 56, 57, 48, 45, 61, 8, 9, 113,
     119, 101, 114, 116, 121, 117, 105, 111, 112, 91, 93, 10, 0, 97, 115, 100,
     102, 103, 104, 106, 107, 108, 59, 39, 96, 0, 92, 122, 120, 99, 118, 98,
     110, 109, 44, 46, 47, 0, 42, 0, 32] @ replicate 70 0"

definition rb_new :: RingBuffer where
  "rb_new = \<lparr>rb_data = replicate BUF_SIZE 0, rb_head = 0, rb_tail = 0\<rparr>"

definition rb_push :: "u8 \<Rightarrow> RingBuffer \<Rightarrow> RingBuffer" where
  "rb_push val rb =
     (let nxt = (rb_head rb + 1) mod BUF_SIZE
      in if nxt \<noteq> rb_tail rb
         then rb\<lparr>rb_data := (rb_data rb)[rb_head rb := val], rb_head := nxt\<rparr>
         else rb)"

definition rb_pop :: "RingBuffer \<Rightarrow> u8 option \<times> RingBuffer" where
  "rb_pop rb =
     (if rb_head rb = rb_tail rb then (None, rb)
      else (Some (rb_data rb ! rb_tail rb), rb\<lparr>rb_tail := (rb_tail rb + 1) mod BUF_SIZE\<rparr>))"

definition handle_scancode :: "u8 \<Rightarrow> RingBuffer \<Rightarrow> RingBuffer" where
  "handle_scancode scancode rb =
     (if scancode AND 0x80 \<noteq> 0 then rb
      else if unat scancode < length SCANCODE_TO_ASCII
      then (let ascii = SCANCODE_TO_ASCII ! unat scancode
            in if ascii \<noteq> 0 then rb_push ascii rb else rb)
      else rb)"

definition pop_key :: "RingBuffer \<Rightarrow> u8 option \<times> RingBuffer" where
  "pop_key rb = rb_pop rb"

text \<open>Invariant and abstraction. The array has its declared length and both indices stay
  below it, so the bounds checks of \<open>push\<close> and \<open>pop\<close> never fail.\<close>

definition rb_inv :: "RingBuffer \<Rightarrow> bool" where
  "rb_inv rb \<longleftrightarrow> length (rb_data rb) = BUF_SIZE \<and> rb_head rb < BUF_SIZE \<and> rb_tail rb < BUF_SIZE"

definition rb_count :: "RingBuffer \<Rightarrow> nat" where
  "rb_count rb = (rb_head rb + BUF_SIZE - rb_tail rb) mod BUF_SIZE"

definition rb_list :: "RingBuffer \<Rightarrow> bytes" where
  "rb_list rb = ring_content (rb_data rb) (rb_tail rb) (rb_count rb)"

lemma rb_count_less: "rb_count rb < BUF_SIZE"
  by (simp add: rb_count_def)

lemma rb_list_count: "length (rb_list rb) = rb_count rb"
  by (simp add: rb_list_def)

lemma rb_count_eq:
  "rb_inv rb \<Longrightarrow>
     rb_count rb = (if rb_tail rb \<le> rb_head rb then rb_head rb - rb_tail rb
                    else rb_head rb + BUF_SIZE - rb_tail rb)"
  by (auto simp: rb_inv_def rb_count_def mod_if)

lemma rb_next_eq: "h < BUF_SIZE \<Longrightarrow> (h + 1) mod BUF_SIZE = (if h = 127 then 0 else h + 1)"
  by simp

lemma rb_full_iff:
  assumes "rb_inv rb"
  shows "(rb_head rb + 1) mod BUF_SIZE = rb_tail rb \<longleftrightarrow> rb_count rb = 127"
  using assms unfolding rb_count_eq [OF assms]
  by (subst rb_next_eq) (auto simp: rb_inv_def)

lemma rb_empty_iff: "rb_inv rb \<Longrightarrow> rb_head rb = rb_tail rb \<longleftrightarrow> rb_count rb = 0"
  by (subst rb_count_eq) (auto simp: rb_inv_def)

lemma rb_head_eq:
  assumes "rb_inv rb"
  shows "(rb_tail rb + rb_count rb) mod BUF_SIZE = rb_head rb"
  using assms unfolding rb_count_eq [OF assms] by (auto simp: rb_inv_def)

lemma rb_push_room:
  assumes "rb_inv rb" "rb_count rb < 127"
  shows "rb_inv (rb_push v rb)" "rb_list (rb_push v rb) = rb_list rb @ [v]"
proof -
  have len: "length (rb_data rb) = BUF_SIZE" using assms by (simp add: rb_inv_def)
  have nf: "(rb_head rb + 1) mod BUF_SIZE \<noteq> rb_tail rb"
    using assms rb_full_iff [OF assms(1)] by auto
  then have p: "rb_push v rb =
      rb\<lparr>rb_data := (rb_data rb)[rb_head rb := v], rb_head := (rb_head rb + 1) mod BUF_SIZE\<rparr>"
    by (simp add: rb_push_def Let_def)
  show inv': "rb_inv (rb_push v rb)" using assms by (simp add: p rb_inv_def)
  have c: "rb_count (rb_push v rb) = Suc (rb_count rb)"
    using assms nf rb_count_eq [OF inv'] rb_count_eq [OF assms(1)] rb_next_eq [of "rb_head rb"]
    by (auto simp: p rb_inv_def split: if_splits)
  have "rb_list (rb_push v rb) =
      ring_content ((rb_data rb)[(rb_tail rb + rb_count rb) mod length (rb_data rb) := v])
        (rb_tail rb) (Suc (rb_count rb))"
    unfolding rb_list_def c using assms by (simp add: p len rb_head_eq)
  also have "\<dots> = rb_list rb @ [v]"
    using ring_content_push [of "rb_count rb" "rb_data rb" "rb_tail rb" v] len rb_count_less [of rb]
    by (simp add: rb_list_def)
  finally show "rb_list (rb_push v rb) = rb_list rb @ [v]" .
qed

lemma rb_push_full: "rb_inv rb \<Longrightarrow> 127 \<le> rb_count rb \<Longrightarrow> rb_push v rb = rb"
  using rb_full_iff [of rb] rb_count_less [of rb] by (simp add: rb_push_def)

lemma rb_pop_some:
  assumes "rb_inv rb" "0 < rb_count rb"
  shows "\<exists>rb'. rb_pop rb = (Some (hd (rb_list rb)), rb') \<and> rb_inv rb' \<and> rb_list rb' = tl (rb_list rb)"
proof -
  have len: "length (rb_data rb) = BUF_SIZE" and t: "rb_tail rb < BUF_SIZE"
    using assms by (simp_all add: rb_inv_def)
  have ne: "rb_head rb \<noteq> rb_tail rb" using assms rb_empty_iff by auto
  let ?rb' = "rb\<lparr>rb_tail := (rb_tail rb + 1) mod BUF_SIZE\<rparr>"
  have p: "rb_pop rb = (Some (rb_data rb ! rb_tail rb), ?rb')"
    using ne by (simp add: rb_pop_def)
  have h: "hd (rb_list rb) = rb_data rb ! rb_tail rb"
    using assms t len by (simp add: rb_list_def hd_conv_nth ring_content_def)
  have inv': "rb_inv ?rb'" using assms by (simp add: rb_inv_def)
  have c: "rb_count ?rb' = rb_count rb - 1"
    using assms ne rb_count_eq [OF inv'] rb_count_eq [OF assms(1)] rb_next_eq [OF t]
    by (auto simp: rb_inv_def split: if_splits)
  have "rb_list ?rb' = tl (rb_list rb)"
    using assms c ring_content_drop [of 1 "rb_count rb" "rb_data rb" "rb_tail rb"] len
    by (simp add: rb_list_def drop_Suc)
  then show ?thesis using p h inv' by simp
qed

interpretation kbd: bounded_fifo
  "\<lambda>v rb. (rb_count rb < 127, rb_push v rb)" rb_pop rb_list rb_inv 127
proof
  fix q :: RingBuffer and a rest
  assume q: "rb_inv q"
  show "\<exists>q'. (rb_count q < 127, rb_push a q) = (True, q') \<and> rb_inv q' \<and> rb_list q' = rb_list q @ [a]"
    if "length (rb_list q) < 127"
    using that rb_push_room [OF q, of a] by (simp add: rb_list_def)
  show "(rb_count q < 127, rb_push a q) = (False, q)" if "127 \<le> length (rb_list q)"
    using that rb_push_full [OF q, of a] by (simp add: rb_list_def)
  show "rb_pop q = (None, q)" if "rb_list q = []"
    using that rb_empty_iff [OF q] rb_list_count [of q] by (simp add: rb_pop_def)
  show "\<exists>q'. rb_pop q = (Some a, q') \<and> rb_inv q' \<and> rb_list q' = rest" if "rb_list q = a # rest"
    using that rb_pop_some [OF q] rb_list_count [of q] by simp
  show "length (rb_list q) \<le> 127"
    using rb_count_less [of q] by (simp add: rb_list_def)
qed

section \<open>The driver against a queue of decoded keys\<close>

text \<open>\<open>decode_scancode\<close> is the translation alone; the abstract driver keeps a list.\<close>

definition decode_scancode :: "u8 \<Rightarrow> u8 option" where
  "decode_scancode sc =
     (if sc AND 0x80 \<noteq> 0 \<or> length SCANCODE_TO_ASCII \<le> unat sc
         \<or> SCANCODE_TO_ASCII ! unat sc = 0 then None
      else Some (SCANCODE_TO_ASCII ! unat sc))"

datatype kbd_event = Scancode u8 | PopKey

fun kbd_run :: "RingBuffer \<Rightarrow> kbd_event list \<Rightarrow> bytes \<times> RingBuffer" where
  "kbd_run rb [] = ([], rb)"
| "kbd_run rb (Scancode sc # es) = kbd_run (handle_scancode sc rb) es"
| "kbd_run rb (PopKey # es) =
     (case pop_key rb of
        (None, rb') \<Rightarrow> kbd_run rb' es
      | (Some k, rb') \<Rightarrow> (let (ks, rb'') = kbd_run rb' es in (k # ks, rb'')))"

fun kbd_spec :: "bytes \<Rightarrow> kbd_event list \<Rightarrow> bytes \<times> bytes" where
  "kbd_spec q [] = ([], q)"
| "kbd_spec q (Scancode sc # es) =
     (case decode_scancode sc of
        Some k \<Rightarrow> kbd_spec (if length q < 127 then q @ [k] else q) es
      | None \<Rightarrow> kbd_spec q es)"
| "kbd_spec [] (PopKey # es) = kbd_spec [] es"
| "kbd_spec (k # q) (PopKey # es) = (let (ks, q') = kbd_spec q es in (k # ks, q'))"

lemma handle_scancode_decode:
  "handle_scancode sc rb = (case decode_scancode sc of Some k \<Rightarrow> rb_push k rb | None \<Rightarrow> rb)"
  by (simp add: handle_scancode_def decode_scancode_def Let_def)

lemma rb_push_spec:
  assumes "rb_inv rb"
  shows "rb_inv (rb_push k rb) \<and>
    rb_list (rb_push k rb) = (if length (rb_list rb) < 127 then rb_list rb @ [k] else rb_list rb)"
  using rb_push_room [OF assms, of k] rb_push_full [OF assms, of k] assms
  by (cases "rb_count rb < 127") (simp_all add: rb_list_count)

lemma kbd_run_refines:
  "rb_inv rb \<Longrightarrow> kbd_run rb es = (ks, rb') \<Longrightarrow>
     rb_inv rb' \<and> kbd_spec (rb_list rb) es = (ks, rb_list rb')"
proof (induction es arbitrary: rb ks rb')
  case (Cons e es)
  note IH = Cons.IH and prems = Cons.prems
  show ?case
  proof (cases e)
    case (Scancode sc)
    show ?thesis
    proof (cases "decode_scancode sc")
      case None
      then show ?thesis using Cons Scancode by (simp add: handle_scancode_decode)
    next
      case (Some k)
      with Cons.prems Scancode have "kbd_run (rb_push k rb) es = (ks, rb')"
        by (simp add: handle_scancode_decode)
      then show ?thesis
        using Cons.IH [of "rb_push k rb" ks rb'] rb_push_spec [OF Cons.prems(1), of k] Scancode Some
        by simp
    qed
  next
    case PopKey
    show ?thesis
    proof (cases "rb_list rb")
      case Nil
      then have "rb_pop rb = (None, rb)" by (rule kbd.get_empty [OF Cons.prems(1)])
      then show ?thesis using Cons.prems Cons.IH [of rb ks rb'] PopKey Nil
        by (simp add: pop_key_def)
    next
      case (Cons k q)
      then obtain rb1 where p: "rb_pop rb = (Some k, rb1)" "rb_inv rb1" "rb_list rb1 = q"
        using kbd.get_cons [OF prems(1)] by blast
      with prems PopKey obtain ks1 where ks: "kbd_run rb1 es = (ks1, rb')" "ks = k # ks1"
        by (auto simp: pop_key_def split: prod.splits)
      show ?thesis using IH [OF p(2) ks(1)] p ks(2) PopKey Cons by simp
    qed
  qed
qed simp

lemma rb_new_inv [simp]: "rb_inv rb_new" "rb_list rb_new = []"
  by (simp_all add: rb_inv_def rb_new_def rb_list_def rb_count_def)

text \<open>C31: for every interleaving of keyboard interrupts and \<open>pop_key\<close> calls from boot, the
  ring buffer behaves as a queue of decoded keys of capacity 127: the keys delivered and the
  keys still buffered are those of the abstract queue, so no key is reordered, duplicated or
  lost other than those arriving while 127 keys are pending.\<close>

theorem keyboard_refines_queue:
  "kbd_spec [] es = (fst (kbd_run rb_new es), rb_list (snd (kbd_run rb_new es)))"
  using kbd_run_refines [OF rb_new_inv(1)] by (metis prod.collapse rb_new_inv(2))

end
