(* ===== verification/Executor.thy ===== *)
theory Executor
  imports Prelude
begin

text \<open>
  task/src/executor.rs and the executor of task/src/lib.rs: two round-robin executors
  of asynchronous tasks with the same fields, which differ in how \<open>poll_all\<close> walks the
  tasks. The futures are code the executor is given; polling one is the parameter
  \<open>poll\<close>, which returns the future's next state and whether it is ready.
\<close>

record 'f executor =
  ex_tasks :: "'f list"
  current_task_index :: nat

definition executor_new :: "'f executor" where
  "executor_new = \<lparr>ex_tasks = [], current_task_index = 0\<rparr>"

definition executor_spawn :: "'f \<Rightarrow> 'f executor \<Rightarrow> 'f executor" where
  "executor_spawn f e = e\<lparr>ex_tasks := ex_tasks e @ [f]\<rparr>"

definition remove_nth :: "nat \<Rightarrow> 'a list \<Rightarrow> 'a list" where
  "remove_nth i xs = take i xs @ drop (Suc i) xs"

definition poll_next_task :: "('f \<Rightarrow> 'f \<times> bool) \<Rightarrow> 'f executor \<Rightarrow> 'f executor" where
  "poll_next_task poll e =
     (if ex_tasks e = [] then e
      else let i = current_task_index e
           in if length (ex_tasks e) \<le> i then e
              else case poll (ex_tasks e ! i) of
                     (_, True) \<Rightarrow>
                       (let ts = remove_nth i (ex_tasks e)
                        in \<lparr>ex_tasks = ts,
                            current_task_index = (if length ts \<le> i \<and> ts \<noteq> [] then 0 else i)\<rparr>)
                   | (f', False) \<Rightarrow>
                       \<lparr>ex_tasks = (ex_tasks e)[i := f'],
                        current_task_index = (i + 1) mod length (ex_tasks e)\<rparr>)"

fun poll_loop :: "('f \<Rightarrow> 'f \<times> bool) \<Rightarrow> nat \<Rightarrow> 'f executor \<Rightarrow> 'f executor" where
  "poll_loop poll 0 e = e"
| "poll_loop poll (Suc n) e =
     (let e1 = poll_next_task poll e
      in if ex_tasks e1 = [] then e1 else poll_loop poll n e1)"

definition poll_all :: "('f \<Rightarrow> 'f \<times> bool) \<Rightarrow> 'f executor \<Rightarrow> 'f executor" where
  "poll_all poll e = poll_loop poll (length (ex_tasks e)) e"

text \<open>\<open>poll_all\<close> of task/src/lib.rs: each task is popped from the front and pushed to the back
  unless it is finished.\<close>

fun poll_front_loop :: "('f \<Rightarrow> 'f \<times> bool) \<Rightarrow> nat \<Rightarrow> 'f list \<Rightarrow> 'f list" where
  "poll_front_loop poll 0 ts = ts"
| "poll_front_loop poll (Suc n) [] = poll_front_loop poll n []"
| "poll_front_loop poll (Suc n) (t # ts) =
     (case poll t of
        (_, True) \<Rightarrow> poll_front_loop poll n ts
      | (t', False) \<Rightarrow> poll_front_loop poll n (ts @ [t']))"

definition poll_all_front :: "('f \<Rightarrow> 'f \<times> bool) \<Rightarrow> 'f executor \<Rightarrow> 'f executor" where
  "poll_all_front poll e = e\<lparr>ex_tasks := poll_front_loop poll (length (ex_tasks e)) (ex_tasks e)\<rparr>"

definition executor_yield :: "'f executor \<Rightarrow> 'f executor" where
  "executor_yield e =
     (if ex_tasks e = [] then e
      else e\<lparr>current_task_index := (current_task_index e + 1) mod length (ex_tasks e)\<rparr>)"

section \<open>The executor as a queue\<close>

text \<open>The tasks in the order in which they will be polled.\<close>

definition ex_queue :: "'f executor \<Rightarrow> 'f list" where
  "ex_queue e = drop (current_task_index e) (ex_tasks e) @ take (current_task_index e) (ex_tasks e)"

definition ex_inv :: "'f executor \<Rightarrow> bool" where
  "ex_inv e \<longleftrightarrow> current_task_index e < length (ex_tasks e) \<or> ex_tasks e = [] \<and> current_task_index e = 0"

lemma poll_next_queue:
  assumes "ex_inv e" "ex_queue e = f # q"
  shows "ex_inv (poll_next_task poll e)"
    "ex_queue (poll_next_task poll e) = (if snd (poll f) then q else q @ [fst (poll f)])"
proof -
  let ?i = "current_task_index e" and ?ts = "ex_tasks e"
  have i: "?i < length ?ts" using assms by (auto simp: ex_inv_def ex_queue_def)
  then have d: "drop ?i ?ts = ?ts ! ?i # drop (Suc ?i) ?ts" by (simp add: Cons_nth_drop_Suc)
  then have f: "f = ?ts ! ?i" "q = drop (Suc ?i) ?ts @ take ?i ?ts"
    using assms(2) by (simp_all add: ex_queue_def)
  obtain f' r where p: "poll f = (f', r)" by (cases "poll f")
  have "ex_inv (poll_next_task poll e) \<and>
    ex_queue (poll_next_task poll e) = (if snd (poll f) then q else q @ [fst (poll f)])"
  proof (cases r)
    case True
    then have e: "poll_next_task poll e = \<lparr>ex_tasks = remove_nth ?i ?ts,
        current_task_index = (if length (remove_nth ?i ?ts) \<le> ?i \<and> remove_nth ?i ?ts \<noteq> [] then 0 else ?i)\<rparr>"
      using i p f by (auto simp: poll_next_task_def Let_def)
    have l: "length (remove_nth ?i ?ts) = length ?ts - 1" using i by (simp add: remove_nth_def)
    show ?thesis
    proof (cases "Suc ?i = length ?ts")
      case True
      then show ?thesis using e i l p \<open>r\<close> f
        by (cases "?i = 0") (auto simp: ex_inv_def ex_queue_def remove_nth_def)
    next
      case False
      then show ?thesis using e i l p \<open>r\<close> f by (auto simp: ex_inv_def ex_queue_def remove_nth_def)
    qed
  next
    case False
    then have e: "poll_next_task poll e = \<lparr>ex_tasks = ?ts[?i := f'], current_task_index = (?i + 1) mod length ?ts\<rparr>"
      using i p f by (auto simp: poll_next_task_def Let_def)
    show ?thesis
    proof (cases "Suc ?i = length ?ts")
      case True
      have "?ts[?i := f'] = take ?i ?ts @ [f']"
        using True i by (simp add: list_update_append1 upd_conv_take_nth_drop)
      then show ?thesis using e True p \<open>\<not> r\<close> f by (auto simp: ex_inv_def ex_queue_def)
    next
      case F: False
      have "drop (Suc ?i) (?ts[?i := f']) = drop (Suc ?i) ?ts"
        "take (Suc ?i) (?ts[?i := f']) = take ?i ?ts @ [f']"
        using i by (simp_all add: take_Suc_conv_app_nth)
      then show ?thesis using e i F p \<open>\<not> r\<close> f by (auto simp: ex_inv_def ex_queue_def)
    qed
  qed
  then show "ex_inv (poll_next_task poll e)"
    "ex_queue (poll_next_task poll e) = (if snd (poll f) then q else q @ [fst (poll f)])" by simp_all
qed

lemma ex_queue_Nil: "ex_inv e \<Longrightarrow> ex_queue e = [] \<longleftrightarrow> ex_tasks e = []"
  by (auto simp: ex_inv_def ex_queue_def)

lemma poll_loop_queue:
  "ex_inv e \<Longrightarrow> ex_queue e = xs @ ys \<Longrightarrow>
     ex_inv (poll_loop poll (length xs) e) \<and>
     ex_queue (poll_loop poll (length xs) e) = ys @ map fst (filter (\<lambda>r. \<not> snd r) (map poll xs))"
proof (induction xs arbitrary: e ys)
  case (Cons x xs)
  then have q: "ex_queue e = x # (xs @ ys)" by simp
  let ?e = "poll_next_task poll e"
  let ?t = "if snd (poll x) then [] else [fst (poll x)]"
  have n: "ex_inv ?e" "ex_queue ?e = xs @ (ys @ ?t)" using poll_next_queue [OF Cons.prems(1) q, of poll] by auto
  show ?case
  proof (cases "ex_tasks ?e = []")
    case True
    then have "xs = []" "ys = []" "snd (poll x)" using n ex_queue_Nil [OF n(1)] by (auto split: if_splits)
    then show ?thesis using True n by simp
  next
    case False
    then show ?thesis using Cons.IH [OF n] by (cases "snd (poll x)") simp_all
  qed
qed simp

lemma poll_front_loop_split:
  "poll_front_loop poll (length xs) (xs @ ys) = ys @ map fst (filter (\<lambda>r. \<not> snd r) (map poll xs))"
  by (induction xs arbitrary: ys) (auto split: prod.splits bool.splits)

text \<open>Both executors poll every task exactly once per \<open>poll_all\<close>: the indexed one in round-robin
  order from its current task, the popping one from the front. The futures that are ready leave,
  the others stay in order with their new states, and from index 0 the two agree.\<close>

theorem poll_all_once:
  assumes "ex_inv e"
  shows "ex_inv (poll_all poll e)
    \<and> ex_queue (poll_all poll e) = map fst (filter (\<lambda>r. \<not> snd r) (map poll (ex_queue e)))
    \<and> ex_tasks (poll_all_front poll e) = map fst (filter (\<lambda>r. \<not> snd r) (map poll (ex_tasks e)))
    \<and> (current_task_index e = 0 \<longrightarrow> ex_queue (poll_all poll e) = ex_tasks (poll_all_front poll e))"
proof -
  have l: "length (ex_queue e) = length (ex_tasks e)" by (simp add: ex_queue_def)
  have f: "ex_tasks (poll_all_front poll e) = map fst (filter (\<lambda>r. \<not> snd r) (map poll (ex_tasks e)))"
    using poll_front_loop_split [of poll "ex_tasks e" "[]"] by (simp add: poll_all_front_def)
  have "current_task_index e = 0 \<longrightarrow> ex_queue e = ex_tasks e" by (simp add: ex_queue_def)
  then show ?thesis
    using poll_loop_queue [OF assms, of "ex_queue e" "[]" poll] l f by (auto simp: poll_all_def)
qed

theorem poll_all_once_witness:
  "ex_queue (poll_all (\<lambda>n. (n - 1, n \<le> 1)) \<lparr>ex_tasks = [3, 1, 2 :: nat], current_task_index = 1\<rparr>) = [1, 2]"
proof -
  have "ex_inv \<lparr>ex_tasks = [3, 1, 2 :: nat], current_task_index = 1\<rparr>" by (simp add: ex_inv_def)
  from poll_all_once [OF this, of "\<lambda>n. (n - 1, n \<le> 1)"] show ?thesis by (simp add: ex_queue_def)
qed

end
