(* ===== verification/Console.thy ===== *)
theory Console
  imports Prelude
begin

unbundle bit_operations_syntax

text \<open>
  graphics/src/console/mod.rs and graphics/src/lib.rs: the text consoles on the framebuffer. The framebuffer is the
  list of its bytes; an access outside it is undefined and an out-of-range index of the font panics, both
  \<open>None\<close>. The font is the file the build includes, a list of bytes kept with the console. Sizes are
  naturals: a coordinate never leaves the framebuffer (\<open>tty_inv\<close>), so no sum of the source wraps.
\<close>

section \<open>Pixels\<close>

text \<open>A loop whose body may fail.\<close>

fun for_each :: "('a \<Rightarrow> 's \<Rightarrow> 's option) \<Rightarrow> 'a list \<Rightarrow> 's \<Rightarrow> 's option" where
  "for_each f [] s = Some s"
| "for_each f (x # xs) s = do { s \<leftarrow> f x s; for_each f xs s }"

definition put_bytes :: "nat \<Rightarrow> bytes \<Rightarrow> bytes \<Rightarrow> bytes option" where
  "put_bytes off bs fb = (if off + length bs \<le> length fb then Some (overlay fb off bs) else None)"

definition move_bytes :: "nat \<Rightarrow> nat \<Rightarrow> nat \<Rightarrow> bytes \<Rightarrow> bytes option" where
  "move_bytes src dst n fb = do { bs \<leftarrow> slice fb src (src + n); put_bytes dst bs fb }"

abbreviation FONT_WIDTH :: nat where "FONT_WIDTH \<equiv> 8"
abbreviation FONT_HEIGHT :: nat where "FONT_HEIGHT \<equiv> 16"

text \<open>The eight by sixteen pixels of a glyph at a position counted in pixels.\<close>

definition draw_glyph :: "nat \<Rightarrow> bytes \<Rightarrow> nat \<Rightarrow> nat \<Rightarrow> bytes \<Rightarrow> bytes \<Rightarrow> bytes \<Rightarrow> bytes option" where
  "draw_glyph pitch glyph screen_x screen_y on off fb =
     for_each (\<lambda>(row, col). put_bytes ((screen_y + row) * pitch + (screen_x + col) * 4) (if bit (glyph ! row) (7 - col) then on else off))
       (List.product [0..<FONT_HEIGHT] [0..<FONT_WIDTH]) fb"

section \<open>The kernel terminal\<close>

record Tty =
  tty_fb :: bytes
  fb_width :: nat
  fb_height :: nat
  fb_pitch :: nat
  tty_cols :: nat
  tty_rows :: nat
  tty_x :: nat
  tty_y :: nat
  color_fg :: u32
  color_bg :: u32
  FONT_8X16 :: bytes

definition tty_clear :: "Tty \<Rightarrow> Tty option" where
  "tty_clear t =
     do { fb \<leftarrow> put_bytes 0 (replicate (fb_pitch t * fb_height t) 0) (tty_fb t);
          Some (t\<lparr>tty_fb := fb, tty_x := 0, tty_y := 0\<rparr>) }"

text \<open>Without rows the size of the copy underflows, which is an access out of range.\<close>

definition tty_scroll :: "Tty \<Rightarrow> Tty option" where
  "tty_scroll t =
     (let line_size = fb_pitch t * FONT_HEIGHT;
          total_size = line_size * tty_rows t
      in if total_size < line_size then None
         else do { fb \<leftarrow> move_bytes line_size 0 (total_size - line_size) (tty_fb t);
                   fb \<leftarrow> put_bytes (total_size - line_size) (replicate line_size 0) fb;
                   Some (t\<lparr>tty_fb := fb\<rparr>) })"

definition new_line :: "Tty \<Rightarrow> Tty option" where
  "new_line t =
     (let t = t\<lparr>tty_x := 0, tty_y := tty_y t + 1\<rparr>
      in if tty_rows t \<le> tty_y t then do { t \<leftarrow> tty_scroll t; Some (t\<lparr>tty_y := tty_rows t - 1\<rparr>) }
         else Some t)"

definition tty_draw_char :: "nat \<Rightarrow> nat \<Rightarrow> nat \<Rightarrow> Tty \<Rightarrow> Tty option" where
  "tty_draw_char cx cy c t =
     (let glyph_index = (if 0x20 \<le> c \<and> c \<le> 0x7E then c else 0xFE)
      in do { glyph \<leftarrow> slice (FONT_8X16 t) (glyph_index * 16) ((glyph_index + 1) * 16);
              fb \<leftarrow> draw_glyph (fb_pitch t) glyph (cx * FONT_WIDTH) (cy * FONT_HEIGHT) (to_le 4 (color_fg t)) (to_le 4 (color_bg t)) (tty_fb t);
              Some (t\<lparr>tty_fb := fb\<rparr>) })"

definition write_char :: "nat \<Rightarrow> Tty \<Rightarrow> Tty option" where
  "write_char c t =
     (if c = 0x0A then new_line t
      else if c = 0x08 then
        (if 0 < tty_x t then (let t = t\<lparr>tty_x := tty_x t - 1\<rparr> in tty_draw_char (tty_x t) (tty_y t) 0x20 t) else Some t)
      else do { t \<leftarrow> (if tty_cols t \<le> tty_x t then new_line t else Some t);
                t \<leftarrow> tty_draw_char (tty_x t) (tty_y t) c t;
                Some (t\<lparr>tty_x := tty_x t + 1\<rparr>) })"

text \<open>The characters of a well-formed UTF-8 string.\<close>

fun utf8_chars :: "bytes \<Rightarrow> nat list" where
  "utf8_chars [] = []"
| "utf8_chars (b0 # bs) =
     (if b0 \<le> 0x7F then unat b0 # utf8_chars bs
      else if b0 \<le> 0xDF then
        (case bs of b1 # r \<Rightarrow> (unat (b0 AND 0x1F) * 64 + unat (b1 AND 0x3F)) # utf8_chars r | _ \<Rightarrow> [])
      else if b0 \<le> 0xEF then
        (case bs of b1 # b2 # r \<Rightarrow> (unat (b0 AND 0x0F) * 4096 + unat (b1 AND 0x3F) * 64 + unat (b2 AND 0x3F)) # utf8_chars r | _ \<Rightarrow> [])
      else
        (case bs of b1 # b2 # b3 # r \<Rightarrow>
           (unat (b0 AND 0x07) * 262144 + unat (b1 AND 0x3F) * 4096 + unat (b2 AND 0x3F) * 64 + unat (b3 AND 0x3F)) # utf8_chars r
         | _ \<Rightarrow> []))"

definition write_str :: "bytes \<Rightarrow> Tty \<Rightarrow> Tty option" where
  "write_str s t = for_each write_char (utf8_chars s) t"

text \<open>Printing goes to the terminal once there is one.\<close>

definition tty_print :: "bytes \<Rightarrow> Tty option \<Rightarrow> Tty option option" where
  "tty_print s tty = (case tty of None \<Rightarrow> Some None | Some t \<Rightarrow> map_option Some (write_str s t))"

definition init_console :: "bytes \<Rightarrow> bytes \<Rightarrow> nat \<Rightarrow> nat \<Rightarrow> nat \<Rightarrow> Tty option" where
  "init_console font fb width height pitch =
     tty_clear \<lparr>tty_fb = fb, fb_width = width, fb_height = height, fb_pitch = pitch,
       tty_cols = width div FONT_WIDTH, tty_rows = height div FONT_HEIGHT, tty_x = 0, tty_y = 0,
       color_fg = 0x00AAAAAA, color_bg = 0, FONT_8X16 = font\<rparr>"

section \<open>The framebuffer console\<close>

record FramebufferConsole =
  fc_fb :: bytes
  fc_width :: nat
  fc_height :: nat
  fc_pitch :: nat
  cursor_x :: nat
  cursor_y :: nat
  fc_font :: bytes

definition FramebufferConsole_new :: "bytes \<Rightarrow> bytes \<Rightarrow> nat \<Rightarrow> nat \<Rightarrow> nat \<Rightarrow> FramebufferConsole" where
  "FramebufferConsole_new font fb width height pitch =
     \<lparr>fc_fb = fb, fc_width = width, fc_height = height, fc_pitch = pitch, cursor_x = 0, cursor_y = 0, fc_font = font\<rparr>"

definition scroll_up :: "FramebufferConsole \<Rightarrow> FramebufferConsole option" where
  "scroll_up con =
     (let pitch = fc_pitch con; height_bytes = fc_height con * pitch
      in if height_bytes < 16 * pitch then None
         else do { fb \<leftarrow> move_bytes (16 * pitch) 0 (height_bytes - 16 * pitch) (fc_fb con);
                   fb \<leftarrow> put_bytes (height_bytes - 16 * pitch) (replicate (16 * pitch) 0) fb;
                   Some (con\<lparr>fc_fb := fb\<rparr>) })"

definition scroll_if_needed :: "FramebufferConsole \<Rightarrow> FramebufferConsole option" where
  "scroll_if_needed con =
     (let max_lines = fc_height con div 16
      in if max_lines \<le> cursor_y con then do { con \<leftarrow> scroll_up con; Some (con\<lparr>cursor_y := max_lines - 1\<rparr>) }
         else Some con)"

definition fc_draw_char :: "nat \<Rightarrow> nat \<Rightarrow> nat \<Rightarrow> FramebufferConsole \<Rightarrow> FramebufferConsole option" where
  "fc_draw_char c x_char y_char con =
     (let c = c mod 256;
          g = (if c < 32 \<or> 127 < c then 0x3F - 32 else c - 32) * 16
      in do { glyph \<leftarrow> slice (fc_font con) g (g + 16);
              fb \<leftarrow> draw_glyph (fc_pitch con) glyph (x_char * 8) (y_char * 16) [0xFF, 0xFF, 0xFF, 0] [0, 0, 0, 0] (fc_fb con);
              Some (con\<lparr>fc_fb := fb\<rparr>) })"

definition put_char :: "nat \<Rightarrow> FramebufferConsole \<Rightarrow> FramebufferConsole option" where
  "put_char c con =
     (if c = 0x0A then scroll_if_needed (con\<lparr>cursor_x := 0, cursor_y := cursor_y con + 1\<rparr>)
      else if c = 0x0D then Some (con\<lparr>cursor_x := 0\<rparr>)
      else do { con \<leftarrow> fc_draw_char c (cursor_x con) (cursor_y con) con;
                let con = con\<lparr>cursor_x := cursor_x con + 1\<rparr>;
                if fc_width con \<le> cursor_x con * 8 then scroll_if_needed (con\<lparr>cursor_x := 0, cursor_y := cursor_y con + 1\<rparr>)
                else Some con })"

definition write_string :: "bytes \<Rightarrow> FramebufferConsole \<Rightarrow> FramebufferConsole option" where
  "write_string s con = for_each put_char (utf8_chars s) con"

text \<open>The global console is never set up: writing through it is an error.\<close>

definition console_write_str :: "bytes \<Rightarrow> FramebufferConsole option \<Rightarrow> (bool \<times> FramebufferConsole option) option" where
  "console_write_str s guard =
     (case guard of None \<Rightarrow> Some (False, None) | Some con \<Rightarrow> map_option (\<lambda>con. (True, Some con)) (write_string s con))"

section \<open>Filling the screen\<close>

definition write_pixel :: "nat \<Rightarrow> bytes \<Rightarrow> bytes \<Rightarrow> bytes option" where
  "write_pixel offset color fb = put_bytes offset color fb"

definition fill_screen_blue :: "nat \<Rightarrow> nat \<Rightarrow> nat \<Rightarrow> nat \<Rightarrow> bytes \<Rightarrow> bytes option" where
  "fill_screen_blue width height pitch bpp fb =
     for_each (\<lambda>(y, x). write_pixel (y * pitch + x * (bpp div 8)) [0xFF, 0, 0, 0]) (List.product [0..<height] [0..<width]) fb"

datatype EntryType = USABLE | BOOTLOADER_RECLAIMABLE | OTHER_ENTRY

definition entry_color :: "EntryType \<Rightarrow> bytes" where
  "entry_color e = (case e of USABLE \<Rightarrow> [0, 0xFF, 0, 0] | BOOTLOADER_RECLAIMABLE \<Rightarrow> [0xFF, 0xFF, 0, 0] | _ \<Rightarrow> [0x80, 0x80, 0x80, 0])"

text \<open>On a screen lower than forty lines the first line wraps past the height and nothing is drawn.\<close>

definition draw_memory_map :: "nat \<Rightarrow> nat \<Rightarrow> nat \<Rightarrow> nat \<Rightarrow> EntryType list \<Rightarrow> bytes \<Rightarrow> bytes option" where
  "draw_memory_map width height pitch bpp entries fb =
     (let max_count = min width (length entries);
          bar_width = width div max max_count 1
      in for_each (\<lambda>(i, e).
             let x_start = i * bar_width; x_end = min (x_start + bar_width) width
             in for_each (\<lambda>(x, y). write_pixel (y * pitch + x * (bpp div 8)) (entry_color e))
                  (List.product [x_start..<x_end] (if height < 40 then [] else [height - 40..<height])))
           (enumerate 0 (take max_count entries)) fb)"

section \<open>What a screen shows\<close>

text \<open>The four bytes of the pixel in line \<open>Y\<close> and column \<open>X\<close>.\<close>

definition pixel :: "nat \<Rightarrow> bytes \<Rightarrow> nat \<Rightarrow> nat \<Rightarrow> bytes" where
  "pixel pitch fb Y X = take 4 (drop (Y * pitch + X * 4) fb)"

lemma for_each_append: "for_each f (xs @ ys) s = do { s \<leftarrow> for_each f xs s; for_each f ys s }"
  by (induction xs arbitrary: s) (auto split: Option.bind_splits)

lemma put_bytes_Some: "off + length bs \<le> length fb \<Longrightarrow> put_bytes off bs fb = Some (overlay fb off bs)"
  by (simp add: put_bytes_def)

lemma line_less:
  fixes pitch :: nat
  assumes "Y < H" "n \<le> pitch"
  shows "Y * pitch + n \<le> pitch * H"
proof -
  have "Suc Y * pitch \<le> H * pitch" using assms(1) by (intro mult_le_mono1) simp
  then show ?thesis using assms(2) by (simp add: mult.commute)
qed

lemma pixels_disjoint:
  fixes pitch :: nat
  assumes "X * 4 + 4 \<le> pitch" "X' * 4 + 4 \<le> pitch" "(Y, X) \<noteq> (Y', X')"
  shows "Y * pitch + X * 4 + 4 \<le> Y' * pitch + X' * 4 \<or> Y' * pitch + X' * 4 + 4 \<le> Y * pitch + X * 4"
proof (cases "Y = Y'")
  case True
  then show ?thesis using assms(3) by auto
next
  case False
  then consider "Suc Y \<le> Y'" | "Suc Y' \<le> Y" by linarith
  then show ?thesis
  proof cases
    case 1
    then have "Suc Y * pitch \<le> Y' * pitch" by (rule mult_le_mono1)
    then show ?thesis using assms(1) by simp
  next
    case 2
    then have "Suc Y' * pitch \<le> Y * pitch" by (rule mult_le_mono1)
    then show ?thesis using assms(2) by simp
  qed
qed

text \<open>Setting the pixels of a list of positions.\<close>

lemma put_pixels:
  assumes "length fb = pitch * H" "\<forall>(Y, X) \<in> set ps. Y < H \<and> X * 4 + 4 \<le> pitch" "distinct ps" "\<forall>p. length (c p) = 4"
  shows "\<exists>fb'. for_each (\<lambda>(Y, X). put_bytes (Y * pitch + X * 4) (c (Y, X))) ps fb = Some fb' \<and> length fb' = length fb \<and>
    (\<forall>Y X. Y < H \<and> X * 4 + 4 \<le> pitch \<longrightarrow> pixel pitch fb' Y X = (if (Y, X) \<in> set ps then c (Y, X) else pixel pitch fb Y X))"
  using assms
proof (induction ps arbitrary: fb)
  case (Cons p ps)
  obtain Y0 X0 where p: "p = (Y0, X0)" by (cases p)
  have in0: "Y0 < H" "X0 * 4 + 4 \<le> pitch" using Cons.prems(2) p by auto
  let ?o = "Y0 * pitch + X0 * 4"
  have fit: "?o + length (c p) \<le> length fb" using line_less[OF in0] Cons.prems(1,4) p by simp
  define fb1 where "fb1 = overlay fb ?o (c p)"
  have l1: "length fb1 = length fb" using fit by (simp add: fb1_def)
  obtain fb' where fb': "for_each (\<lambda>(Y, X). put_bytes (Y * pitch + X * 4) (c (Y, X))) ps fb1 = Some fb'" "length fb' = length fb1"
    "\<forall>Y X. Y < H \<and> X * 4 + 4 \<le> pitch \<longrightarrow> pixel pitch fb' Y X = (if (Y, X) \<in> set ps then c (Y, X) else pixel pitch fb1 Y X)"
    using Cons.IH[of fb1] Cons.prems l1 by auto
  have "pixel pitch fb1 Y X = (if (Y, X) = p then c (Y, X) else pixel pitch fb Y X)" if "Y < H" "X * 4 + 4 \<le> pitch" for Y X
  proof (cases "(Y, X) = p")
    case True
    then show ?thesis using fit Cons.prems(4) p by (simp add: pixel_def fb1_def)
  next
    case False
    have "Y * pitch + X * 4 + 4 \<le> length fb" using line_less[OF that] Cons.prems(1) by simp
    moreover have "Y * pitch + X * 4 + 4 \<le> ?o \<or> ?o + 4 \<le> Y * pitch + X * 4"
      by (rule pixels_disjoint[OF that(2) in0(2)]) (use False p in simp)
    moreover have "length (c p) = 4" using Cons.prems(4) by blast
    ultimately show ?thesis using False fit unfolding pixel_def fb1_def by (simp add: take_drop_overlay_other)
  qed
  then show ?case using fb' l1 put_bytes_Some[OF fit] Cons.prems(3) p unfolding fb1_def by auto
qed simp

lemma for_each_map: "for_each f (map g xs) s = for_each (\<lambda>x. f (g x)) xs s"
  by (induction xs arbitrary: s) (auto split: Option.bind_splits)

lemma draw_glyph_pixels:
  assumes "length fb = pitch * H" "sy + 16 \<le> H" "(sx + 8) * 4 \<le> pitch" "length on = 4" "length off = 4"
  shows "\<exists>fb'. draw_glyph pitch glyph sx sy on off fb = Some fb' \<and> length fb' = length fb \<and>
    (\<forall>Y X. Y < H \<and> X * 4 + 4 \<le> pitch \<longrightarrow> pixel pitch fb' Y X =
       (if sy \<le> Y \<and> Y < sy + 16 \<and> sx \<le> X \<and> X < sx + 8
        then (if bit (glyph ! (Y - sy)) (7 - (X - sx)) then on else off) else pixel pitch fb Y X))"
proof -
  let ?ps = "map (\<lambda>(row, col). (sy + row, sx + col)) (List.product [0..<16] [0..<8])"
  let ?c = "\<lambda>(Y, X). if bit (glyph ! (Y - sy)) (7 - (X - sx)) then on else off"
  have set: "(Y, X) \<in> set ?ps \<longleftrightarrow> sy \<le> Y \<and> Y < sy + 16 \<and> sx \<le> X \<and> X < sx + 8" for Y X
  proof
    assume "sy \<le> Y \<and> Y < sy + 16 \<and> sx \<le> X \<and> X < sx + 8"
    then show "(Y, X) \<in> set ?ps" unfolding set_map by (intro image_eqI[of _ _ "(Y - sy, X - sx)"]) auto
  qed auto
  have "inj_on (\<lambda>(row, col). (sy + row, sx + col)) A" for A by (auto simp: inj_on_def)
  then have d: "distinct ?ps" by (simp add: distinct_map distinct_product)
  have v: "\<forall>(Y, X) \<in> set ?ps. Y < H \<and> X * 4 + 4 \<le> pitch" using set assms(2,3) by auto
  have "draw_glyph pitch glyph sx sy on off fb = for_each (\<lambda>(Y, X). put_bytes (Y * pitch + X * 4) (?c (Y, X))) ?ps fb"
    unfolding draw_glyph_def for_each_map by (rule arg_cong[where f = "\<lambda>f. for_each f _ fb"]) (auto simp: fun_eq_iff)
  moreover have l: "\<forall>p. length (?c p) = 4" using assms(4,5) by auto
  ultimately show ?thesis using put_pixels[OF assms(1) v d l] by (simp only: set prod.case)
qed

text \<open>Scrolling a region of \<open>n\<close> text lines.\<close>

lemma scroll_pixels:
  assumes "length fb = pitch * H" "16 * n \<le> H" "0 < n"
  shows "\<exists>fb1 fb'. move_bytes (pitch * 16) 0 (pitch * 16 * n - pitch * 16) fb = Some fb1 \<and>
    put_bytes (pitch * 16 * n - pitch * 16) (replicate (pitch * 16) 0) fb1 = Some fb' \<and> length fb' = length fb \<and>
    (\<forall>Y X. Y < H \<and> X * 4 + 4 \<le> pitch \<longrightarrow> pixel pitch fb' Y X =
       (if Y + 16 < 16 * n then pixel pitch fb (Y + 16) X else if Y < 16 * n then [0, 0, 0, 0] else pixel pitch fb Y X))"
proof -
  let ?L = "pitch * 16"
  obtain k where n: "n = Suc k" using assms(3) by (cases n) auto
  have tot: "?L * n - ?L = ?L * k" "?L * n = ?L * k + ?L" by (simp_all add: n)
  have fit: "?L * n \<le> length fb" using mult_le_mono2[OF assms(2), of pitch] assms(1) by (simp add: mult.assoc)
  define fb1 where "fb1 = overlay fb 0 (take (?L * k) (drop ?L fb))"
  define fb' where "fb' = overlay fb1 (?L * k) (replicate ?L 0)"
  have l1: "length fb1 = length fb" unfolding fb1_def by (rule length_overlay) (use fit tot in simp)
  have l2: "length fb' = length fb" unfolding fb'_def l1[symmetric] by (rule length_overlay) (use fit tot l1 in simp)
  have m: "move_bytes ?L 0 (?L * n - ?L) fb = Some fb1"
    using fit tot by (simp add: move_bytes_def slice_def put_bytes_def fb1_def)
  have p: "put_bytes (?L * n - ?L) (replicate ?L 0) fb1 = Some fb'" using fit tot l1 by (simp add: put_bytes_def fb'_def)
  have nth: "fb' ! i = (if i < ?L * k then fb ! (?L + i) else if i < ?L * n then 0 else fb ! i)" if "i < length fb" for i
    using that fit tot l1 unfolding fb'_def fb1_def by (simp add: nth_overlay)
  have "pixel pitch fb' Y X = (if Y + 16 < 16 * n then pixel pitch fb (Y + 16) X else if Y < 16 * n then [0, 0, 0, 0] else pixel pitch fb Y X)"
    if YX: "Y < H" "X * 4 + 4 \<le> pitch" for Y X
  proof -
    let ?o = "Y * pitch + X * 4"
    have o: "?o + 4 \<le> length fb" using line_less[OF YX] assms(1) by simp
    have P: "length (pixel pitch fb' Y X) = 4" "\<And>i. i < 4 \<Longrightarrow> pixel pitch fb' Y X ! i = fb' ! (?o + i)"
      using o l2 by (simp_all add: pixel_def)
    consider "Y < 16 * k" | "16 * k \<le> Y" "Y < 16 * n" | "16 * n \<le> Y" by linarith
    then show ?thesis
    proof cases
      case 1
      have b: "?o + 4 \<le> ?L * k" using line_less[OF 1 YX(2)] by (simp add: mult.assoc)
      have o': "?o + ?L + 4 \<le> length fb" using b fit tot by simp
      have "pixel pitch fb' Y X = pixel pitch fb (Y + 16) X"
        by (rule nth_equalityI) (use P o' in \<open>simp add: pixel_def algebra_simps\<close>, use P o' b nth in \<open>simp add: pixel_def algebra_simps\<close>)
      then show ?thesis using 1 n by simp
    next
      case 2
      have "?L * k = 16 * k * pitch" by simp
      then have b: "?L * k \<le> ?o" using mult_le_mono1[OF 2(1), of pitch] by linarith
      have b': "?o + 4 \<le> ?L * n" using line_less[OF 2(2) YX(2)] by (simp add: mult.assoc)
      have "pixel pitch fb' Y X = replicate 4 0" by (rule nth_equalityI) (use P b b' o nth in simp_all)
      then show ?thesis using 2 n by (simp add: eval_nat_numeral)
    next
      case 3
      have "?L * n = 16 * n * pitch" by simp
      then have b: "?L * n \<le> ?o" using mult_le_mono1[OF 3, of pitch] by linarith
      have "pixel pitch fb' Y X = pixel pitch fb Y X"
        by (rule nth_equalityI) (use P o in \<open>simp add: pixel_def\<close>, use P o b tot nth in \<open>simp add: pixel_def\<close>)
      then show ?thesis using 3 n by simp
    qed
  qed
  then show ?thesis using m p l2 by blast
qed

section \<open>The terminal a user sees\<close>

text \<open>A terminal is a grid of characters with a cursor; \<open>None\<close> is a cell that was cleared.\<close>

type_synonym grid = "nat \<Rightarrow> nat \<Rightarrow> nat option"
type_synonym terminal = "grid \<times> nat \<times> nat"

definition term_new_line :: "nat \<Rightarrow> terminal \<Rightarrow> terminal" where
  "term_new_line rows tm =
     (case tm of (g, x, y) \<Rightarrow>
        if y + 1 < rows then (g, 0, y + 1) else (\<lambda>r. if r + 1 < rows then g (r + 1) else (\<lambda>_. None), 0, rows - 1))"

definition term_put :: "nat \<Rightarrow> terminal \<Rightarrow> terminal" where
  "term_put c tm = (case tm of (g, x, y) \<Rightarrow> (g(y := (g y)(x \<mapsto> c)), x, y))"

definition term_write :: "nat \<Rightarrow> nat \<Rightarrow> nat \<Rightarrow> terminal \<Rightarrow> terminal" where
  "term_write cols rows c tm =
     (case tm of (g, x, y) \<Rightarrow>
        if c = 0x0A then term_new_line rows tm
        else if c = 0x08 then (if 0 < x then term_put 0x20 (g, x - 1, y) else tm)
        else case term_put c (if cols \<le> x then term_new_line rows tm else tm) of (g, x, y) \<Rightarrow> (g, x + 1, y))"

text \<open>The characters that have a glyph, and those that move the cursor.\<close>

definition printable :: "nat \<Rightarrow> bool" where
  "printable c \<longleftrightarrow> 0x20 \<le> c \<and> c \<le> 0x7E"

definition supported :: "nat \<Rightarrow> bool" where
  "supported c \<longleftrightarrow> printable c \<or> c = 0x0A \<or> c = 0x08"

definition cell_pixel :: "Tty \<Rightarrow> nat option \<Rightarrow> nat \<Rightarrow> nat \<Rightarrow> bytes" where
  "cell_pixel t cell row col =
     (case cell of
        None \<Rightarrow> [0, 0, 0, 0]
      | Some c \<Rightarrow> to_le 4 (if bit (FONT_8X16 t ! (c * 16 + row)) (7 - col) then color_fg t else color_bg t))"

definition shows_grid :: "Tty \<Rightarrow> grid \<Rightarrow> bool" where
  "shows_grid t g \<longleftrightarrow> (\<forall>r < tty_rows t. \<forall>c < tty_cols t. \<forall>row < 16. \<forall>col < 8.
     pixel (fb_pitch t) (tty_fb t) (r * 16 + row) (c * 8 + col) = cell_pixel t (g r c) row col)"

definition screen_inv :: "Tty \<Rightarrow> bool" where
  "screen_inv t \<longleftrightarrow> length (tty_fb t) = fb_pitch t * fb_height t \<and> 16 * tty_rows t \<le> fb_height t \<and> 32 * tty_cols t \<le> fb_pitch t \<and>
     0 < tty_rows t \<and> 0 < tty_cols t \<and> length (FONT_8X16 t) = 2048"

definition tty_inv :: "Tty \<Rightarrow> bool" where
  "tty_inv t \<longleftrightarrow> screen_inv t \<and> tty_x t \<le> tty_cols t \<and> tty_y t < tty_rows t"

lemma cell_pixel_fb [simp]:
  "cell_pixel (t\<lparr>tty_fb := fb\<rparr>) = cell_pixel t" "cell_pixel (t\<lparr>tty_x := x\<rparr>) = cell_pixel t" "cell_pixel (t\<lparr>tty_y := y\<rparr>) = cell_pixel t"
  by (simp_all add: cell_pixel_def fun_eq_iff split: option.split)

lemma shows_grid_cursor [simp]:
  "shows_grid (t\<lparr>tty_x := x\<rparr>) g = shows_grid t g" "shows_grid (t\<lparr>tty_y := y\<rparr>) g = shows_grid t g"
  by (simp_all add: shows_grid_def)

lemma tty_draw_char_ok:
  assumes I: "screen_inv t" and sh: "shows_grid t g" and c: "printable c" and x: "x < tty_cols t" and y: "y < tty_rows t"
  shows "\<exists>fb. tty_draw_char x y c t = Some (t\<lparr>tty_fb := fb\<rparr>) \<and> length fb = length (tty_fb t) \<and>
    shows_grid (t\<lparr>tty_fb := fb\<rparr>) (g(y := (g y)(x \<mapsto> c)))"
proof -
  define glyph where "glyph = take 16 (drop (c * 16) (FONT_8X16 t))"
  have cc: "c * 16 + 16 \<le> 2048" "0x20 \<le> c" "c \<le> 0x7E" using c by (simp_all add: printable_def)
  have sl: "slice (FONT_8X16 t) (c * 16) ((c + 1) * 16) = Some glyph" using cc I by (simp add: slice_def glyph_def screen_inv_def)
  have gl: "glyph ! row = FONT_8X16 t ! (c * 16 + row)" if "row < 16" for row
    using that cc I by (simp add: glyph_def screen_inv_def)
  have rs: "y * 16 + 16 \<le> fb_height t" "(x * 8 + 8) * 4 \<le> fb_pitch t" using I x y by (simp_all add: screen_inv_def)
  have len: "length (tty_fb t) = fb_pitch t * fb_height t" using I by (simp add: screen_inv_def)
  obtain fb where fb: "draw_glyph (fb_pitch t) glyph (x * 8) (y * 16) (to_le 4 (color_fg t)) (to_le 4 (color_bg t)) (tty_fb t) = Some fb"
    "length fb = length (tty_fb t)"
    and px: "\<And>Y X. Y < fb_height t \<and> X * 4 + 4 \<le> fb_pitch t \<Longrightarrow> pixel (fb_pitch t) fb Y X =
       (if y * 16 \<le> Y \<and> Y < y * 16 + 16 \<and> x * 8 \<le> X \<and> X < x * 8 + 8
        then (if bit (glyph ! (Y - y * 16)) (7 - (X - x * 8)) then to_le 4 (color_fg t) else to_le 4 (color_bg t)) else pixel (fb_pitch t) (tty_fb t) Y X)"
    using draw_glyph_pixels[OF len rs, of "to_le 4 (color_fg t)" "to_le 4 (color_bg t)" glyph] by auto
  have "pixel (fb_pitch t) fb (r * 16 + row) (k * 8 + col) = cell_pixel t ((g(y := (g y)(x \<mapsto> c))) r k) row col"
    if b: "r < tty_rows t" "k < tty_cols t" "row < 16" "col < 8" for r k row col
  proof -
    have in_fb: "r * 16 + row < fb_height t \<and> (k * 8 + col) * 4 + 4 \<le> fb_pitch t" using I b by (simp add: screen_inv_def)
    have cell: "(y * 16 \<le> r * 16 + row \<and> r * 16 + row < y * 16 + 16 \<and> x * 8 \<le> k * 8 + col \<and> k * 8 + col < x * 8 + 8) \<longleftrightarrow> r = y \<and> k = x"
      using b(3,4) by linarith
    show ?thesis unfolding px[OF in_fb] cell using sh b gl[OF b(3)] by (auto simp: shows_grid_def cell_pixel_def)
  qed
  then have "shows_grid (t\<lparr>tty_fb := fb\<rparr>) (g(y := (g y)(x \<mapsto> c)))"
    unfolding shows_grid_def by (simp add: cell_pixel_fb)
  moreover have "tty_draw_char x y c t = Some (t\<lparr>tty_fb := fb\<rparr>)" using cc sl fb(1) by (simp add: tty_draw_char_def)
  ultimately show ?thesis using fb(2) by blast
qed

lemma tty_scroll_ok:
  assumes I: "screen_inv t" and sh: "shows_grid t g"
  shows "\<exists>fb. tty_scroll t = Some (t\<lparr>tty_fb := fb\<rparr>) \<and> length fb = length (tty_fb t) \<and>
    shows_grid (t\<lparr>tty_fb := fb\<rparr>) (\<lambda>r. if r + 1 < tty_rows t then g (r + 1) else (\<lambda>_. None))"
proof -
  have len: "length (tty_fb t) = fb_pitch t * fb_height t" "16 * tty_rows t \<le> fb_height t" "0 < tty_rows t" using I by (simp_all add: screen_inv_def)
  obtain fb1 fb where m: "move_bytes (fb_pitch t * 16) 0 (fb_pitch t * 16 * tty_rows t - fb_pitch t * 16) (tty_fb t) = Some fb1"
    "put_bytes (fb_pitch t * 16 * tty_rows t - fb_pitch t * 16) (replicate (fb_pitch t * 16) 0) fb1 = Some fb" "length fb = length (tty_fb t)"
    and px: "\<And>Y X. Y < fb_height t \<and> X * 4 + 4 \<le> fb_pitch t \<Longrightarrow> pixel (fb_pitch t) fb Y X =
       (if Y + 16 < 16 * tty_rows t then pixel (fb_pitch t) (tty_fb t) (Y + 16) X else if Y < 16 * tty_rows t then [0, 0, 0, 0]
        else pixel (fb_pitch t) (tty_fb t) Y X)"
    using scroll_pixels[OF len] by blast
  have "\<not> fb_pitch t * 16 * tty_rows t < fb_pitch t * 16" using len(3) by simp
  then have "tty_scroll t = Some (t\<lparr>tty_fb := fb\<rparr>)" using m by (simp add: tty_scroll_def Let_def)
  moreover have "pixel (fb_pitch t) fb (r * 16 + row) (k * 8 + col) = cell_pixel t ((if r + 1 < tty_rows t then g (r + 1) else (\<lambda>_. None)) k) row col"
    if b: "r < tty_rows t" "k < tty_cols t" "row < 16" "col < 8" for r k row col
  proof -
    have in_fb: "r * 16 + row < fb_height t \<and> (k * 8 + col) * 4 + 4 \<le> fb_pitch t" using I b by (simp add: screen_inv_def)
    have e: "r * 16 + row + 16 < 16 * tty_rows t \<longleftrightarrow> r + 1 < tty_rows t" "r * 16 + row < 16 * tty_rows t" "r * 16 + row + 16 = (r + 1) * 16 + row"
      using b(1,3) by (linarith, linarith, simp)
    have "pixel (fb_pitch t) (tty_fb t) ((r + 1) * 16 + row) (k * 8 + col) = cell_pixel t (g (r + 1) k) row col" if "r + 1 < tty_rows t"
      using sh that b(2-4) unfolding shows_grid_def by blast
    moreover have "pixel (fb_pitch t) fb (r * 16 + row) (k * 8 + col) =
        (if r + 1 < tty_rows t then pixel (fb_pitch t) (tty_fb t) ((r + 1) * 16 + row) (k * 8 + col) else [0, 0, 0, 0])"
      using px[OF in_fb] e(1,2) unfolding e(3)[symmetric] by simp
    ultimately show ?thesis by (simp add: cell_pixel_def)
  qed
  ultimately show ?thesis using m(3) unfolding shows_grid_def by auto
qed

text \<open>The terminal refines the grid of characters.\<close>

definition tty_refines :: "Tty \<Rightarrow> terminal \<Rightarrow> bool" where
  "tty_refines t tm \<longleftrightarrow> tty_inv t \<and> (case tm of (g, x, y) \<Rightarrow> shows_grid t g \<and> x = tty_x t \<and> y = tty_y t)"

lemma new_line_refines:
  assumes "tty_refines t tm"
  shows "\<exists>t'. new_line t = Some t' \<and> tty_refines t' (term_new_line (tty_rows t) tm) \<and> tty_rows t' = tty_rows t \<and> tty_cols t' = tty_cols t \<and> tty_x t' = 0"
proof -
  obtain g where g: "tm = (g, tty_x t, tty_y t)" "shows_grid t g" "tty_inv t" using assms by (auto simp: tty_refines_def)
  show ?thesis
  proof (cases "tty_y t + 1 < tty_rows t")
    case True
    then show ?thesis using g by (simp add: new_line_def tty_refines_def term_new_line_def tty_inv_def screen_inv_def)
  next
    case False
    let ?t = "t\<lparr>tty_x := 0, tty_y := tty_y t + 1\<rparr>"
    have "screen_inv ?t" "shows_grid ?t g" using g by (simp_all add: tty_inv_def screen_inv_def)
    from tty_scroll_ok[OF this] obtain fb where fb: "tty_scroll ?t = Some (?t\<lparr>tty_fb := fb\<rparr>)" "length fb = length (tty_fb t)"
      "shows_grid (?t\<lparr>tty_fb := fb\<rparr>) (\<lambda>r. if r + 1 < tty_rows t then g (r + 1) else (\<lambda>_. None))" by auto
    have "shows_grid (?t\<lparr>tty_fb := fb, tty_y := tty_rows t - 1\<rparr>) (\<lambda>r. if r + 1 < tty_rows t then g (r + 1) else (\<lambda>_. None))"
      using fb(3) by (simp only: shows_grid_cursor)
    then show ?thesis using False fb(1,2) g by (simp add: new_line_def tty_refines_def term_new_line_def tty_inv_def screen_inv_def)
  qed
qed

lemma draw_refines:
  assumes "tty_refines t (g, x, y)" "printable c" "x < tty_cols t"
  shows "\<exists>t'. tty_draw_char x y c t = Some t' \<and> tty_refines t' (term_put c (g, x, y)) \<and> tty_rows t' = tty_rows t \<and> tty_cols t' = tty_cols t \<and>
    tty_x t' = tty_x t"
proof -
  have i: "screen_inv t" "shows_grid t g" "x = tty_x t" "y = tty_y t" "y < tty_rows t" "tty_inv t"
    using assms(1) by (auto simp: tty_refines_def tty_inv_def)
  from tty_draw_char_ok[OF i(1,2) assms(2,3) i(5)] obtain fb where
    fb: "tty_draw_char x y c t = Some (t\<lparr>tty_fb := fb\<rparr>)" "length fb = length (tty_fb t)" "shows_grid (t\<lparr>tty_fb := fb\<rparr>) (g(y := (g y)(x \<mapsto> c)))"
    by blast
  then show ?thesis using i by (simp add: tty_refines_def term_put_def tty_inv_def screen_inv_def)
qed

lemma write_char_refines:
  assumes R: "tty_refines t tm" and c: "supported c"
  shows "\<exists>t'. write_char c t = Some t' \<and> tty_refines t' (term_write (tty_cols t) (tty_rows t) c tm) \<and> tty_rows t' = tty_rows t \<and> tty_cols t' = tty_cols t"
proof -
  obtain g where g: "tm = (g, tty_x t, tty_y t)" "tty_inv t" "shows_grid t g" using R by (auto simp: tty_refines_def)
  consider "c = 0x0A" | "c = 0x08" | "printable c" "c \<noteq> 0x0A" "c \<noteq> 0x08" using c by (auto simp: supported_def printable_def)
  then show ?thesis
  proof cases
    case 1
    then show ?thesis using new_line_refines[OF R] by (auto simp: write_char_def term_write_def g(1))
  next
    case 2
    show ?thesis
    proof (cases "0 < tty_x t")
      case True
      let ?t = "t\<lparr>tty_x := tty_x t - 1\<rparr>"
      have r: "tty_refines ?t (g, tty_x t - 1, tty_y t)" using g by (auto simp: tty_refines_def tty_inv_def screen_inv_def)
      have "tty_x t - 1 < tty_cols ?t" "printable 0x20" using g(2) True by (auto simp: tty_inv_def printable_def)
      from draw_refines[OF r this(2,1)] obtain t' where "tty_draw_char (tty_x t - 1) (tty_y t) 0x20 ?t = Some t'"
        "tty_refines t' (term_put 0x20 (g, tty_x t - 1, tty_y t))" "tty_rows t' = tty_rows t" "tty_cols t' = tty_cols t" by auto
      then show ?thesis using True 2 by (simp add: write_char_def term_write_def g(1))
    qed (use 2 g R in \<open>simp add: write_char_def term_write_def\<close>)
  next
    case 3
    let ?tm = "if tty_cols t \<le> tty_x t then term_new_line (tty_rows t) tm else tm"
    obtain t1 where t1: "(if tty_cols t \<le> tty_x t then new_line t else Some t) = Some t1" "tty_refines t1 ?tm" "tty_rows t1 = tty_rows t"
      "tty_cols t1 = tty_cols t" "tty_x t1 < tty_cols t1"
    proof (cases "tty_cols t \<le> tty_x t")
      case True
      obtain t1 where "new_line t = Some t1" "tty_refines t1 (term_new_line (tty_rows t) tm)" "tty_rows t1 = tty_rows t"
        "tty_cols t1 = tty_cols t" "tty_x t1 = 0" using new_line_refines[OF R] by blast
      moreover have "0 < tty_cols t" using g(2) by (simp add: tty_inv_def screen_inv_def)
      ultimately show ?thesis using True by (intro that[of t1]) simp_all
    next
      case False
      then show ?thesis using R by (intro that[of t]) simp_all
    qed
    obtain g1 where g1: "?tm = (g1, tty_x t1, tty_y t1)" using t1(2) by (auto simp: tty_refines_def split: prod.splits)
    obtain t2 where t2: "tty_draw_char (tty_x t1) (tty_y t1) c t1 = Some t2" "tty_refines t2 (term_put c ?tm)" "tty_rows t2 = tty_rows t1"
      "tty_cols t2 = tty_cols t1" "tty_x t2 = tty_x t1"
      using draw_refines[OF t1(2)[unfolded g1] 3(1) t1(5)] g1 by auto
    obtain g2 where g2: "term_put c ?tm = (g2, tty_x t2, tty_y t2)" using t2(2) by (auto simp: tty_refines_def split: prod.splits)
    have "tty_refines (t2\<lparr>tty_x := tty_x t2 + 1\<rparr>) (g2, tty_x t2 + 1, tty_y t2)"
      using t2(2,4,5) t1(5) unfolding g2 by (simp add: tty_refines_def tty_inv_def screen_inv_def)
    moreover have "term_write (tty_cols t) (tty_rows t) c tm = (g2, tty_x t2 + 1, tty_y t2)"
      using 3(2,3) g2 unfolding term_write_def g(1) by simp
    moreover have "write_char c t = Some (t2\<lparr>tty_x := tty_x t2 + 1\<rparr>)"
      unfolding write_char_def using 3(2,3) t1(1) t2(1) by simp
    ultimately show ?thesis using t1(3,4) t2(3,4) by simp
  qed
qed

lemma write_char_unsupported:
  assumes "tty_inv t" "\<not> supported c"
  shows "write_char c t = None"
proof -
  have "tty_draw_char x y c t' = None" if "length (FONT_8X16 t') = 2048" for x y t'
    using that assms(2) by (auto simp: tty_draw_char_def supported_def printable_def slice_def Let_def)
  moreover have "FONT_8X16 t' = FONT_8X16 t" if "new_line t = Some t'" for t'
    using that by (auto simp: new_line_def tty_scroll_def Let_def split: if_splits Option.bind_splits)
  ultimately show ?thesis using assms
    by (cases "new_line t") (auto simp: write_char_def supported_def tty_inv_def screen_inv_def)
qed

lemma write_chars_refines:
  assumes "tty_refines t tm"
  shows "case for_each write_char cs t of
      Some t' \<Rightarrow> (\<forall>c \<in> set cs. supported c) \<and> tty_refines t' (fold (term_write (tty_cols t) (tty_rows t)) cs tm) \<and>
        tty_rows t' = tty_rows t \<and> tty_cols t' = tty_cols t
    | None \<Rightarrow> \<exists>c \<in> set cs. \<not> supported c"
  using assms
proof (induction cs arbitrary: t tm)
  case (Cons c cs)
  show ?case
  proof (cases "supported c")
    case True
    then obtain t1 where t1: "write_char c t = Some t1" "tty_refines t1 (term_write (tty_cols t) (tty_rows t) c tm)" "tty_rows t1 = tty_rows t" "tty_cols t1 = tty_cols t"
      using write_char_refines[OF Cons.prems] by blast
    then show ?thesis using Cons.IH[OF t1(2)] True by (simp split: option.splits)
  next
    case False
    then show ?thesis using write_char_unsupported[of t c] Cons.prems by (auto simp: tty_refines_def)
  qed
qed simp

section \<open>Starting the console\<close>

lemma init_console_refines:
  assumes "length font = 2048" "length fb = pitch * height" "16 \<le> height" "8 \<le> width" "width * 4 \<le> pitch"
  shows "\<exists>t. init_console font fb width height pitch = Some t \<and> tty_refines t (\<lambda>_ _. None, 0, 0) \<and>
    tty_cols t = width div 8 \<and> tty_rows t = height div 16"
proof -
  let ?t = "\<lparr>tty_fb = replicate (pitch * height) 0, fb_width = width, fb_height = height, fb_pitch = pitch,
       tty_cols = width div FONT_WIDTH, tty_rows = height div FONT_HEIGHT, tty_x = 0, tty_y = 0,
       color_fg = 0x00AAAAAA, color_bg = 0, FONT_8X16 = font\<rparr>"
  have r: "init_console font fb width height pitch = Some ?t"
    using assms(2) by (simp add: init_console_def tty_clear_def put_bytes_def overlay_def)
  have i: "tty_inv ?t" using assms by (simp add: tty_inv_def screen_inv_def div_greater_zero_iff)
  have "shows_grid ?t (\<lambda>_ _. None)"
    unfolding shows_grid_def
  proof (intro allI impI)
    fix r c row col :: nat assume b: "r < tty_rows ?t" "c < tty_cols ?t" "row < 16" "col < 8"
    have "r * 16 + row < height" "(c * 8 + col) * 4 + 4 \<le> pitch" using b i by (simp_all add: tty_inv_def screen_inv_def)
    from line_less[OF this] have "pixel pitch (replicate (pitch * height) (0 :: u8)) (r * 16 + row) (c * 8 + col) = replicate 4 0"
      by (simp add: pixel_def)
    also have "\<dots> = [0, 0, 0, 0]" by (simp add: numeral_eq_Suc)
    finally show "pixel (fb_pitch ?t) (tty_fb ?t) (r * 16 + row) (c * 8 + col) = cell_pixel ?t None row col"
      by (simp add: cell_pixel_def)
  qed
  then show ?thesis using r i by (simp add: tty_refines_def)
qed

section \<open>Properties\<close>

text \<open>C14: The framebuffer terminal refines a grid of characters. On a framebuffer of at least one text cell,
  after any string is printed every pixel of every cell is the pixel of the glyph of the
  character that a terminal with wrapping, scrolling and backspace shows there, in the terminal's colours, and the
  cursor is where that terminal has it. Printing succeeds exactly when every character is
  printable ASCII, a newline or a backspace: the font has 128 glyphs and any other character
  indexes it out of range, which panics.\<close>

theorem tty_refines_terminal:
  assumes "length font = 2048" "length fb = pitch * height" "16 \<le> height" "8 \<le> width" "width * 4 \<le> pitch"
    "init_console font fb width height pitch = Some t"
  shows "(case write_str s t of
       None \<Rightarrow> \<exists>c \<in> set (utf8_chars s). \<not> supported c
     | Some t' \<Rightarrow> (\<forall>c \<in> set (utf8_chars s). supported c) \<and>
         (case fold (term_write (width div 8) (height div 16)) (utf8_chars s) (\<lambda>_ _. None, 0, 0) of
            (g, x, y) \<Rightarrow> shows_grid t' g \<and> tty_x t' = x \<and> tty_y t' = y \<and> x \<le> width div 8 \<and> y < height div 16))"
proof -
  have t: "tty_refines t (\<lambda>_ _. None, 0, 0)" "tty_cols t = width div 8" "tty_rows t = height div 16"
    using init_console_refines[OF assms(1-5)] unfolding assms(6) by simp_all
  show ?thesis using write_chars_refines[OF t(1), of "utf8_chars s"] unfolding write_str_def t(2,3)
    by (auto simp: tty_refines_def tty_inv_def split: option.splits prod.splits)
qed

theorem tty_refines_terminal_witness:
  "\<exists>t t'. init_console (replicate 2048 0x55) (replicate (32 * 16) 1) 8 16 32 = Some t \<and> write_str [0x41, 0x42] t = Some t' \<and>
     shows_grid t' ((\<lambda>_ _. None)(0 := [0 \<mapsto> 0x42])) \<and> tty_x t' = 1 \<and> write_str [0x41, 0x09] t = None"
proof -
  have f: "length (replicate 2048 (0x55 :: u8)) = 2048" "length (replicate (32 * 16) (1 :: u8)) = 32 * 16"
    "(16 :: nat) \<le> 16" "(8 :: nat) \<le> 8" "(8 :: nat) * 4 \<le> 32"
    by (rule length_replicate, rule length_replicate, simp_all)
  obtain t where t: "init_console (replicate 2048 0x55) (replicate (32 * 16) 1) 8 16 32 = Some t" using init_console_refines[OF f] by blast
  note R = tty_refines_terminal[OF f t]
  have sup: "supported 0x41" "supported 0x42" "\<not> supported 0x09" by (simp_all add: supported_def printable_def)
  have u: "utf8_chars [0x41, 0x42] = [0x41, 0x42]" "utf8_chars [0x41, 0x09] = [0x41, 0x09]" by simp_all
  have g: "fold (term_write (8 div 8) (16 div 16)) [0x41, 0x42] (\<lambda>_ _. None, 0, 0) = ((\<lambda>_ _. None)(0 := [0 \<mapsto> 0x42]), 1, 0)"
    by (simp add: term_write_def term_put_def term_new_line_def fun_eq_iff)
  have "write_str [0x41, 0x09] t = None" using R[of "[0x41, 0x09]"] sup(3) unfolding u by (auto split: option.splits)
  moreover obtain t' where "write_str [0x41, 0x42] t = Some t'" "shows_grid t' ((\<lambda>_ _. None)(0 := [0 \<mapsto> 0x42]))" "tty_x t' = 1"
    using R[of "[0x41, 0x42]"] sup unfolding u g by (auto split: option.splits)
  ultimately show ?thesis using t by blast
qed

end
