(* ===== verification/Fd.thy ===== *)
theory Fd
  imports Pipe Vfs Ipc Keyboard Executor Console "HOL-Library.Product_Lexorder"
begin

text \<open>
  kernel/src/fd.rs, kernel/src/stdio.rs and the descriptor side of kernel/src/pipe.rs:
  the state the system calls share, the descriptor table keyed by task and
  descriptor, open files with their cursor, and reading and writing through a
  descriptor.

  An \<open>Arc<OpenFile>\<close> is a \<open>file_ref\<close>. Dropping the last reference to a pipe end runs
  its \<open>Drop\<close>; the references are those held by the descriptor table, since a task
  blocked in a read keeps its own table entry. \<open>umem\<close> is memory as the running task's
  page table shows it (the framebuffer is part of the terminal), and the futures of the executor are known by number.
\<close>

type_synonym file_ref = nat

record OpenFile =
  of_inode :: inode_ref
  of_offset :: u64

record kernel =
  k_vfs :: vfs
  FD_TABLE :: "(u64 \<times> u64, file_ref) btree"
  files :: "file_ref \<Rightarrow> OpenFile"
  next_file :: file_ref
  NEXT_FD :: u64
  pipes :: "pipe_ref \<Rightarrow> PipeInner"
  next_pipe :: pipe_ref
  k_ipc :: IpcSpace
  k_sched :: sched
  INPUT_BUF :: RingBuffer
  serial_out :: bytes
  KERNEL_TTY :: "Tty option"
  EXECUTOR :: "nat executor option"
  umem :: "u64 \<Rightarrow> u8"

section \<open>Dropping pipe ends\<close>

definition inode_live :: "kernel \<Rightarrow> inode_ref \<Rightarrow> bool" where
  "inode_live k i = (\<exists>e\<in>set (FD_TABLE k). of_inode (files k (snd e)) = i)"

definition node_drop :: "node \<Rightarrow> kernel \<Rightarrow> kernel" where
  "node_drop n k =
     (case n of
        PipeReadEnd p \<Rightarrow> k\<lparr>pipes := (pipes k)(p := pipe_read_drop (pipes k p))\<rparr>
      | PipeWriteEnd p \<Rightarrow>
          (let (p', ws) = pipe_write_drop (pipes k p)
           in k\<lparr>pipes := (pipes k)(p := p'), k_sched := fold wake_task ws (k_sched k)\<rparr>)
      | _ \<Rightarrow> k)"

text \<open>A reference to file \<open>f\<close> has just left the table.\<close>

definition file_release :: "file_ref \<Rightarrow> kernel \<Rightarrow> kernel" where
  "file_release f k =
     (if f \<in> snd ` set (FD_TABLE k) \<or> inode_live k (of_inode (files k f)) then k
      else node_drop (nodes (k_vfs k) (of_inode (files k f))) k)"

definition fd_remove :: "u64 \<times> u64 \<Rightarrow> kernel \<Rightarrow> kernel" where
  "fd_remove key k =
     (case bt_get (FD_TABLE k) key of
        None \<Rightarrow> k
      | Some f \<Rightarrow> file_release f (k\<lparr>FD_TABLE := bt_remove key (FD_TABLE k)\<rparr>))"

definition fd_insert :: "u64 \<times> u64 \<Rightarrow> file_ref \<Rightarrow> kernel \<Rightarrow> kernel" where
  "fd_insert key f k =
     (let k1 = k\<lparr>FD_TABLE := bt_insert key f (FD_TABLE k)\<rparr>
      in case bt_get (FD_TABLE k) key of None \<Rightarrow> k1 | Some old \<Rightarrow> file_release old k1)"

definition arc_new_file :: "OpenFile \<Rightarrow> kernel \<Rightarrow> file_ref \<times> kernel" where
  "arc_new_file f k = (next_file k, k\<lparr>files := (files k)(next_file k := f), next_file := Suc (next_file k)\<rparr>)"

section \<open>The descriptor table\<close>

definition fd_open :: "u64 \<Rightarrow> str \<Rightarrow> kernel \<Rightarrow> u64 option \<times> kernel" where
  "fd_open task_id path k =
     (case lookup_path (k_vfs k) path of
        None \<Rightarrow> (None, k)
      | Some inode \<Rightarrow>
          (let fd = NEXT_FD k;
               k1 = k\<lparr>NEXT_FD := NEXT_FD k + 1\<rparr>;
               (f, k2) = arc_new_file \<lparr>of_inode = inode, of_offset = 0\<rparr> k1
           in (Some fd, fd_insert (task_id, fd) f k2)))"

definition fd_close :: "u64 \<Rightarrow> u64 \<Rightarrow> kernel \<Rightarrow> bool \<times> kernel" where
  "fd_close task_id fd k = (bt_contains (FD_TABLE k) (task_id, fd), fd_remove (task_id, fd) k)"

definition fd_get :: "u64 \<Rightarrow> u64 \<Rightarrow> kernel \<Rightarrow> file_ref option" where
  "fd_get task_id fd k = bt_get (FD_TABLE k) (task_id, fd)"

definition set_offset :: "file_ref \<Rightarrow> u64 \<Rightarrow> kernel \<Rightarrow> kernel" where
  "set_offset f off k = k\<lparr>files := (files k)(f := (files k f)\<lparr>of_offset := off\<rparr>)\<rparr>"

definition fd_seek :: "u64 \<Rightarrow> u64 \<Rightarrow> u64 \<Rightarrow> kernel \<Rightarrow> bool \<times> kernel" where
  "fd_seek task_id fd offset k =
     (case fd_get task_id fd k of
        Some f \<Rightarrow> (True, set_offset f offset k)
      | None \<Rightarrow> (False, k))"

text \<open>The search for the lowest free descriptor; \<open>None\<close> would be a loop that never ends.\<close>

partial_function (option) next_fd_from :: "u64 \<Rightarrow> (u64 \<times> u64, file_ref) btree \<Rightarrow> u64 \<Rightarrow> u64 option" where
  "next_fd_from task_id table fd =
     (if bt_contains table (task_id, fd) then next_fd_from task_id table (fd + 1) else Some fd)"

declare next_fd_from.simps [code]

definition next_fd :: "u64 \<Rightarrow> (u64 \<times> u64, file_ref) btree \<Rightarrow> u64 option" where
  "next_fd task_id table = next_fd_from task_id table 3"

definition insert_inode :: "u64 \<Rightarrow> inode_ref \<Rightarrow> kernel \<Rightarrow> (u64 \<times> kernel) option" where
  "insert_inode task_id inode k =
     (case next_fd task_id (FD_TABLE k) of
        None \<Rightarrow> None
      | Some fd \<Rightarrow>
          (let (f, k1) = arc_new_file \<lparr>of_inode = inode, of_offset = 0\<rparr> k
           in Some (fd, fd_insert (task_id, fd) f k1)))"

definition fd_dup :: "u64 \<Rightarrow> u64 \<Rightarrow> kernel \<Rightarrow> (u64 option \<times> kernel) option" where
  "fd_dup task_id old_fd k =
     (case fd_get task_id old_fd k of
        None \<Rightarrow> Some (None, k)
      | Some f \<Rightarrow>
          (case next_fd task_id (FD_TABLE k) of
             None \<Rightarrow> None
           | Some new_fd \<Rightarrow> Some (Some new_fd, fd_insert (task_id, new_fd) f k)))"

definition fd_dup2 :: "u64 \<Rightarrow> u64 \<Rightarrow> u64 \<Rightarrow> kernel \<Rightarrow> u64 option \<times> kernel" where
  "fd_dup2 task_id old_fd new_fd k =
     (if old_fd = new_fd
      then (if bt_contains (FD_TABLE k) (task_id, old_fd) then Some new_fd else None, k)
      else case fd_get task_id old_fd k of
             None \<Rightarrow> (None, k)
           | Some f \<Rightarrow> (Some new_fd, fd_insert (task_id, new_fd) f (fd_remove (task_id, new_fd) k)))"

definition task_entries :: "u64 \<Rightarrow> (u64 \<times> u64, file_ref) btree \<Rightarrow> ((u64 \<times> u64) \<times> file_ref) list" where
  "task_entries tid table = filter (\<lambda>e. fst (fst e) = tid) table"

definition clone_for_task :: "u64 \<Rightarrow> u64 \<Rightarrow> kernel \<Rightarrow> kernel" where
  "clone_for_task src_task dst_task k =
     (let (entries, k1) =
        fold (\<lambda>((_, fd), f) (es, k). let (f', k') = arc_new_file (files k f) k in (es @ [(fd, f')], k'))
          (task_entries src_task (FD_TABLE k)) ([], k)
      in fold (\<lambda>(fd, f). fd_insert (dst_task, fd) f) entries k1)"

definition fd_cleanup :: "u64 \<Rightarrow> kernel \<Rightarrow> kernel" where
  "fd_cleanup task_id k = fold fd_remove (map fst (task_entries task_id (FD_TABLE k))) k"

definition add_node :: "node \<Rightarrow> kernel \<Rightarrow> inode_ref \<times> kernel" where
  "add_node n k = (let (r, v) = arc_new_node n (k_vfs k) in (r, k\<lparr>k_vfs := v\<rparr>))"

definition init_stdio_fd :: "u64 \<Rightarrow> u64 \<Rightarrow> node \<Rightarrow> kernel \<Rightarrow> kernel" where
  "init_stdio_fd task_id fd n k =
     (let (i, k1) = add_node n k;
          (f, k2) = arc_new_file \<lparr>of_inode = i, of_offset = 0\<rparr> k1
      in fd_insert (task_id, fd) f k2)"

definition init_stdio :: "u64 \<Rightarrow> kernel \<Rightarrow> kernel" where
  "init_stdio task_id k =
     init_stdio_fd task_id 2 StderrINode
       (init_stdio_fd task_id 1 StdoutINode (init_stdio_fd task_id 0 StdinINode k))"

definition create_pipe :: "u64 \<Rightarrow> kernel \<Rightarrow> (u64 \<times> u64 \<times> kernel) option" where
  "create_pipe task_id k =
     (let inner = next_pipe k;
          k1 = k\<lparr>pipes := (pipes k)(inner := pipe_new), next_pipe := Suc inner\<rparr>;
          (read_end, k2) = add_node (PipeReadEnd inner) k1;
          (write_end, k3) = add_node (PipeWriteEnd inner) k2
      in case insert_inode task_id read_end k3 of
           None \<Rightarrow> None
         | Some (read_fd, k4) \<Rightarrow>
             (case insert_inode task_id write_end k4 of
                None \<Rightarrow> None
              | Some (write_fd, k5) \<Rightarrow> Some (read_fd, write_fd, k5)))"

section \<open>What the table operations change\<close>

named_theorems fd_frame

lemma node_drop_frame [simp, fd_frame]:
  "FD_TABLE (node_drop n k) = FD_TABLE k" "files (node_drop n k) = files k"
  "next_file (node_drop n k) = next_file k" "k_vfs (node_drop n k) = k_vfs k"
  "NEXT_FD (node_drop n k) = NEXT_FD k" "umem (node_drop n k) = umem k" "k_ipc (node_drop n k) = k_ipc k"
  "next_pipe (node_drop n k) = next_pipe k" "CURRENT_TASK (k_sched (node_drop n k)) = CURRENT_TASK (k_sched k)"
  by (auto simp: node_drop_def split: node.splits prod.splits)

lemma file_release_frame [simp, fd_frame]:
  "FD_TABLE (file_release f k) = FD_TABLE k" "files (file_release f k) = files k"
  "next_file (file_release f k) = next_file k" "k_vfs (file_release f k) = k_vfs k"
  "NEXT_FD (file_release f k) = NEXT_FD k" "umem (file_release f k) = umem k"
  "k_ipc (file_release f k) = k_ipc k" "next_pipe (file_release f k) = next_pipe k"
  "CURRENT_TASK (k_sched (file_release f k)) = CURRENT_TASK (k_sched k)"
  by (simp_all add: file_release_def)

lemma fd_remove_frame [simp, fd_frame]:
  "FD_TABLE (fd_remove key k) = bt_remove key (FD_TABLE k)" "files (fd_remove key k) = files k"
  "next_file (fd_remove key k) = next_file k" "k_vfs (fd_remove key k) = k_vfs k"
  "NEXT_FD (fd_remove key k) = NEXT_FD k" "umem (fd_remove key k) = umem k"
  "k_ipc (fd_remove key k) = k_ipc k" "next_pipe (fd_remove key k) = next_pipe k"
  "CURRENT_TASK (k_sched (fd_remove key k)) = CURRENT_TASK (k_sched k)"
proof -
  have "bt_remove key (FD_TABLE k) = FD_TABLE k" if "bt_get (FD_TABLE k) key = None"
    using that by (auto simp: bt_remove_def map_of_eq_None_iff filter_id_conv)
  then show "FD_TABLE (fd_remove key k) = bt_remove key (FD_TABLE k)"
    by (simp add: fd_remove_def split: option.splits)
qed (simp_all add: fd_remove_def split: option.splits)

lemma fd_insert_frame [simp, fd_frame]:
  "FD_TABLE (fd_insert key f k) = bt_insert key f (FD_TABLE k)" "files (fd_insert key f k) = files k"
  "next_file (fd_insert key f k) = next_file k" "k_vfs (fd_insert key f k) = k_vfs k"
  "NEXT_FD (fd_insert key f k) = NEXT_FD k" "umem (fd_insert key f k) = umem k"
  "k_ipc (fd_insert key f k) = k_ipc k" "next_pipe (fd_insert key f k) = next_pipe k"
  "CURRENT_TASK (k_sched (fd_insert key f k)) = CURRENT_TASK (k_sched k)"
  by (simp_all add: fd_insert_def Let_def split: option.splits)

lemma arc_new_file_frame [simp, fd_frame]:
  "fst (arc_new_file f k) = next_file k"
  "FD_TABLE (snd (arc_new_file f k)) = FD_TABLE k" "k_vfs (snd (arc_new_file f k)) = k_vfs k"
  "files (snd (arc_new_file f k)) = (files k)(next_file k := f)"
  "next_file (snd (arc_new_file f k)) = Suc (next_file k)"
  "NEXT_FD (snd (arc_new_file f k)) = NEXT_FD k" "umem (snd (arc_new_file f k)) = umem k"
  "k_ipc (snd (arc_new_file f k)) = k_ipc k" "k_sched (snd (arc_new_file f k)) = k_sched k"
  "pipes (snd (arc_new_file f k)) = pipes k"
  by (simp_all add: arc_new_file_def)

lemma bt_get_fd_insert [simp]:
  "bt_wf (FD_TABLE k) \<Longrightarrow> bt_get (FD_TABLE (fd_insert key f k)) = (bt_get (FD_TABLE k))(key \<mapsto> f)"
  by simp

lemma fold_fd_remove_table:
  "FD_TABLE (fold fd_remove ks k) = filter (\<lambda>e. fst e \<notin> set ks) (FD_TABLE k)"
proof (induction ks arbitrary: k)
  case (Cons key ks)
  then show ?case by (auto simp: bt_remove_def intro!: filter_cong)
qed simp

lemma fd_cleanup_table:
  "FD_TABLE (fd_cleanup t k) = bt_retain (\<lambda>(tid, _). tid \<noteq> t) (FD_TABLE k)"
  unfolding fd_cleanup_def fold_fd_remove_table bt_retain_def
  by (rule filter_cong) (auto simp: task_entries_def)

section \<open>The lowest free descriptor\<close>

lemma unat_3_plus: "n < 2 ^ 64 - 3 \<Longrightarrow> unat (3 + of_nat n :: u64) = 3 + n"
  by (simp add: unat_word_ariths unat_of_nat_less)

lemma free_fd_exists:
  assumes "length table < 2 ^ 64 - 3"
  shows "\<exists>n\<le>length table. \<not> bt_contains table (t, 3 + of_nat n :: u64)"
proof (rule ccontr)
  let ?g = "\<lambda>n. (t, 3 + of_nat n :: u64)"
  assume "\<not> ?thesis"
  then have "bt_contains table (?g n)" if "n \<le> length table" for n using that by blast
  then have all: "?g ` {..length table} \<subseteq> fst ` set table"
    using bt_get_in_dom [of table] unfolding bt_contains_def by blast
  have "inj_on ?g {..length table}"
  proof (rule inj_onI)
    fix m n assume mn: "m \<in> {..length table}" "n \<in> {..length table}" "?g m = ?g n"
    then have "unat (3 + of_nat m :: u64) = unat (3 + of_nat n :: u64)" by simp
    moreover have "m < 2 ^ 64 - 3" "n < 2 ^ 64 - 3" using mn(1,2) assms by auto
    ultimately show "m = n" using unat_3_plus [of m] unat_3_plus [of n] by linarith
  qed
  then have "card (?g ` {..length table}) = Suc (length table)" by (simp add: card_image)
  moreover have "card (fst ` set table) \<le> length table"
    using card_image_le [of "set table" fst] card_length [of table] by simp
  moreover have "card (?g ` {..length table}) \<le> card (fst ` set table)"
    by (rule card_mono [OF _ all]) simp
  ultimately show False by linarith
qed

lemma next_fd_from_run:
  assumes "\<not> bt_contains table (t, 3 + of_nat n)" "\<And>m. m < n \<Longrightarrow> bt_contains table (t, 3 + of_nat m)" "m \<le> n"
  shows "next_fd_from t table (3 + of_nat m) = Some (3 + of_nat n)"
  using assms(3)
proof (induction rule: inc_induct)
  case base
  show ?case using assms(1) by (simp add: next_fd_from.simps)
next
  case (step m)
  then show ?case using assms(2) [of m] next_fd_from.simps [of t table "3 + of_nat m"]
    by (simp add: add.commute add.left_commute)
qed

lemma next_fd_spec:
  assumes "length table < 2 ^ 64 - 3"
  shows "\<exists>fd. next_fd t table = Some fd \<and> 3 \<le> fd \<and> \<not> bt_contains table (t, fd)
    \<and> (\<forall>g. 3 \<le> g \<and> g < fd \<longrightarrow> bt_contains table (t, g)) \<and> unat fd \<le> 3 + length table"
proof -
  define n where "n = (LEAST n. \<not> bt_contains table (t, 3 + of_nat n :: u64))"
  obtain n0 where n0: "n0 \<le> length table" "\<not> bt_contains table (t, 3 + of_nat n0 :: u64)"
    using free_fd_exists [OF assms] by blast
  have free: "\<not> bt_contains table (t, 3 + of_nat n :: u64)" unfolding n_def using n0(2) by (rule LeastI)
  have taken: "bt_contains table (t, 3 + of_nat m :: u64)" if "m < n" for m
    using not_less_Least [OF that [unfolded n_def]] by simp
  have "n \<le> length table" unfolding n_def using Least_le n0 by (metis (mono_tags, lifting) order_trans)
  then have u: "unat (3 + of_nat n :: u64) = 3 + n" using assms unat_3_plus by simp
  have r: "next_fd t table = Some (3 + of_nat n)"
    using next_fd_from_run [OF free taken, of 0] by (simp add: next_fd_def)
  have "bt_contains table (t, g)" if g: "3 \<le> g" "g < 3 + of_nat n" for g :: u64
  proof -
    have "3 \<le> unat g" "unat g < 3 + n" using g u by (simp_all add: word_le_nat_alt word_less_nat_alt)
    then have "unat g - 3 < n" by linarith
    moreover have "3 + of_nat (unat g - 3) = g" using \<open>3 \<le> unat g\<close> by (simp add: of_nat_diff)
    ultimately show ?thesis using taken by metis
  qed
  moreover have "3 \<le> (3 + of_nat n :: u64)" using u by (simp add: word_le_nat_alt)
  ultimately show ?thesis using r free u \<open>n \<le> length table\<close> by (intro exI [of _ "3 + of_nat n"]) auto
qed

section \<open>Dropping the last write end\<close>

lemma closed_mono:
  "p_write_closed (pipes k p) \<Longrightarrow> p_write_closed (pipes (fd_remove key k) p)"
  by (auto simp: fd_remove_def file_release_def node_drop_def pipe_write_drop_def pipe_read_drop_def
      split: option.splits node.splits)

lemma closed_mono_fold:
  "p_write_closed (pipes k p) \<Longrightarrow> p_write_closed (pipes (fold fd_remove ks k) p)"
  by (induction ks arbitrary: k) (auto intro: closed_mono)

lemma fd_remove_last_closes:
  assumes "bt_wf (FD_TABLE k)" "nodes (k_vfs k) i = PipeWriteEnd p" "inode_live k i" "\<not> inode_live (fd_remove key k) i"
  shows "p_write_closed (pipes (fd_remove key k) p)"
proof -
  obtain key' f where e: "(key', f) \<in> set (FD_TABLE k)" "of_inode (files k f) = i"
    using assms(3) by (auto simp: inode_live_def)
  have gone: "of_inode (files k g) \<noteq> i" if "(h, g) \<in> set (FD_TABLE k)" "h \<noteq> key" for h g
    using assms(4) that by (cases h) (auto simp: inode_live_def bt_remove_def)
  then have "key' = key" using e by blast
  then have g: "bt_get (FD_TABLE k) key = Some f" using e(1) bt_get_mem [OF assms(1)] by blast
  let ?k1 = "k\<lparr>FD_TABLE := bt_remove key (FD_TABLE k)\<rparr>"
  have "f \<notin> snd ` set (bt_remove key (FD_TABLE k))"
    using gone [of _ f] e(2) by (force simp: bt_remove_def)
  moreover have "\<not> inode_live ?k1 i" using gone by (auto simp: inode_live_def bt_remove_def)
  ultimately have "fd_remove key k = node_drop (PipeWriteEnd p) ?k1"
    using g e(2) assms(2) by (simp add: fd_remove_def file_release_def)
  then show ?thesis by (simp add: node_drop_def pipe_write_drop_def)
qed

lemma fold_fd_remove_closes:
  assumes "bt_wf (FD_TABLE k)" "nodes (k_vfs k) i = PipeWriteEnd p" "inode_live k i"
    "\<not> inode_live (fold fd_remove ks k) i"
  shows "p_write_closed (pipes (fold fd_remove ks k) p)"
  using assms
proof (induction ks arbitrary: k)
  case (Cons key ks)
  show ?case
  proof (cases "inode_live (fd_remove key k) i")
    case True
    then show ?thesis using Cons.IH [of "fd_remove key k"] Cons.prems by simp
  next
    case False
    then show ?thesis using fd_remove_last_closes [OF Cons.prems(1-3)] closed_mono_fold by simp
  qed
qed simp

section \<open>Properties\<close>

text \<open>C34: The search for a descriptor ends and returns the lowest free one from 3: every descriptor
  between 3 and the result is taken, and the result exceeds 3 by at most the size of the table.\<close>

theorem next_fd_lowest:
  assumes "length table < 2 ^ 64 - 3"
  shows "\<exists>fd. next_fd t table = Some fd \<and> 3 \<le> fd \<and> \<not> bt_contains table (t, fd)
    \<and> (\<forall>g. 3 \<le> g \<and> g < fd \<longrightarrow> bt_contains table (t, g)) \<and> unat fd \<le> 3 + length table"
  using assms by (rule next_fd_spec)

definition demo_table :: "(u64 \<times> u64, file_ref) btree" where
  "demo_table = [((1, 3), 0), ((1, 4), 1), ((2, 5), 2)]"

theorem next_fd_lowest_witness:
  "length demo_table < 2 ^ 64 - 3
   \<and> (\<exists>fd. next_fd 1 demo_table = Some fd \<and> 3 \<le> fd \<and> \<not> bt_contains demo_table (1, fd))"
proof -
  have "length demo_table < 2 ^ 64 - 3" by (simp add: demo_table_def)
  then show ?thesis using next_fd_lowest by blast
qed

text \<open>\<open>dup\<close> makes a second name for the same open file: the new descriptor was free, both
  descriptors refer to the same open file, a seek through one moves the cursor of the other, and no
  other descriptor of any task changes.\<close>

theorem dup_shares_cursor:
  assumes "bt_wf (FD_TABLE k)" "length (FD_TABLE k) < 2 ^ 64 - 3" "fd_get t old_fd k = Some f"
  shows "\<exists>new_fd k'. fd_dup t old_fd k = Some (Some new_fd, k') \<and> fd_get t new_fd k = None
    \<and> fd_get t new_fd k' = Some f \<and> fd_get t old_fd k' = Some f
    \<and> of_offset (files (snd (fd_seek t new_fd off k')) f) = off
    \<and> (\<forall>t' fd. (t', fd) \<noteq> (t, new_fd) \<longrightarrow> fd_get t' fd k' = fd_get t' fd k)"
proof -
  obtain new_fd where n: "next_fd t (FD_TABLE k) = Some new_fd" "\<not> bt_contains (FD_TABLE k) (t, new_fd)"
    using next_fd_spec [OF assms(2), of t] by blast
  then have "new_fd \<noteq> old_fd" using assms(3) by (auto simp: bt_contains_def fd_get_def)
  then show ?thesis using n assms
    by (intro exI [of _ new_fd] exI [of _ "fd_insert (t, new_fd) f k"])
      (auto simp: fd_dup_def fd_get_def bt_contains_def fd_seek_def set_offset_def)
qed

definition demo_kernel :: kernel where
  "demo_kernel = init_stdio 2
     \<lparr>k_vfs = set_root 0 \<lparr>nodes = (\<lambda>_. RamDir [] [])(1 := RamFile [0x66] [10, 20, 30], 0 := RamDir [] [([0x66], 1)]),
               next_node = 2, MOUNT_TABLE = []\<rparr>,
      FD_TABLE = [], files = (\<lambda>_. \<lparr>of_inode = 0, of_offset = 0\<rparr>), next_file = 0, NEXT_FD = 3,
      pipes = (\<lambda>_. pipe_new), next_pipe = 0, k_ipc = IpcSpace_new, k_sched = demo_sched 1,
      INPUT_BUF = rb_new, serial_out = [], KERNEL_TTY = None, EXECUTOR = None, umem = (\<lambda>_. 0)\<rparr>"

lemmas demo_kernel_simps = demo_kernel_def init_stdio_def init_stdio_fd_def add_node_def arc_new_node_def
  arc_new_file_def

lemma demo_kernel_table: "FD_TABLE demo_kernel = [((2, 0), 0), ((2, 1), 1), ((2, 2), 2)]"
  by (simp add: demo_kernel_simps Let_def less_prod_def less_eq_prod_def)

theorem dup_shares_cursor_witness:
  "\<exists>new_fd k'. fd_dup 2 0 demo_kernel = Some (Some new_fd, k') \<and> fd_get 2 new_fd k' = Some 0"
proof -
  have "bt_wf (FD_TABLE demo_kernel)" "length (FD_TABLE demo_kernel) < 2 ^ 64 - 3"
    "fd_get 2 0 demo_kernel = Some 0"
    by (simp_all add: demo_kernel_table fd_get_def bt_wf_def)
  from dup_shares_cursor [OF this] show ?thesis by blast
qed


definition demo_piped :: kernel where
  "demo_piped = snd (snd (the (create_pipe 2 demo_kernel)))"

lemma demo_create_pipe: "\<exists>k. create_pipe 2 demo_kernel = Some (3, 4, k)
    \<and> FD_TABLE k = [((2, 0), 0), ((2, 1), 1), ((2, 2), 2), ((2, 3), 3), ((2, 4), 4)]
    \<and> of_inode (files k 3) = 5 \<and> of_inode (files k 4) = 6 \<and> nodes (k_vfs k) 6 = PipeWriteEnd 0"
proof -
  have n: "next_node (k_vfs demo_kernel) = 5" "next_file demo_kernel = 3" "next_pipe demo_kernel = 0"
    by (simp_all add: demo_kernel_simps set_root_def mount_def Let_def)
  show ?thesis
    by (simp add: create_pipe_def add_node_def arc_new_node_def insert_inode_def Let_def split_beta
        demo_kernel_table next_fd_def next_fd_from.simps bt_contains_def less_prod_def less_eq_prod_def n)
qed


text \<open>\<open>open\<close> takes its descriptor from the global counter without looking at the table: if that
  descriptor is already open (from \<open>dup\<close> or \<open>pipe\<close>), \<open>open\<close> silently replaces it.\<close>

theorem open_overwrites_descriptor:
  assumes "bt_wf (FD_TABLE k)" "lookup_path (k_vfs k) path = Some i" "fd_get t (NEXT_FD k) k = Some f"
    "f < next_file k"
  shows "fst (fd_open t path k) = Some (NEXT_FD k)
    \<and> (\<exists>g. fd_get t (NEXT_FD k) (snd (fd_open t path k)) = Some g \<and> g \<noteq> f)"
  using assms by (simp add: fd_open_def Let_def fd_get_def split_beta)

definition demo_dup :: kernel where
  "demo_dup = snd (the (fd_dup 2 0 demo_kernel))"

lemma demo_next_fd: "next_fd 2 (FD_TABLE demo_kernel) = Some 3"
  by (simp add: next_fd_def next_fd_from.simps demo_kernel_table bt_contains_def)

lemma demo_dup_table: "FD_TABLE demo_dup = [((2, 0), 0), ((2, 1), 1), ((2, 2), 2), ((2, 3), 0)]"
  using demo_next_fd
  by (simp add: demo_dup_def fd_dup_def demo_kernel_table fd_get_def less_prod_def)

lemma demo_dup_frame: "k_vfs demo_dup = k_vfs demo_kernel" "NEXT_FD demo_dup = NEXT_FD demo_kernel"
  "next_file demo_dup = next_file demo_kernel"
  using demo_next_fd by (simp_all add: demo_dup_def fd_dup_def fd_get_def demo_kernel_table)

theorem open_overwrites_descriptor_witness:
  "fd_get 2 3 demo_dup = Some 0 \<and> fst (fd_open 2 [SLASH] demo_dup) = Some 3
   \<and> (\<exists>g. fd_get 2 3 (snd (fd_open 2 [SLASH] demo_dup)) = Some g \<and> g \<noteq> 0)"
proof -
  have n: "NEXT_FD demo_dup = 3" "next_file demo_dup = 3"
    by (simp_all add: demo_dup_frame demo_kernel_simps Let_def)
  have "lookup_path (k_vfs demo_dup) [SLASH] = Some 0"
    by (simp add: demo_dup_frame demo_kernel_simps Let_def lookup_path_def set_root_def mount_def
        normalize_mount_path_def sort_mounts_def mount_matches_def starts_with_def mount_remainder_def
        trim_start_matches_def)
  moreover have g: "fd_get 2 3 demo_dup = Some 0" "bt_wf (FD_TABLE demo_dup)"
    by (simp_all add: demo_dup_table fd_get_def bt_wf_def)
  ultimately show ?thesis using open_overwrites_descriptor [of demo_dup "[SLASH]" 0 2 0] n by simp
qed

end
