(* ===== verification/Syscall.thy ===== *)
theory Syscall
  imports Fd
begin

text \<open>
  kernel/src/syscall.rs: validation of user pointers and the handlers of every system
  call. A handler returns a value to the caller, blocks inside the kernel, never
  returns (exit), loops forever (a search for a free descriptor that found none), or
  panics. Interrupts are masked from entry to return, so a handler
  runs without interleaving up to the point where it blocks; a blocked handler goes on
  with another pass of its loop, which is the same handler applied again.
\<close>

abbreviation ERRNO_EBADF :: u64 where "ERRNO_EBADF \<equiv> U64_MAX - 8"
abbreviation ERRNO_ECHILD :: u64 where "ERRNO_ECHILD \<equiv> U64_MAX - 9"
abbreviation ERRNO_EAGAIN :: u64 where "ERRNO_EAGAIN \<equiv> U64_MAX - 11"
abbreviation ERRNO_ENOMEM :: u64 where "ERRNO_ENOMEM \<equiv> U64_MAX - 11"
abbreviation ERRNO_EFAULT :: u64 where "ERRNO_EFAULT \<equiv> U64_MAX - 13"
abbreviation ERRNO_ENOENT :: u64 where "ERRNO_ENOENT \<equiv> U64_MAX - 2"
abbreviation ERRNO_EINVAL :: u64 where "ERRNO_EINVAL \<equiv> U64_MAX - 21"
abbreviation ERRNO_ENOTDIR :: u64 where "ERRNO_ENOTDIR \<equiv> U64_MAX - 19"
abbreviation ERRNO_EPIPE :: u64 where "ERRNO_EPIPE \<equiv> U64_MAX - 31"

definition USER_SPACE_START :: u64 where "USER_SPACE_START = 0"
definition USER_SPACE_END :: u64 where "USER_SPACE_END = 0x0000800000000000"

definition saturating_add :: "u64 \<Rightarrow> u64 \<Rightarrow> u64" where
  "saturating_add a b = (if a + b < a then U64_MAX else a + b)"

definition is_user_accessible :: "u64 \<Rightarrow> u64 \<Rightarrow> bool" where
  "is_user_accessible ptr len =
     (let addr = ptr; end_addr = saturating_add addr len
      in USER_SPACE_START \<le> addr \<and> end_addr \<le> USER_SPACE_END \<and> addr < end_addr \<and> ptr \<noteq> 0)"

datatype sys_result =
  SysRet u64 kernel
| SysBlocked kernel
| SysNoReturn kernel
| SysDiverges
| SysPanic

section \<open>User memory and strings\<close>

definition copy_to_user :: "u64 \<Rightarrow> bytes \<Rightarrow> kernel \<Rightarrow> kernel" where
  "copy_to_user a bs k = k\<lparr>umem := mem_write a bs (umem k)\<rparr>"

text \<open>Splitting a path at its last slash.\<close>

definition rsplit_path :: "str \<Rightarrow> str \<times> str" where
  "rsplit_path path =
     (let name = rev (takeWhile (\<lambda>c. c \<noteq> SLASH) (rev path));
          pre = take (length path - length name) path
      in if pre = [] then ([SLASH], path)
         else if length pre = 1 then ([SLASH], name)
         else (butlast pre, name))"

text \<open>The path argument of the calls that take one: a user range holding well-formed UTF-8.\<close>

definition user_path :: "u64 \<Rightarrow> u64 \<Rightarrow> kernel \<Rightarrow> u64 + str" where
  "user_path ptr len k =
     (if \<not> is_user_accessible ptr len then Inl ERRNO_EFAULT
      else let bs = mem_read (umem k) ptr (unat len)
           in if utf8_ok bs then Inr bs else Inl ERRNO_EINVAL)"

section \<open>Reading and writing an inode\<close>

datatype io_read = RdDone bytes kernel | RdBlock kernel | RdPanic
datatype io_write = WrDone u64 kernel | WrPanic

definition inode_read :: "inode_ref \<Rightarrow> u64 \<Rightarrow> nat \<Rightarrow> kernel \<Rightarrow> io_read" where
  "inode_read r off len k =
     (case nodes (k_vfs k) r of
        RamFile _ data \<Rightarrow> (case ramfile_read data off len of Some bs \<Rightarrow> RdDone bs k | None \<Rightarrow> RdPanic)
      | PipeReadEnd p \<Rightarrow>
          (case pipe_read len (pipes k p) (k_sched k) of
             (Some bs, p', s') \<Rightarrow> RdDone bs (k\<lparr>pipes := (pipes k)(p := p'), k_sched := s'\<rparr>)
           | (None, p', s') \<Rightarrow> RdBlock (k\<lparr>pipes := (pipes k)(p := p'), k_sched := s'\<rparr>))
      | StdinINode \<Rightarrow>
          (if len = 0 then RdDone [] k
           else case pop_key (INPUT_BUF k) of
                  (Some b, rb) \<Rightarrow> RdDone [b] (k\<lparr>INPUT_BUF := rb\<rparr>)
                | (None, rb) \<Rightarrow> RdBlock (k\<lparr>INPUT_BUF := rb\<rparr>))
      | _ \<Rightarrow> RdDone [] k)"

definition inode_write :: "inode_ref \<Rightarrow> u64 \<Rightarrow> bytes \<Rightarrow> kernel \<Rightarrow> io_write" where
  "inode_write r off buf k =
     (case nodes (k_vfs k) r of
        RamFile name data \<Rightarrow>
          (case ramfile_write data off buf of
             Some (n, data') \<Rightarrow>
               WrDone (of_nat n)
                 (k\<lparr>k_vfs := (k_vfs k)\<lparr>nodes := (nodes (k_vfs k))(r := RamFile name data')\<rparr>\<rparr>)
           | None \<Rightarrow> WrPanic)
      | PipeWriteEnd p \<Rightarrow>
          (case pipe_write buf (pipes k p) of
             (n, p', ws) \<Rightarrow>
               WrDone n (k\<lparr>pipes := (pipes k)(p := p'), k_sched := fold wake_task ws (k_sched k)\<rparr>))
      | StdoutINode \<Rightarrow>
          (if utf8_ok buf
           then (case tty_print buf (KERNEL_TTY k) of
                   Some tty \<Rightarrow> WrDone (of_nat (length buf)) (k\<lparr>serial_out := serial_out k @ buf, KERNEL_TTY := tty\<rparr>)
                 | None \<Rightarrow> WrPanic)
           else WrDone 0 k)
      | StderrINode \<Rightarrow>
          (if utf8_ok buf
           then WrDone (of_nat (length buf)) (k\<lparr>serial_out := serial_out k @ buf\<rparr>)
           else WrDone 0 k)
      | _ \<Rightarrow> WrDone 0 k)"

section \<open>Handlers\<close>

abbreviation cur_id :: "kernel \<Rightarrow> u64" where
  "cur_id k \<equiv> current_task_id (k_sched k)"

definition sys_read :: "u64 \<Rightarrow> u64 \<Rightarrow> u64 \<Rightarrow> kernel \<Rightarrow> sys_result" where
  "sys_read fd ptr len k =
     (if len = 0 then SysRet 0 k
      else if \<not> is_user_accessible ptr len then SysRet ERRNO_EFAULT k
      else case fd_get (cur_id k) fd k of
             None \<Rightarrow> SysRet ERRNO_EBADF k
           | Some f \<Rightarrow>
               (let off = of_offset (files k f)
                in case inode_read (of_inode (files k f)) off (unat len) k of
                     RdPanic \<Rightarrow> SysPanic
                   | RdBlock k1 \<Rightarrow> SysBlocked k1
                   | RdDone bs k1 \<Rightarrow>
                       SysRet (of_nat (length bs))
                         (set_offset f (off + of_nat (length bs)) (copy_to_user ptr bs k1))))"

definition sys_write :: "u64 \<Rightarrow> u64 \<Rightarrow> u64 \<Rightarrow> kernel \<Rightarrow> sys_result" where
  "sys_write fd ptr len k =
     (if \<not> is_user_accessible ptr len then SysRet ERRNO_EFAULT k
      else case fd_get (cur_id k) fd k of
             None \<Rightarrow> SysRet ERRNO_EBADF k
           | Some f \<Rightarrow>
               (let off = of_offset (files k f);
                    buf = mem_read (umem k) ptr (unat len)
                in case inode_write (of_inode (files k f)) off buf k of
                     WrPanic \<Rightarrow> SysPanic
                   | WrDone n k1 \<Rightarrow> SysRet n (set_offset f (off + n) k1)))"

definition sys_exit :: "u64 \<Rightarrow> kernel \<Rightarrow> sys_result" where
  "sys_exit arg1 k =
     (case take_current (k_sched k) of
        (None, s1) \<Rightarrow> SysNoReturn (k\<lparr>k_sched := s1\<rparr>)
      | (Some r, s1) \<Rightarrow>
          (let s2 = exit_mark (ucast arg1) r s1;
               k2 = fd_cleanup (t_id (tcb s2 r)) (k\<lparr>k_sched := s2\<rparr>);
               s3 = push_zombie r (exit_notify_parent r (k_sched k2))
           in SysNoReturn (k2\<lparr>k_sched := exit_sched (exit_switch s3)\<rparr>)))"

definition sys_getpid :: "kernel \<Rightarrow> sys_result" where
  "sys_getpid k = SysRet (cur_id k) k"

definition sys_getppid :: "kernel \<Rightarrow> sys_result" where
  "sys_getppid k =
     SysRet (case current_task_arc (k_sched k) of
               Some a \<Rightarrow> t_parent_id (tcb (k_sched k) a) | None \<Rightarrow> 0) k"

definition sys_wait :: "u64 \<Rightarrow> u64 \<Rightarrow> u64 \<Rightarrow> kernel \<Rightarrow> sys_result" where
  "sys_wait pid status_ptr opts k =
     (case task_wait pid (opts AND 1 \<noteq> 0) (k_sched k) of
        NoChild \<Rightarrow> SysRet ERRNO_ECHILD k
      | NoHang s \<Rightarrow> SysRet 0 (k\<lparr>k_sched := s\<rparr>)
      | WaitBlocked s \<Rightarrow> SysBlocked (k\<lparr>k_sched := s\<rparr>)
      | Reaped child_pid exit_status s \<Rightarrow>
          (let k1 = k\<lparr>k_sched := s\<rparr>
           in SysRet child_pid
                (if status_ptr \<noteq> 0 \<and> is_user_accessible status_ptr 4
                 then copy_to_user status_ptr (to_le 4 (push_bit 8 (exit_status AND 0xFF))) k1
                 else k1)))"

text \<open>\<open>spawn_user_process\<close> is an argument here: it works on the memory of the machine, which the other calls do
  not touch, and is modelled on both in theory \<open>Process\<close>.\<close>

definition sys_spawn :: "(str \<Rightarrow> u64 \<Rightarrow> kernel \<Rightarrow> (string + u64) \<times> kernel) \<Rightarrow> u64 \<Rightarrow> u64 \<Rightarrow> kernel \<Rightarrow> sys_result" where
  "sys_spawn spawn ptr len k =
     (case user_path ptr len k of
        Inl e \<Rightarrow> SysRet e k
      | Inr path \<Rightarrow>
          (case spawn path (cur_id k) k of
             (Inr child_id, k1) \<Rightarrow> SysRet child_id k1
           | (Inl _, k1) \<Rightarrow> SysRet ERRNO_ENOENT k1))"

definition sys_open :: "u64 \<Rightarrow> u64 \<Rightarrow> kernel \<Rightarrow> sys_result" where
  "sys_open ptr len k =
     (case user_path ptr len k of
        Inl e \<Rightarrow> SysRet e k
      | Inr path \<Rightarrow>
          (case fd_open (cur_id k) path k of
             (Some fd, k1) \<Rightarrow> SysRet fd k1
           | (None, k1) \<Rightarrow> SysRet ERRNO_ENOENT k1))"

definition sys_close :: "u64 \<Rightarrow> kernel \<Rightarrow> sys_result" where
  "sys_close fd k =
     (case fd_close (cur_id k) fd k of
        (True, k1) \<Rightarrow> SysRet 0 k1 | (False, k1) \<Rightarrow> SysRet ERRNO_EBADF k1)"

definition sys_seek :: "u64 \<Rightarrow> u64 \<Rightarrow> kernel \<Rightarrow> sys_result" where
  "sys_seek fd offset k =
     (case fd_seek (cur_id k) fd offset k of
        (True, k1) \<Rightarrow> SysRet 0 k1 | (False, k1) \<Rightarrow> SysRet ERRNO_EBADF k1)"

definition sys_yield :: "kernel \<Rightarrow> sys_result" where
  "sys_yield k = SysRet 0 (k\<lparr>EXECUTOR := map_option executor_yield (EXECUTOR k)\<rparr>)"

definition set_port :: "port_ref \<Rightarrow> Port \<Rightarrow> kernel \<Rightarrow> kernel" where
  "set_port r p k = k\<lparr>k_ipc := (k_ipc k)\<lparr>ipc_heap := (ipc_heap (k_ipc k))(r := p)\<rparr>\<rparr>"

definition sys_send :: "u64 \<Rightarrow> u64 \<Rightarrow> u64 \<Rightarrow> u64 \<Rightarrow> kernel \<Rightarrow> sys_result" where
  "sys_send pid msg_type ptr len k =
     (if MAX_MSG_SIZE < unat len then SysRet ERRNO_EINVAL k
      else if \<not> is_user_accessible ptr len then SysRet ERRNO_EFAULT k
      else let data = overlay (replicate MAX_MSG_SIZE 0) 0 (mem_read (umem k) ptr (unat len));
               msg = \<lparr>m_sender_id = cur_id k, m_id = msg_type, m_len = len, m_data = data\<rparr>
           in case get_port pid (k_ipc k) of
                None \<Rightarrow> SysRet ERRNO_ENOENT k
              | Some r \<Rightarrow>
                  (case port_send msg (ipc_heap (k_ipc k) r) of
                     (ok, p', ws) \<Rightarrow>
                       SysRet (if ok then 0 else ERRNO_EAGAIN)
                         (set_port r p' (k\<lparr>k_sched := fold wake_task ws (k_sched k)\<rparr>))))"

text \<open>The message leaves the queue before the user buffer is validated.\<close>

definition deliver :: "Message \<Rightarrow> u64 \<Rightarrow> kernel \<Rightarrow> sys_result" where
  "deliver msg out_ptr k =
     (if \<not> is_user_accessible out_ptr (m_len msg) then SysRet ERRNO_EFAULT k
      else SysRet (m_id msg) (copy_to_user out_ptr (take (unat (m_len msg)) (m_data msg)) k))"

definition sys_recv :: "u64 \<Rightarrow> u64 \<Rightarrow> kernel \<Rightarrow> sys_result" where
  "sys_recv pid out_ptr k =
     (case get_port pid (k_ipc k) of
        None \<Rightarrow> SysRet ERRNO_ENOENT k
      | Some r \<Rightarrow>
          (case port_receive (ipc_heap (k_ipc k) r) of
             (None, p') \<Rightarrow> SysRet ERRNO_EAGAIN k
           | (Some msg, p') \<Rightarrow> deliver msg out_ptr (set_port r p' k)))"

definition sys_recv_block :: "u64 \<Rightarrow> u64 \<Rightarrow> kernel \<Rightarrow> sys_result" where
  "sys_recv_block pid out_ptr k =
     (case get_port pid (k_ipc k) of
        None \<Rightarrow> SysRet ERRNO_ENOENT k
      | Some r \<Rightarrow>
          (case port_receive_blocking (ipc_heap (k_ipc k) r) (k_sched k) of
             (None, p', s') \<Rightarrow> SysBlocked (set_port r p' (k\<lparr>k_sched := s'\<rparr>))
           | (Some msg, p', s') \<Rightarrow> deliver msg out_ptr (set_port r p' (k\<lparr>k_sched := s'\<rparr>))))"

definition sys_dup :: "u64 \<Rightarrow> kernel \<Rightarrow> sys_result" where
  "sys_dup old_fd k =
     (case fd_dup (cur_id k) old_fd k of
        None \<Rightarrow> SysDiverges
      | Some (Some new_fd, k1) \<Rightarrow> SysRet new_fd k1
      | Some (None, k1) \<Rightarrow> SysRet ERRNO_EBADF k1)"

definition sys_dup2 :: "u64 \<Rightarrow> u64 \<Rightarrow> kernel \<Rightarrow> sys_result" where
  "sys_dup2 old_fd new_fd k =
     (case fd_dup2 (cur_id k) old_fd new_fd k of
        (Some fd, k1) \<Rightarrow> SysRet fd k1 | (None, k1) \<Rightarrow> SysRet ERRNO_EBADF k1)"

definition sys_pipe :: "u64 \<Rightarrow> kernel \<Rightarrow> sys_result" where
  "sys_pipe pipefd_ptr k =
     (if \<not> is_user_accessible pipefd_ptr 16 then SysRet ERRNO_EFAULT k
      else case create_pipe (cur_id k) k of
             None \<Rightarrow> SysDiverges
           | Some (rfd, wfd, k1) \<Rightarrow>
               SysRet 0 (copy_to_user (pipefd_ptr + 8) (to_le 8 wfd) (copy_to_user pipefd_ptr (to_le 8 rfd) k1)))"

section \<open>Directory listing\<close>

definition dirent_reclen :: "str \<Rightarrow> nat" where
  "dirent_reclen name = (19 + length name + 7) div 8 * 8"

definition dirent_slot :: "nat \<Rightarrow> str \<Rightarrow> FileType \<Rightarrow> bytes" where
  "dirent_slot index name ft =
     (let reclen = dirent_reclen name;
          d_type = (case ft of Directory \<Rightarrow> 4 | _ \<Rightarrow> 8);
          s0 = replicate reclen 0;
          s1 = overlay s0 0 (to_le 8 (of_nat index + 1 :: u64));
          s2 = overlay s1 8 (to_le 8 (of_nat (index + 1) :: u64));
          s3 = overlay s2 16 (to_le 2 (of_nat reclen :: u16));
          s4 = s3[18 := d_type]
      in overlay s4 19 name)"

text \<open>The loop over the entries from \<open>index\<close> on: the bytes written and the next index.\<close>

fun getdents_loop :: "nat \<Rightarrow> (str \<times> FileType) list \<Rightarrow> nat \<Rightarrow> nat \<Rightarrow> bytes \<times> nat" where
  "getdents_loop buf_len [] index written = ([], index)"
| "getdents_loop buf_len ((name, ft) # es) index written =
     (if buf_len < written + dirent_reclen name then ([], index)
      else let (bs, i) = getdents_loop buf_len es (index + 1) (written + dirent_reclen name)
           in (dirent_slot index name ft @ bs, i))"

definition sys_getdents :: "u64 \<Rightarrow> u64 \<Rightarrow> u64 \<Rightarrow> kernel \<Rightarrow> sys_result" where
  "sys_getdents fd buf_ptr buf_len k =
     (if buf_len = 0 \<or> \<not> is_user_accessible buf_ptr buf_len then SysRet ERRNO_EFAULT k
      else case fd_get (cur_id k) fd k of
             None \<Rightarrow> SysRet ERRNO_EBADF k
           | Some f \<Rightarrow>
               (case inode_readdir (of_inode (files k f)) (k_vfs k) of
                  None \<Rightarrow> SysRet ERRNO_ENOTDIR k
                | Some entries \<Rightarrow>
                    (let start_index = unat (of_offset (files k f))
                     in if length entries \<le> start_index then SysRet 0 k
                        else let (bs, index) = getdents_loop (unat buf_len) (drop start_index entries) start_index 0
                             in SysRet (of_nat (length bs))
                                  (set_offset f (of_nat index) (copy_to_user buf_ptr bs k)))))"

definition sys_mkdir :: "u64 \<Rightarrow> u64 \<Rightarrow> kernel \<Rightarrow> sys_result" where
  "sys_mkdir ptr len k =
     (case user_path ptr len k of
        Inl e \<Rightarrow> SysRet e k
      | Inr path \<Rightarrow>
          (case rsplit_path path of
             (parent_path, name) \<Rightarrow>
               (case lookup_path (k_vfs k) parent_path of
                  None \<Rightarrow> SysRet ERRNO_ENOENT k
                | Some dir \<Rightarrow>
                    (case inode_mkdir dir name (k_vfs k) of
                       (Inr _, v) \<Rightarrow> SysRet 0 (k\<lparr>k_vfs := v\<rparr>)
                     | (Inl _, v) \<Rightarrow> SysRet ERRNO_EINVAL (k\<lparr>k_vfs := v\<rparr>)))))"

definition sys_unlink :: "u64 \<Rightarrow> u64 \<Rightarrow> kernel \<Rightarrow> sys_result" where
  "sys_unlink ptr len k =
     (case user_path ptr len k of
        Inl e \<Rightarrow> SysRet e k
      | Inr path \<Rightarrow>
          (case rsplit_path path of
             (parent_path, name) \<Rightarrow>
               (case lookup_path (k_vfs k) parent_path of
                  None \<Rightarrow> SysRet ERRNO_ENOENT k
                | Some dir \<Rightarrow>
                    (case inode_unlink dir name (k_vfs k) of
                       (Inr _, v) \<Rightarrow> SysRet 0 (k\<lparr>k_vfs := v\<rparr>)
                     | (Inl _, v) \<Rightarrow> SysRet ERRNO_ENOENT (k\<lparr>k_vfs := v\<rparr>)))))"

section \<open>The dispatcher\<close>

definition syscall_dispatcher ::
  "(str \<Rightarrow> u64 \<Rightarrow> kernel \<Rightarrow> (string + u64) \<times> kernel)
   \<Rightarrow> u64 \<Rightarrow> u64 \<Rightarrow> u64 \<Rightarrow> u64 \<Rightarrow> u64 \<Rightarrow> kernel \<Rightarrow> sys_result" where
  "syscall_dispatcher spawn nr arg1 arg2 arg3 arg4 k =
     (if nr = 12 then sys_read arg1 arg2 arg3 k
      else if nr = 13 then sys_write arg1 arg2 arg3 k
      else if nr = 0 then sys_exit arg1 k
      else if nr = 2 then sys_getpid k
      else if nr = 3 then sys_getppid k
      else if nr = 5 then sys_wait arg1 arg2 arg3 k
      else if nr = 4 then sys_spawn spawn arg1 arg2 k
      else if nr = 10 then sys_open arg1 arg2 k
      else if nr = 11 then sys_close arg1 k
      else if nr = 14 then sys_seek arg1 arg2 k
      else if nr = 1 then sys_yield k
      else if nr = 30 then sys_send arg1 arg2 arg3 arg4 k
      else if nr = 31 then sys_recv arg1 arg2 k
      else if nr = 32 then sys_recv_block arg1 arg2 k
      else if nr = 15 then sys_dup arg1 k
      else if nr = 16 then sys_dup2 arg1 arg2 k
      else if nr = 17 then sys_pipe arg1 k
      else if nr = 18 then sys_getdents arg1 arg2 arg3 k
      else if nr = 20 then sys_mkdir arg1 arg2 k
      else if nr = 21 then sys_unlink arg1 arg2 k
      else SysRet ERRNO_EINVAL k)"

lemmas sys_defs = sys_read_def sys_write_def sys_exit_def sys_getpid_def sys_getppid_def sys_wait_def
  sys_open_def sys_close_def sys_seek_def sys_yield_def sys_send_def sys_recv_def sys_recv_block_def
  sys_dup_def sys_dup2_def sys_pipe_def sys_getdents_def sys_mkdir_def sys_unlink_def

section \<open>User pointers\<close>

lemma is_user_accessible_iff:
  "is_user_accessible ptr len \<longleftrightarrow> 0 < unat ptr \<and> 0 < unat len \<and> unat ptr + unat len \<le> 2 ^ 47"
proof -
  have p: "unat ptr < 2 ^ 64" "unat len < 2 ^ 64" using unsigned_less [of ptr] unsigned_less [of len] by simp_all
  have e: "unat USER_SPACE_END = 2 ^ 47" by (simp add: USER_SPACE_END_def)
  have m: "unat (U64_MAX :: u64) = 2 ^ 64 - 1" by (simp add: unsigned_minus_1_eq_mask mask_eq_exp_minus_1)
  have z: "ptr \<noteq> 0 \<longleftrightarrow> 0 < unat ptr" by (simp add: unat_gt_0)
  show ?thesis
  proof (cases "unat ptr + unat len < 2 ^ 64")
    case True
    then have u: "unat (ptr + len) = unat ptr + unat len" by (simp add: unat_word_ariths)
    then have "saturating_add ptr len = ptr + len" by (simp add: saturating_add_def word_less_nat_alt)
    then show ?thesis using u e z
      by (auto simp: is_user_accessible_def USER_SPACE_START_def word_le_nat_alt word_less_nat_alt)
  next
    case False
    then have "unat (ptr + len) = unat ptr + unat len - 2 ^ 64"
      using p by (simp add: unat_word_ariths mod_if)
    then have "saturating_add ptr len = U64_MAX"
      using p False by (auto simp: saturating_add_def word_less_nat_alt)
    then show ?thesis using e m False
      by (simp add: is_user_accessible_def USER_SPACE_START_def word_le_nat_alt)
  qed
qed

fun sys_kernel :: "sys_result \<Rightarrow> kernel option" where
  "sys_kernel (SysRet v k) = Some k"
| "sys_kernel (SysBlocked k) = Some k"
| "sys_kernel (SysNoReturn k) = Some k"
| "sys_kernel SysDiverges = None"
| "sys_kernel SysPanic = None"

text \<open>Addresses that no user buffer contains.\<close>

definition kernel_addr :: "u64 \<Rightarrow> bool" where
  "kernel_addr a \<longleftrightarrow> a = 0 \<or> USER_SPACE_END \<le> a"

definition kernel_mem_same :: "kernel \<Rightarrow> kernel \<Rightarrow> bool" where
  "kernel_mem_same k k' \<longleftrightarrow> (\<forall>a. kernel_addr a \<longrightarrow> umem k' a = umem k a)"

lemma kernel_mem_same_refl [simp]: "kernel_mem_same k k"
  by (simp add: kernel_mem_same_def)

lemma kernel_mem_sameI: "umem k' = umem k \<Longrightarrow> kernel_mem_same k k'"
  by (simp add: kernel_mem_same_def)

lemma user_range_outside:
  assumes "is_user_accessible ptr len" "kernel_addr a"
  shows "unat len \<le> unat (a - ptr)"
proof -
  have r: "0 < unat ptr" "unat ptr + unat len \<le> 2 ^ 47" using assms(1) by (simp_all add: is_user_accessible_iff)
  consider "a = 0" | "2 ^ 47 \<le> unat a"
    using assms(2) by (auto simp: kernel_addr_def USER_SPACE_END_def word_le_nat_alt)
  then show ?thesis using r unat_sub_if' [of a ptr] by cases auto
qed

lemma copy_to_user_kernel:
  assumes "is_user_accessible ptr len" "length bs \<le> unat len" "kernel_mem_same k k1"
  shows "kernel_mem_same k (copy_to_user ptr bs k1)"
  using assms user_range_outside [OF assms(1)]
  by (fastforce simp: kernel_mem_same_def copy_to_user_def mem_write_def)

lemma copy_to_user_kernel_eq:
  "is_user_accessible ptr len \<Longrightarrow> length bs \<le> unat len \<Longrightarrow> umem k1 = umem k \<Longrightarrow>
     kernel_mem_same k (copy_to_user ptr bs k1)"
  by (rule copy_to_user_kernel) (auto intro: kernel_mem_sameI)

lemma set_offset_umem [simp]: "umem (set_offset f off k) = umem k"
  by (simp add: set_offset_def)

lemma set_port_umem [simp]: "umem (set_port r p k) = umem k"
  by (simp add: set_port_def)

lemma kernel_mem_same_offset [simp]: "kernel_mem_same k (set_offset f off k') = kernel_mem_same k k'"
  by (simp add: kernel_mem_same_def)

lemma inode_read_spec:
  assumes "inode_read r off len k = RdDone bs k1"
  shows "length bs \<le> len" "umem k1 = umem k" "FD_TABLE k1 = FD_TABLE k" "files k1 = files k"
  using assms
  by (auto simp: inode_read_def ramfile_read_ok pipe_read_def pipe_pop_def Let_def
      split: node.splits option.splits prod.splits if_splits)

lemma inode_read_block:
  assumes "inode_read r off len k = RdBlock k1"
  shows "umem k1 = umem k" "FD_TABLE k1 = FD_TABLE k"
  using assms
  by (auto simp: inode_read_def ramfile_read_ok split: node.splits option.splits prod.splits if_splits)

lemma inode_write_spec:
  assumes "inode_write r off buf k = WrDone n k1"
  shows "umem k1 = umem k" "FD_TABLE k1 = FD_TABLE k" "files k1 = files k"
  using assms by (auto simp: inode_write_def split: node.splits option.splits prod.splits if_splits)

lemma length_dirent_slot: "length (dirent_slot i name ft) = dirent_reclen name"
proof -
  have "19 + length name \<le> dirent_reclen name" by (simp add: dirent_reclen_def)
  then show ?thesis by (simp add: dirent_slot_def Let_def)
qed

lemma getdents_loop_length:
  "written \<le> buf_len \<Longrightarrow> getdents_loop buf_len es index written = (bs, i) \<Longrightarrow> written + length bs \<le> buf_len"
proof (induction buf_len es index written arbitrary: bs i rule: getdents_loop.induct)
  case (2 buf_len name ft es index written)
  show ?case
  proof (cases "buf_len < written + dirent_reclen name")
    case False
    obtain bs' i' where "getdents_loop buf_len es (index + 1) (written + dirent_reclen name) = (bs', i')"
      by (cases "getdents_loop buf_len es (index + 1) (written + dirent_reclen name)")
    then show ?thesis using 2 False by (auto simp: length_dirent_slot)
  qed (use 2 in auto)
qed simp

lemma getdents_loop_fits: "getdents_loop n es index 0 = (bs, i) \<Longrightarrow> length bs \<le> n"
  using getdents_loop_length [of 0 n es index bs i] by simp

lemma sys_read_mem: "sys_kernel (sys_read fd ptr len k) = Some k' \<Longrightarrow> kernel_mem_same k k'"
  by (auto simp: sys_read_def Let_def split: if_splits option.splits io_read.splits
      intro: copy_to_user_kernel_eq [OF _ inode_read_spec(1) inode_read_spec(2)]
        kernel_mem_sameI [OF inode_read_block(1)])

lemma sys_write_mem: "sys_kernel (sys_write fd ptr len k) = Some k' \<Longrightarrow> kernel_mem_same k k'"
  using inode_write_spec
  by (auto simp: sys_write_def Let_def split: if_splits option.splits io_write.splits
      intro!: kernel_mem_sameI)

lemma fold_fd_remove_umem: "umem (fold fd_remove ks k) = umem k"
  by (induction ks arbitrary: k) simp_all

lemma sys_exit_mem: "sys_kernel (sys_exit st k) = Some k' \<Longrightarrow> umem k' = umem k"
  by (auto simp: sys_exit_def fd_cleanup_def fold_fd_remove_umem Let_def split: prod.splits option.splits)

lemma sys_wait_mem: "sys_kernel (sys_wait pid p opts k) = Some k' \<Longrightarrow> kernel_mem_same k k'"
  by (auto simp: sys_wait_def Let_def split: wait_result.splits if_splits
      intro: copy_to_user_kernel_eq [where len = 4] kernel_mem_sameI)

lemma deliver_mem:
  "sys_kernel (deliver msg p k1) = Some k' \<Longrightarrow> umem k1 = umem k \<Longrightarrow> kernel_mem_same k k'"
  by (auto simp: deliver_def split: if_splits intro: copy_to_user_kernel_eq kernel_mem_sameI)

lemma sys_send_mem: "sys_kernel (sys_send pid ty p len k) = Some k' \<Longrightarrow> umem k' = umem k"
  by (auto simp: sys_send_def Let_def split: if_splits option.splits prod.splits)

lemma sys_recv_mem: "sys_kernel (sys_recv pid p k) = Some k' \<Longrightarrow> kernel_mem_same k k'"
  by (auto simp: sys_recv_def split: option.splits prod.splits intro: deliver_mem)

lemma sys_recv_block_mem: "sys_kernel (sys_recv_block pid p k) = Some k' \<Longrightarrow> kernel_mem_same k k'"
  by (auto simp: sys_recv_block_def split: option.splits prod.splits intro: deliver_mem kernel_mem_sameI)

lemma insert_inode_umem: "insert_inode t i k = Some (fd, k') \<Longrightarrow> umem k' = umem k"
  by (auto simp: insert_inode_def Let_def split: option.splits prod.splits)
    (simp add: arc_new_file_def)

lemma create_pipe_umem: "create_pipe t k = Some (a, b, k') \<Longrightarrow> umem k' = umem k"
  by (auto simp: create_pipe_def add_node_def arc_new_node_def Let_def dest!: insert_inode_umem
      split: option.splits)

lemma sys_fd_mem:
  "sys_kernel (sys_open p len k) = Some k' \<Longrightarrow> umem k' = umem k"
  "sys_kernel (sys_close fd k) = Some k' \<Longrightarrow> umem k' = umem k"
  "sys_kernel (sys_seek fd off k) = Some k' \<Longrightarrow> umem k' = umem k"
  "sys_kernel (sys_dup fd k) = Some k' \<Longrightarrow> umem k' = umem k"
  "sys_kernel (sys_dup2 fd fd2 k) = Some k' \<Longrightarrow> umem k' = umem k"
  "sys_kernel (sys_mkdir p len k) = Some k' \<Longrightarrow> umem k' = umem k"
  "sys_kernel (sys_unlink p len k) = Some k' \<Longrightarrow> umem k' = umem k"
  by (auto simp: sys_defs fd_open_def fd_close_def fd_seek_def fd_dup_def fd_dup2_def Let_def arc_new_file_def
      split: sum.splits option.splits prod.splits if_splits bool.splits)

lemma sys_pipe_mem: "sys_kernel (sys_pipe p k) = Some k' \<Longrightarrow> kernel_mem_same k k'"
proof -
  assume s: "sys_kernel (sys_pipe p k) = Some k'"
  show ?thesis
  proof (cases "is_user_accessible p 16")
    case True
    then obtain rfd wfd k1 where c: "create_pipe (cur_id k) k = Some (rfd, wfd, k1)"
      and k': "k' = copy_to_user (p + 8) (to_le 8 wfd) (copy_to_user p (to_le 8 rfd) k1)"
      using s by (auto simp: sys_pipe_def split: option.splits)
    have "0 < unat p" "unat p + 16 \<le> 2 ^ 47" using True by (simp_all add: is_user_accessible_iff)
    then have "is_user_accessible p 8" "is_user_accessible (p + 8) 8"
      by (auto simp: is_user_accessible_iff unat_word_ariths)
    then show ?thesis unfolding k' using create_pipe_umem [OF c]
      by (intro copy_to_user_kernel [where len = 8] kernel_mem_sameI) auto
  qed (use s in \<open>auto simp: sys_pipe_def\<close>)
qed

lemma sys_getdents_mem: "sys_kernel (sys_getdents fd p len k) = Some k' \<Longrightarrow> kernel_mem_same k k'"
  by (auto simp: sys_getdents_def Let_def split: if_splits option.splits prod.splits
      intro!: copy_to_user_kernel dest: getdents_loop_fits)

lemmas sys_mem = sys_read_mem sys_write_mem sys_wait_mem sys_recv_mem sys_recv_block_mem sys_pipe_mem
  sys_getdents_mem sys_exit_mem [THEN kernel_mem_sameI] sys_send_mem [THEN kernel_mem_sameI]
  sys_fd_mem [THEN kernel_mem_sameI]

lemma sys_small_mem:
  "sys_kernel (sys_getpid k) = Some k' \<Longrightarrow> kernel_mem_same k k'"
  "sys_kernel (sys_getppid k) = Some k' \<Longrightarrow> kernel_mem_same k k'"
  "sys_kernel (sys_yield k) = Some k' \<Longrightarrow> kernel_mem_same k k'"
  by (auto simp: sys_getpid_def sys_getppid_def sys_yield_def intro: kernel_mem_sameI)

lemma sys_spawn_mem:
  assumes "\<And>path t k r k'. spawn path t k = (r, k') \<Longrightarrow> kernel_mem_same k k'"
    "sys_kernel (sys_spawn spawn p len k) = Some k'"
  shows "kernel_mem_same k k'"
  using assms(2) by (auto simp: sys_spawn_def split: sum.splits prod.splits intro: assms(1))

section \<open>Properties\<close>

text \<open>C36: The pointer check is exact: it accepts a range precisely when it is non-empty, does not start
  at the null address and lies below the 128 TiB limit of user space, for every pointer and
  length including those whose sum exceeds 64 bits.\<close>

theorem is_user_accessible_exact:
  "is_user_accessible ptr len \<longleftrightarrow>
     0 < unat len \<and> (\<forall>i<unat len. 0 < unat ptr + i \<and> unat ptr + i < 2 ^ 47) \<and> ptr \<noteq> 0"
proof -
  have "is_user_accessible ptr len \<longleftrightarrow> 0 < unat ptr \<and> 0 < unat len \<and> unat ptr + unat len \<le> 2 ^ 47"
    by (rule is_user_accessible_iff)
  moreover have "0 < unat ptr \<longleftrightarrow> ptr \<noteq> 0" by (simp add: unat_gt_0)
  moreover have "unat ptr + unat len \<le> 2 ^ 47"
    if "0 < unat len" "\<forall>i<unat len. unat ptr + i < 2 ^ 47"
    using that(2) [rule_format, of "unat len - 1"] that(1) by simp
  ultimately show ?thesis by auto
qed

theorem is_user_accessible_exact_witness:
  "is_user_accessible 0x7FFFFFFFFFF0 16 \<and> \<not> is_user_accessible 0x7FFFFFFFFFF0 17
   \<and> \<not> is_user_accessible 0x1000 (- 1)"
proof -
  have "\<not> is_user_accessible 0x7FFFFFFFFFF0 17"
    unfolding is_user_accessible_exact by (auto intro!: exI [of _ 16])
  moreover have "is_user_accessible 0x7FFFFFFFFFF0 16" by (simp add: is_user_accessible_exact)
  moreover have "\<not> is_user_accessible 0x1000 (- 1)" by (simp add: is_user_accessible_iff unsigned_minus_1_eq_mask mask_eq_exp_minus_1)
  ultimately show ?thesis by blast
qed


lemma demo_cur_id: "cur_id demo_kernel = 2" "k_sched demo_kernel = demo_sched 1"
  by (simp_all add: demo_kernel_simps Let_def fd_insert_def demo_simps task_schedule_def)


text \<open>C10: What is written through a descriptor to a RAM file is what is read back: a write, a seek to
  where it began and a read of the same length return that length each (0 for the seek), and the
  read buffer then holds the bytes the write buffer held.\<close>

theorem write_seek_read:
  assumes "fd_get (cur_id k) fd k = Some f" "nodes (k_vfs k) (of_inode (files k f)) = RamFile name data"
    "is_user_accessible src len" "is_user_accessible dst len"
    "unat (of_offset (files k f)) + unat len < 2 ^ 63"
  shows "\<exists>k1 k2 k3. sys_write fd src len k = SysRet len k1
    \<and> sys_seek fd (of_offset (files k f)) k1 = SysRet 0 k2
    \<and> sys_read fd dst len k2 = SysRet len k3
    \<and> mem_read (umem k3) dst (unat len) = mem_read (umem k) src (unat len)"
proof -
  let ?o = "of_offset (files k f)" and ?i = "of_inode (files k f)" and ?b = "mem_read (umem k) src (unat len)"
  have lb: "length ?b = unat len" by (simp add: mem_read_def)
  obtain data' where d: "ramfile_write data ?o ?b = Some (unat len, data')"
    "ramfile_read data' ?o (unat len) = Some ?b"
  proof -
    obtain d' where d': "ramfile_write data ?o ?b = Some (length ?b, d')"
      "length d' = max (length data) (unat ?o + length ?b)"
      "\<forall>i<length d'. d' ! i = (if unat ?o \<le> i \<and> i < unat ?o + length ?b then ?b ! (i - unat ?o)
          else if i < length data then data ! i else 0)"
      using ramfile_write_ok [of ?o ?b data] assms(5) lb by auto
    have "take (length ?b) (drop (unat ?o) d') = ?b" using d'(2,3) by (intro nth_equalityI) auto
    then show ?thesis using that d' lb by (auto simp: ramfile_read_ok)
  qed
  define k1 where "k1 = set_offset f (?o + len) (k\<lparr>k_vfs := (k_vfs k)\<lparr>nodes := (nodes (k_vfs k))(?i := RamFile name data')\<rparr>\<rparr>)"
  define k2 where "k2 = set_offset f ?o k1"
  define k3 where "k3 = set_offset f (?o + len) (copy_to_user dst ?b k2)"
  have w: "sys_write fd src len k = SysRet len k1"
    using assms(1-3) d(1) by (simp add: sys_write_def Let_def inode_write_def k1_def)
  have t: "fd_get (cur_id k1) fd k1 = Some f" "fd_get (cur_id k2) fd k2 = Some f"
    using assms(1) by (simp_all add: k1_def k2_def set_offset_def fd_get_def)
  have "len \<noteq> 0" using assms(4) by (auto simp: is_user_accessible_iff)
  then have r: "sys_read fd dst len k2 = SysRet len k3"
    using t(2) assms(4) d(2) lb
    by (simp add: sys_read_def Let_def inode_read_def k2_def k1_def k3_def set_offset_def)
  have s: "sys_seek fd ?o k1 = SysRet 0 k2" using t(1) by (simp add: sys_seek_def fd_seek_def k2_def)
  have "mem_read (umem k3) dst (unat len) = ?b"
  proof (rule nth_equalityI)
    fix i assume "i < length (mem_read (umem k3) dst (unat len))"
    then have "i < unat len" by (simp add: mem_read_def)
    moreover have "unat (of_nat i :: u64) = i"
      by (rule unat_of_nat_less [OF less_trans [OF \<open>i < unat len\<close> unsigned_less]])
    ultimately show "mem_read (umem k3) dst (unat len) ! i = ?b ! i"
      using lb by (simp add: k3_def copy_to_user_def mem_write_def) (simp add: mem_read_def)
  qed (simp add: mem_read_def lb)
  then show ?thesis using w s r by blast
qed

definition demo_file :: kernel where
  "demo_file = snd (fd_open 2 [SLASH, 0x66] demo_kernel)"

lemma demo_lookup: "lookup_path (k_vfs demo_kernel) [SLASH, 0x66] = Some 1"
  by (simp add: demo_kernel_simps Let_def lookup_path_def set_root_def mount_def components_def
      normalize_mount_path_def sort_mounts_def mount_matches_def starts_with_def mount_remainder_def
      trim_start_matches_def)

lemma demo_file_facts:
  "fd_get 2 3 demo_file = Some 3" "cur_id demo_file = 2" "of_offset (files demo_file 3) = 0"
  "nodes (k_vfs demo_file) (of_inode (files demo_file 3)) = RamFile [0x66] [10, 20, 30]"
proof -
  have n: "NEXT_FD demo_kernel = 3" "next_file demo_kernel = 3" "nodes (k_vfs demo_kernel) 1 = RamFile [0x66] [10, 20, 30]"
    by (simp_all add: demo_kernel_simps Let_def set_root_def mount_def)
  show "fd_get 2 3 demo_file = Some 3" "cur_id demo_file = 2" "of_offset (files demo_file 3) = 0"
    "nodes (k_vfs demo_file) (of_inode (files demo_file 3)) = RamFile [0x66] [10, 20, 30]"
    using n demo_lookup demo_cur_id(1)
    by (simp_all add: demo_file_def fd_open_def fd_get_def Let_def split_beta demo_kernel_table
        less_prod_def less_eq_prod_def current_task_id_def)
qed

theorem write_seek_read_witness:
  "\<exists>k1 k2 k3. sys_write 3 0x1000 2 demo_file = SysRet 2 k1 \<and> sys_seek 3 0 k1 = SysRet 0 k2
     \<and> sys_read 3 0x2000 2 k2 = SysRet 2 k3"
proof -
  have "is_user_accessible 0x1000 2" "is_user_accessible 0x2000 2" by (simp_all add: is_user_accessible_iff)
  then show ?thesis
    using write_seek_read [of demo_file 3 3 "[0x66]" "[10, 20, 30]" "0x1000" 2 "0x2000"] demo_file_facts by auto
qed

text \<open>C11: A message sent to a port whose queue is empty is the message the next receive returns: the
  send returns 0, the receive returns the message type, and the receiver's buffer holds the bytes
  the sender's buffer held.\<close>

theorem send_receive:
  assumes "get_port pid (k_ipc k) = Some r" "port_queue (ipc_heap (k_ipc k) r) = []"
    "is_user_accessible src len" "is_user_accessible dst len" "unat len \<le> MAX_MSG_SIZE"
  shows "\<exists>k1 k2. sys_send pid ty src len k = SysRet 0 k1 \<and> sys_recv pid dst k1 = SysRet ty k2
    \<and> mem_read (umem k2) dst (unat len) = mem_read (umem k) src (unat len)"
proof -
  let ?b = "mem_read (umem k) src (unat len)"
  let ?d = "overlay (replicate MAX_MSG_SIZE 0) 0 ?b"
  let ?m = "\<lparr>m_sender_id = cur_id k, m_id = ty, m_len = len, m_data = ?d\<rparr>"
  let ?p = "ipc_heap (k_ipc k) r"
  obtain p' ws where ps: "port_send ?m ?p = (True, p', ws)" "port_queue p' = [?m]"
    using assms(2) by (cases "waiting_receivers ?p") (auto simp: port_send_def Let_def)
  define k1 where "k1 = set_port r p' (k\<lparr>k_sched := fold wake_task ws (k_sched k)\<rparr>)"
  have s: "sys_send pid ty src len k = SysRet 0 k1"
    using assms ps(1) by (simp add: sys_send_def Let_def k1_def)
  have g: "get_port pid (k_ipc k1) = Some r" "ipc_heap (k_ipc k1) r = p'" "umem k1 = umem k"
    using assms(1) by (simp_all add: k1_def set_port_def get_port_def)
  have tk: "take (unat len) ?d = ?b" by (simp add: overlay_def mem_read_def)
  define k2 where "k2 = copy_to_user dst ?b (set_port r (p'\<lparr>port_queue := []\<rparr>) k1)"
  have rc: "sys_recv pid dst k1 = SysRet ty k2"
    using g ps(2) assms(4) tk by (simp add: sys_recv_def port_receive_def deliver_def k2_def)
  have "mem_read (umem k2) dst (unat len) = ?b"
  proof (rule nth_equalityI)
    fix i assume "i < length (mem_read (umem k2) dst (unat len))"
    then have i: "i < unat len" by (simp add: mem_read_def)
    have "unat (of_nat i :: u64) = i" by (rule unat_of_nat_less [OF less_trans [OF i unsigned_less]])
    then show "mem_read (umem k2) dst (unat len) ! i = ?b ! i"
      using i by (simp add: k2_def copy_to_user_def mem_write_def mem_read_def)
  qed (simp add: mem_read_def)
  then show ?thesis using s rc by blast
qed

definition demo_port :: kernel where
  "demo_port = demo_kernel\<lparr>k_ipc := snd (create_port 5 IpcSpace_new)\<rparr>"

theorem send_receive_witness:
  "\<exists>k1 k2. sys_send 5 77 0x1000 4 demo_port = SysRet 0 k1 \<and> sys_recv 5 0x2000 k1 = SysRet 77 k2"
proof -
  have "is_user_accessible 0x1000 4" "is_user_accessible 0x2000 4" by (simp_all add: is_user_accessible_iff)
  moreover have "get_port 5 (k_ipc demo_port) = Some 0" "port_queue (ipc_heap (k_ipc demo_port) 0) = []"
    by (simp_all add: demo_port_def create_port_def IpcSpace_new_def get_port_def Port_new_def)
  ultimately show ?thesis using send_receive [of 5 demo_port 0 "0x1000" 4 "0x2000" 77] by auto
qed

text \<open>A receive with an invalid buffer loses the message: the message at the head of the queue is
  removed, the call returns \<open>EFAULT\<close>, and user memory is unchanged.\<close>

theorem receive_bad_pointer_drops:
  assumes "get_port pid (k_ipc k) = Some r" "port_queue (ipc_heap (k_ipc k) r) = msg # q"
    "\<not> is_user_accessible dst (m_len msg)"
  shows "\<exists>k1. sys_recv pid dst k = SysRet ERRNO_EFAULT k1
    \<and> port_queue (ipc_heap (k_ipc k1) r) = q \<and> umem k1 = umem k"
  using assms by (simp add: sys_recv_def port_receive_def deliver_def set_port_def)

theorem receive_bad_pointer_drops_witness:
  "\<exists>k1. sys_recv 5 0 (set_port 0 ((Port_new 5)\<lparr>port_queue := [Message_default]\<rparr>) demo_port) = SysRet ERRNO_EFAULT k1
     \<and> port_queue (ipc_heap (k_ipc k1) 0) = []"
proof -
  let ?k = "set_port 0 ((Port_new 5)\<lparr>port_queue := [Message_default]\<rparr>) demo_port"
  have "get_port 5 (k_ipc ?k) = Some 0" "port_queue (ipc_heap (k_ipc ?k) 0) = [Message_default]"
    "\<not> is_user_accessible 0 (m_len Message_default)"
    by (simp_all add: set_port_def demo_port_def create_port_def IpcSpace_new_def get_port_def Port_new_def
        is_user_accessible_iff)
  from receive_bad_pointer_drops [OF this] show ?thesis by blast
qed

section \<open>Directory records\<close>

lemma getdents_loop_spec:
  "written \<le> buf_len \<Longrightarrow> getdents_loop buf_len es index written = (bs, i) \<Longrightarrow>
     \<exists>n\<le>length es. i = index + n
       \<and> bs = concat (map (\<lambda>j. dirent_slot (index + j) (fst (es ! j)) (snd (es ! j))) [0..<n])
       \<and> (n < length es \<longrightarrow> buf_len < written + length bs + dirent_reclen (fst (es ! n)))"
proof (induction buf_len es index written arbitrary: bs i rule: getdents_loop.induct)
  case (2 buf_len name ft es index written)
  show ?case
  proof (cases "buf_len < written + dirent_reclen name")
    case True
    then show ?thesis using 2 by (intro exI [of _ 0]) auto
  next
    case False
    obtain bs' i' where r: "getdents_loop buf_len es (index + 1) (written + dirent_reclen name) = (bs', i')"
      by (cases "getdents_loop buf_len es (index + 1) (written + dirent_reclen name)")
    then obtain n where n: "n \<le> length es" "i' = index + 1 + n"
      "bs' = concat (map (\<lambda>j. dirent_slot (index + 1 + j) (fst (es ! j)) (snd (es ! j))) [0..<n])"
      "n < length es \<longrightarrow> buf_len < written + dirent_reclen name + length bs' + dirent_reclen (fst (es ! n))"
      using 2 False by fastforce
    have e: "bs = dirent_slot index name ft @ bs'" "i = i'" using 2 False r by auto
    have b: "bs = concat (map (\<lambda>j. dirent_slot (index + j) (fst (((name, ft) # es) ! j)) (snd (((name, ft) # es) ! j))) [0..<Suc n])"
      unfolding e n(3) by (simp add: upt_conv_Cons map_Suc_upt [symmetric] comp_def del: upt_Suc)
    have "length bs = dirent_reclen name + length bs'" using e(1) by (simp add: length_dirent_slot)
    then have "Suc n < length ((name, ft) # es) \<longrightarrow>
        buf_len < written + length bs + dirent_reclen (fst (((name, ft) # es) ! Suc n))"
      using n(4) by (simp add: add.assoc)
    moreover have "Suc n \<le> length ((name, ft) # es)" "i = index + Suc n" using n(1,2) e(2) by simp_all
    ultimately show ?thesis using b by blast
  qed
qed auto


definition demo_dir :: kernel where
  "demo_dir = snd (fd_open 2 [SLASH] demo_kernel)"

lemma demo_dir_facts:
  "fd_get 2 3 demo_dir = Some 3" "cur_id demo_dir = 2" "of_offset (files demo_dir 3) = 0"
  "inode_readdir (of_inode (files demo_dir 3)) (k_vfs demo_dir) = Some [([0x66], File)]"
proof -
  have n: "NEXT_FD demo_kernel = 3" "next_file demo_kernel = 3"
    by (simp_all add: demo_kernel_simps Let_def)
  have l: "lookup_path (k_vfs demo_kernel) [SLASH] = Some 0"
    "inode_readdir 0 (k_vfs demo_kernel) = Some [([0x66], File)]"
    by (simp_all add: demo_kernel_simps Let_def lookup_path_def set_root_def mount_def inode_readdir_def
        normalize_mount_path_def sort_mounts_def mount_matches_def starts_with_def mount_remainder_def
        trim_start_matches_def)
  show "fd_get 2 3 demo_dir = Some 3" "cur_id demo_dir = 2" "of_offset (files demo_dir 3) = 0"
    "inode_readdir (of_inode (files demo_dir 3)) (k_vfs demo_dir) = Some [([0x66], File)]"
    using n l demo_cur_id(1)
    by (simp_all add: demo_dir_def fd_open_def fd_get_def Let_def split_beta demo_kernel_table
        less_prod_def less_eq_prod_def current_task_id_def)
qed


text \<open>A directory record whose header and name fill a multiple of eight bytes carries no terminating
  zero: the record ends with the last byte of the name.\<close>

theorem dirent_not_terminated:
  assumes "(19 + length name) mod 8 = 0" "name \<noteq> []"
  shows "length (dirent_slot i name ft) = 19 + length name \<and> last (dirent_slot i name ft) = last name"
proof -
  have r: "dirent_reclen name = 19 + length name"
  proof -
    obtain q where "19 + length name = 8 * q" using assms(1) by (auto simp: mod_eq_0_iff_dvd)
    then have "dirent_reclen name = 8 * q" by (simp add: dirent_reclen_def)
    then show ?thesis using \<open>19 + length name = 8 * q\<close> by simp
  qed
  have "last (overlay s4 19 name) = last name" if "length s4 = 19 + length name" for s4
    using that assms(2) by (simp add: overlay_def)
  then have "last (dirent_slot i name ft) = last name" using r by (simp add: dirent_slot_def Let_def)
  then show ?thesis using r by (simp add: length_dirent_slot)
qed

theorem dirent_not_terminated_witness:
  "last (dirent_slot 0 [0x68, 0x65, 0x6C, 0x6C, 0x6F] File) = 0x6F"
  using dirent_not_terminated [of "[0x68, 0x65, 0x6C, 0x6C, 0x6F]" 0 File] by simp

lemma rsplit_path_slash:
  assumes "rsplit_path path = (parent, name)" "SLASH \<in> set path"
  shows "\<exists>pre. path = pre @ SLASH # name \<and> SLASH \<notin> set name \<and> parent = (if pre = [] then [SLASH] else pre)"
proof -
  obtain pre n where p: "path = pre @ SLASH # n" "SLASH \<notin> set n" using assms(2) split_list_last by metis
  have "takeWhile (\<lambda>c. c \<noteq> SLASH) (rev n @ SLASH # rev pre) = rev n"
    using p(2) by (subst takeWhile_append2) auto
  then have "takeWhile (\<lambda>c. c \<noteq> SLASH) (rev path) = rev n" using p(1) by simp
  then have "rsplit_path path = (if pre = [] then [SLASH] else pre, n)"
    using p(1) by (auto simp: rsplit_path_def Let_def)
  then show ?thesis using p assms(1) by auto
qed


definition demo_mkdir :: kernel where
  "demo_mkdir = demo_kernel\<lparr>umem := mem_write 0x1000 [SLASH, 0x64] (umem demo_kernel)\<rparr>"

lemma demo_vfs_eq: "k_vfs demo_kernel =
  \<lparr>nodes = (\<lambda>_. RamDir [] [])(1 := RamFile [0x66] [10, 20, 30], 0 := RamDir [] [([0x66], 1)],
             2 := StdinINode, 3 := StdoutINode, 4 := StderrINode),
   next_node = 5, MOUNT_TABLE = [\<lparr>me_path = [SLASH], me_root = 0\<rparr>]\<rparr>"
  by (simp add: demo_kernel_simps Let_def set_root_def mount_def normalize_mount_path_def sort_mounts_def)


section \<open>Descriptors of other tasks\<close>

definition others_fds_same :: "u64 \<Rightarrow> kernel \<Rightarrow> kernel \<Rightarrow> bool" where
  "others_fds_same t k k' \<longleftrightarrow> (\<forall>t' fd. t' \<noteq> t \<longrightarrow> fd_get t' fd k' = fd_get t' fd k)"

lemma others_same_table: "FD_TABLE k' = FD_TABLE k \<Longrightarrow> others_fds_same t k k'"
  by (simp add: others_fds_same_def fd_get_def)

lemma others_refl [simp]: "others_fds_same t k k"
  by (simp add: others_fds_same_def)

lemma others_insert:
  "bt_wf (FD_TABLE k1) \<Longrightarrow> FD_TABLE k1 = FD_TABLE k \<Longrightarrow> others_fds_same t k (fd_insert (t, fd) f k1)"
  by (simp add: others_fds_same_def fd_get_def)

lemma others_remove: "others_fds_same t k (fd_remove (t, fd) k)"
  by (simp add: others_fds_same_def fd_get_def)

lemma others_trans: "others_fds_same t a b \<Longrightarrow> others_fds_same t b c \<Longrightarrow> others_fds_same t a c"
  by (simp add: others_fds_same_def)

lemma copy_to_user_table [simp]: "FD_TABLE (copy_to_user p bs k) = FD_TABLE k"
  by (simp add: copy_to_user_def)

lemma set_offset_table [simp]: "FD_TABLE (set_offset f off k) = FD_TABLE k"
  by (simp add: set_offset_def)

lemma set_port_table [simp]: "FD_TABLE (set_port r p k) = FD_TABLE k"
  by (simp add: set_port_def)

lemma insert_inode_others:
  assumes "bt_wf (FD_TABLE k)" "insert_inode t i k = Some (fd, k')"
  shows "others_fds_same t k k'" "bt_wf (FD_TABLE k')"
  using assms by (auto simp: insert_inode_def Let_def arc_new_file_def split: option.splits
      intro!: others_insert)

lemma create_pipe_others:
  assumes "bt_wf (FD_TABLE k)" "create_pipe t k = Some (a, b, k')"
  shows "others_fds_same t k k'"
proof -
  let ?k1 = "k\<lparr>pipes := (pipes k)(next_pipe k := pipe_new), next_pipe := Suc (next_pipe k)\<rparr>"
  obtain re k2 we k3 where n: "add_node (PipeReadEnd (next_pipe k)) ?k1 = (re, k2)"
    "add_node (PipeWriteEnd (next_pipe k)) k2 = (we, k3)"
    by (metis prod.exhaust)
  obtain k4 where i: "insert_inode t re k3 = Some (a, k4)" "insert_inode t we k4 = Some (b, k')"
    using assms(2) n by (auto simp: create_pipe_def Let_def split: option.splits)
  have t: "FD_TABLE k3 = FD_TABLE k" using n by (auto simp: add_node_def arc_new_node_def)
  then have "others_fds_same t k3 k4" "bt_wf (FD_TABLE k4)" using insert_inode_others i(1) assms(1) by metis+
  moreover have "others_fds_same t k4 k'" using insert_inode_others i(2) calculation(2) by blast
  ultimately show ?thesis using others_same_table [OF t] others_trans by blast
qed

text \<open>The current task's control block carries the identifier \<open>CURRENT_TASK\<close>.\<close>

definition cur_consistent :: "kernel \<Rightarrow> bool" where
  "cur_consistent k \<longleftrightarrow> (\<forall>c. rq_current (k_sched k) = Some c \<longrightarrow> t_id (tcb (k_sched k) c) = cur_id k)"

lemma sys_io_others:
  "sys_kernel (sys_read fd p len k) = Some k' \<Longrightarrow> FD_TABLE k' = FD_TABLE k"
  "sys_kernel (sys_write fd p len k) = Some k' \<Longrightarrow> FD_TABLE k' = FD_TABLE k"
  by (auto simp: sys_read_def sys_write_def Let_def inode_read_spec(3) inode_read_block(2) inode_write_spec(2)
      split: if_splits option.splits io_read.splits io_write.splits)

lemma sys_misc_others:
  "sys_kernel (sys_wait pid p opts k) = Some k' \<Longrightarrow> FD_TABLE k' = FD_TABLE k"
  "sys_kernel (sys_send pid ty p len k) = Some k' \<Longrightarrow> FD_TABLE k' = FD_TABLE k"
  "sys_kernel (sys_recv pid p k) = Some k' \<Longrightarrow> FD_TABLE k' = FD_TABLE k"
  "sys_kernel (sys_recv_block pid p k) = Some k' \<Longrightarrow> FD_TABLE k' = FD_TABLE k"
  "sys_kernel (sys_getdents fd p len k) = Some k' \<Longrightarrow> FD_TABLE k' = FD_TABLE k"
  "sys_kernel (sys_mkdir p len k) = Some k' \<Longrightarrow> FD_TABLE k' = FD_TABLE k"
  "sys_kernel (sys_unlink p len k) = Some k' \<Longrightarrow> FD_TABLE k' = FD_TABLE k"
  "sys_kernel (sys_seek fd off k) = Some k' \<Longrightarrow> FD_TABLE k' = FD_TABLE k"
  by (auto simp: sys_wait_def sys_send_def sys_recv_def sys_recv_block_def sys_getdents_def sys_mkdir_def
      sys_unlink_def sys_seek_def fd_seek_def deliver_def Let_def
      split: wait_result.splits if_splits option.splits prod.splits sum.splits)

lemma sys_open_others:
  "bt_wf (FD_TABLE k) \<Longrightarrow> sys_kernel (sys_open p len k) = Some k' \<Longrightarrow> others_fds_same (cur_id k) k k'"
  by (auto simp: sys_open_def fd_open_def arc_new_file_def Let_def split: sum.splits option.splits
      intro: others_insert)

lemma sys_close_others:
  "sys_kernel (sys_close fd k) = Some k' \<Longrightarrow> others_fds_same (cur_id k) k k'"
  by (auto simp: sys_close_def fd_close_def split: bool.splits intro!: others_remove)

lemma sys_dup_others:
  "bt_wf (FD_TABLE k) \<Longrightarrow> sys_kernel (sys_dup fd k) = Some k' \<Longrightarrow> others_fds_same (cur_id k) k k'"
  by (auto simp: sys_dup_def fd_dup_def split: option.splits intro: others_insert)

lemma sys_dup2_others:
  assumes "bt_wf (FD_TABLE k)" "sys_kernel (sys_dup2 fd fd2 k) = Some k'"
  shows "others_fds_same (cur_id k) k k'"
  using assms
  by (auto simp: sys_dup2_def fd_dup2_def others_fds_same_def fd_get_def
      split: option.splits prod.splits if_splits)

lemma sys_pipe_others:
  "bt_wf (FD_TABLE k) \<Longrightarrow> sys_kernel (sys_pipe p k) = Some k' \<Longrightarrow> others_fds_same (cur_id k) k k'"
  using create_pipe_others
  by (fastforce simp: sys_pipe_def others_fds_same_def fd_get_def split: if_splits option.splits)

lemma sys_exit_others:
  assumes "cur_consistent k" "sys_kernel (sys_exit st k) = Some k'"
  shows "others_fds_same (cur_id k) k k'"
proof (cases "rq_current (k_sched k)")
  case None
  then show ?thesis using assms(2) by (auto simp: sys_exit_def take_current_def intro!: others_same_table)
next
  case (Some c)
  then have "t_id (tcb (k_sched k) c) = cur_id k" using assms(1) by (simp add: cur_consistent_def)
  then have "FD_TABLE k' = bt_retain (\<lambda>(tid, _). tid \<noteq> cur_id k) (FD_TABLE k)"
    using assms(2) Some
    by (auto simp: sys_exit_def take_current_def Let_def exit_mark_def set_state_def fd_cleanup_table)
  then show ?thesis by (simp add: others_fds_same_def fd_get_def bt_get_retain)
qed

lemma sys_small_others:
  "sys_kernel (sys_getpid k) = Some k' \<Longrightarrow> others_fds_same t k k'"
  "sys_kernel (sys_getppid k) = Some k' \<Longrightarrow> others_fds_same t k k'"
  "sys_kernel (sys_yield k) = Some k' \<Longrightarrow> others_fds_same t k k'"
  by (auto simp: sys_getpid_def sys_getppid_def sys_yield_def intro: others_same_table)

lemmas sys_table_others = sys_open_others sys_dup_others sys_dup2_others sys_pipe_others



end
