(* ===== verification/Process.thy ===== *)
theory Process
  imports Loader Syscall
begin

text \<open>
  kernel/src/process.rs: the address space, stacks and task of a new user process. The mapper of
  the new address space is an argument \<open>map_to\<close> with its state \<open>'u\<close>; \<open>pm\<close> is physical memory, which
  the kernel reaches through the direct map. An outer \<open>None\<close> is a panic.
\<close>

section \<open>Mapping a segment\<close>

text \<open>Addition and subtraction of \<open>VirtAddr\<close> panic on overflow and on a non-canonical result.\<close>

definition virt_add :: "u64 \<Rightarrow> u64 \<Rightarrow> u64 option" where
  "virt_add a n = (if unat a + unat n < 2 ^ 64 then virt_new (a + n) else None)"

definition virt_sub :: "u64 \<Rightarrow> u64 \<Rightarrow> u64 option" where
  "virt_sub a n = (if n \<le> a then virt_new (a - n) else None)"

type_synonym 'u space = "'u \<times> StaticBootFrameAllocator \<times> (u64 \<Rightarrow> u8)"

definition segment_pflags :: "LoadableSegment \<Rightarrow> pflag set" where
  "segment_pflags seg =
     {PRESENT, USER_ACCESSIBLE} \<union> (if writable (seg_flags seg) then {WRITABLE} else {}) \<union>
     (if \<not> executable (seg_flags seg) then {NO_EXECUTE} else {})"

definition saturating_sub :: "u64 \<Rightarrow> u64 \<Rightarrow> u64" where
  "saturating_sub a b = (if a < b then 0 else a - b)"

text \<open>The part of the segment that falls into a page is copied to its frame.\<close>

definition copy_page :: "LoadableSegment \<Rightarrow> u64 \<Rightarrow> u64 \<Rightarrow> (u64 \<Rightarrow> u8) \<Rightarrow> u64 \<Rightarrow> u8" where
  "copy_page seg page_addr frame pm =
     (let seg_addr = virtual_address seg;
          data_start = (if page_addr < seg_addr then 0 else page_addr - seg_addr);
          data_end = min (of_nat (length (seg_data seg))) (saturating_sub (page_addr + 4096) seg_addr)
      in if data_start < data_end then
           (let dest_offset = (if page_addr < seg_addr then seg_addr - page_addr else 0)
            in mem_write (frame + dest_offset) (take (unat (data_end - data_start)) (drop (unat data_start) (seg_data seg))) pm)
         else pm)"

definition map_page :: "'u map_to \<Rightarrow> LoadableSegment \<Rightarrow> u64 \<Rightarrow> 'u space \<Rightarrow> 'u space option" where
  "map_page map_to seg page st =
     (case st of (m, fa, pm) \<Rightarrow>
        do { (f, fa) \<leftarrow> allocate_frame fa;
             case f of
               None \<Rightarrow> None
             | Some new_frame \<Rightarrow>
                 (case map_to page new_frame (segment_pflags seg) (m, fa) of
                    (Inr _, m, fa) \<Rightarrow> Some (m, fa, copy_page seg page new_frame (mem_write new_frame (replicate 4096 0) pm))
                  | (Inl (PageAlreadyMapped existing), m, fa) \<Rightarrow> Some (m, fa, copy_page seg page existing pm)
                  | (Inl _, m, fa) \<Rightarrow> None) })"

fun map_page_list :: "'u map_to \<Rightarrow> LoadableSegment \<Rightarrow> u64 list \<Rightarrow> 'u space \<Rightarrow> 'u space option" where
  "map_page_list map_to seg [] st = Some st"
| "map_page_list map_to seg (p # ps) st = do { st \<leftarrow> map_page map_to seg p st; map_page_list map_to seg ps st }"

definition map_segment :: "'u map_to \<Rightarrow> LoadableSegment \<Rightarrow> 'u space \<Rightarrow> 'u space option" where
  "map_segment map_to seg st =
     do { end_addr \<leftarrow> virt_add (virtual_address seg) (seg_size seg);
          last_addr \<leftarrow> virt_sub end_addr 1;
          map_page_list map_to seg (page_range (containing (virtual_address seg)) (containing last_addr)) st }"

fun map_segments :: "'u map_to \<Rightarrow> LoadableSegment list \<Rightarrow> 'u space \<Rightarrow> 'u space option" where
  "map_segments map_to [] st = Some st"
| "map_segments map_to (s # ss) st = do { st \<leftarrow> map_segment map_to s st; map_segments map_to ss st }"

section \<open>The user stack\<close>

abbreviation USER_STACK_TOP :: u64 where "USER_STACK_TOP \<equiv> 0x00007FFFFFFFF000"

text \<open>A failed mapping is ignored; the new frame is zeroed either way.\<close>

definition stack_page :: "'u map_to \<Rightarrow> u64 \<Rightarrow> 'u space \<Rightarrow> 'u space option" where
  "stack_page map_to page st =
     (case st of (m, fa, pm) \<Rightarrow>
        do { (f, fa) \<leftarrow> allocate_frame fa;
             case f of
               None \<Rightarrow> None
             | Some frame \<Rightarrow>
                 (case map_to page frame {PRESENT, WRITABLE, USER_ACCESSIBLE} (m, fa) of
                    (_, m, fa) \<Rightarrow> Some (m, fa, mem_write frame (replicate 4096 0) pm)) })"

fun stack_pages :: "'u map_to \<Rightarrow> u64 list \<Rightarrow> 'u space \<Rightarrow> 'u space option" where
  "stack_pages map_to [] st = Some st"
| "stack_pages map_to (p # ps) st = do { st \<leftarrow> stack_page map_to p st; stack_pages map_to ps st }"

definition allocate_user_stack :: "'u map_to \<Rightarrow> 'u space \<Rightarrow> (u64 \<times> 'u space) option" where
  "allocate_user_stack map_to st =
     do { stack_top \<leftarrow> virt_new USER_STACK_TOP;
          stack_bottom \<leftarrow> virt_sub stack_top 16384;
          last_addr \<leftarrow> virt_sub stack_top 1;
          st \<leftarrow> stack_pages map_to (page_range (containing stack_bottom) (containing last_addr)) st;
          Some (stack_top, st) }"

section \<open>Spawning\<close>

text \<open>The memory of the machine: the global page allocator, the next kernel stack address, the top-level
  tables, the address spaces by the frame of their table, and physical memory.\<close>

record ('m, 'u) machine =
  mc_pages :: "'m PageAllocator option"
  mc_kstack :: u64
  mc_pml4s :: pml4s
  mc_spaces :: "u64 \<Rightarrow> 'u option"
  mc_phys :: "u64 \<Rightarrow> u8"

definition inode_len :: "kernel \<Rightarrow> inode_ref \<Rightarrow> nat" where
  "inode_len k r =
     (case nodes (k_vfs k) r of RamFile _ data \<Rightarrow> length data | PipeReadEnd p \<Rightarrow> pipe_size (pipes k p) | _ \<Rightarrow> 0)"

text \<open>Reading the file into a zeroed buffer of its size; \<open>None\<close> when a read panics or blocks.\<close>

partial_function (option) read_all :: "inode_ref \<Rightarrow> nat \<Rightarrow> nat \<Rightarrow> bytes \<Rightarrow> kernel \<Rightarrow> (bytes \<times> kernel) option" where
  "read_all r sz off data k =
     (if off < sz then
        (case inode_read r (of_nat off) (sz - off) k of
           RdDone bs k \<Rightarrow> if bs = [] then Some (data, k) else read_all r sz (off + length bs) (overlay data off bs) k
         | _ \<Rightarrow> None)
      else Some (data, k))"

definition user_context :: "u64 \<Rightarrow> u64 \<Rightarrow> u64 \<Rightarrow> u64 \<Rightarrow> u64 \<Rightarrow> CPUContext" where
  "user_context trampoline kstack entry ustack pml4 =
     CPUContext_default\<lparr>ctx_rsp := kstack, ctx_rip := trampoline, ctx_r12 := entry, ctx_r13 := ustack, ctx_cr3 := pml4,
       ctx_cs := 0x08, ctx_ss := 0x10, ctx_rflags := 0x202\<rparr>"

definition user_task :: "u64 \<Rightarrow> CPUContext \<Rightarrow> u64 \<Rightarrow> u64 \<Rightarrow> u64 \<Rightarrow> u64 \<Rightarrow> TaskCB" where
  "user_task tid ctx kstack ustack parent_id pml4 =
     \<lparr>t_id = tid, t_state = Ready, t_sched_class = Fair 120, t_context = ctx, t_kstack = kstack, t_ustack = Some ustack,
      t_name = ''user_proc'', t_parent_id = parent_id, t_exit_status = None, t_pml4_frame = Some pml4, t_children = [],
      t_waiting_for_child = False\<rparr>"

text \<open>Steps 3 to 6: the new address space and the kernel stack. \<open>active\<close> is the frame in CR3 and
  \<open>create_mapper\<close> the view of a fresh top-level table.\<close>

definition build_space ::
    "'m map_to \<Rightarrow> 'u map_to \<Rightarrow> (u64 list \<Rightarrow> 'u) \<Rightarrow> u64 \<Rightarrow> LoadableSegment list \<Rightarrow> ('m, 'u) machine \<Rightarrow>
     ((string + u64 \<times> u64 \<times> u64) \<times> ('m, 'u) machine) option" where
  "build_space kmap_to map_to create_mapper active segs mc =
     (case mc_pages mc of
        None \<Rightarrow> Some (Inl ''spawn: PAGE_ALLOC not ready'', mc)
      | Some pa \<Rightarrow>
          do { (p, fa, pml4s) \<leftarrow> create_user_page_table active (pa_frames pa, mc_pml4s mc);
               case p of
                 None \<Rightarrow> Some (Inl ''spawn: OOM creating PML4'', mc\<lparr>mc_pages := Some (pa\<lparr>pa_frames := fa\<rparr>)\<rparr>)
               | Some pml4 \<Rightarrow>
                   do { (m, fa, pm) \<leftarrow> map_segments map_to segs (create_mapper (pml4s pml4), fa, mc_phys mc);
                        (ust, m, fa, pm) \<leftarrow> allocate_user_stack map_to (m, fa, pm);
                        let mc = mc\<lparr>mc_pml4s := pml4s, mc_phys := pm, mc_spaces := (mc_spaces mc)(pml4 \<mapsto> m)\<rparr>;
                        (ks, nxt, pg) \<leftarrow> alloc_kernel_stack kmap_to (1024 * 1024) (mc_kstack mc, Some (pa\<lparr>pa_frames := fa\<rparr>));
                        let mc = mc\<lparr>mc_kstack := nxt, mc_pages := pg\<rparr>;
                        case ks of
                          None \<Rightarrow> Some (Inl ''spawn: OOM kernel stack'', mc)
                        | Some kstack \<Rightarrow> Some (Inr (pml4, ust, kstack), mc) } })"

text \<open>Steps 7 to 11: the task.\<close>

definition start_task :: "u64 \<Rightarrow> u64 \<Rightarrow> u64 \<Rightarrow> u64 \<times> u64 \<times> u64 \<Rightarrow> kernel \<Rightarrow> u64 \<times> kernel" where
  "start_task trampoline parent_id entry sp k =
     (case sp of (pml4, ust, kstack) \<Rightarrow>
        let (child_id, s) = task_id_new (k_sched k);
            t = user_task child_id (user_context trampoline kstack entry ust pml4) kstack ust parent_id pml4;
            k = init_stdio child_id (k\<lparr>k_sched := s\<rparr>);
            s = k_sched k;
            s = (if parent_id \<noteq> 0 then
                   (case find_task_by_id parent_id s of
                      Some r \<Rightarrow> s\<lparr>tcb := (tcb s)(r := (tcb s r)\<lparr>t_children := t_children (tcb s r) @ [child_id]\<rparr>)\<rparr>
                    | None \<Rightarrow> s)
                 else s);
            (r, s) = arc_new_task t s
        in (child_id, k\<lparr>k_sched := enqueue_task r s\<rparr>))"

definition spawn_user_process ::
    "'m map_to \<Rightarrow> 'u map_to \<Rightarrow> (u64 list \<Rightarrow> 'u) \<Rightarrow> u64 \<Rightarrow> u64 \<Rightarrow> str \<Rightarrow> u64 \<Rightarrow> kernel \<times> ('m, 'u) machine \<Rightarrow>
     ((string + u64) \<times> kernel \<times> ('m, 'u) machine) option" where
  "spawn_user_process kmap_to map_to create_mapper trampoline active path parent_id st =
     (case st of (k, mc) \<Rightarrow>
        case lookup_path (k_vfs k) path of
          None \<Rightarrow> Some (Inl ''spawn: path not found'', k, mc)
        | Some r \<Rightarrow>
            let sz = inode_len k r
            in if sz = 0 then Some (Inl ''spawn: ELF is empty'', k, mc)
               else
                 do { (data, k) \<leftarrow> read_all r sz 0 (replicate sz 0) k;
                      res \<leftarrow> load_elf data;
                      case res of
                        Inl e \<Rightarrow> Some (Inl e, k, mc)
                      | Inr img \<Rightarrow>
                          do { (b, mc) \<leftarrow> build_space kmap_to map_to create_mapper active (segments img) mc;
                               case b of
                                 Inl e \<Rightarrow> Some (Inl e, k, mc)
                               | Inr sp \<Rightarrow>
                                   (case start_task trampoline parent_id (entry_point img) sp k of
                                      (child_id, k) \<Rightarrow> Some (Inr child_id, k, mc)) } })"

section \<open>Pages\<close>

lemma unat_containing: "unat (containing v) = 4096 * (unat v div 4096)"
proof -
  have m: "unat (v mod 4096) = unat v mod 4096" by (simp add: unat_mod)
  have "v mod 4096 \<le> v" by (simp add: word_le_nat_alt m)
  then have "unat (v - v mod 4096) = unat v - unat v mod 4096" by (simp only: unat_sub m)
  then show ?thesis unfolding containing_def by (simp only: minus_mod_eq_mult_div)
qed

lemma containing_le: "unat (containing v) \<le> unat v" "unat v < unat (containing v) + 4096"
  by (simp_all add: unat_containing)

lemma containing_page: "4096 dvd unat p \<Longrightarrow> containing p = p"
  by (simp add: word_unat_eq_iff unat_containing)

lemma containing_unique: "4096 dvd unat p \<Longrightarrow> unat p \<le> unat v \<Longrightarrow> unat v < unat p + 4096 \<Longrightarrow> containing v = p"
proof -
  assume a: "4096 dvd unat p" "unat p \<le> unat v" "unat v < unat p + 4096"
  then obtain q where "unat p = 4096 * q" by (auto elim: dvdE)
  then have "unat v div 4096 = q" using a(2,3) by (intro div_nat_eqI) simp_all
  then show ?thesis using \<open>unat p = 4096 * q\<close> by (simp add: word_unat_eq_iff unat_containing)
qed

lemma page_range_pages:
  assumes "4096 dvd unat a" "4096 dvd unat b"
  shows "distinct (page_range a b)" "set (page_range a b) = {p. 4096 dvd unat p \<and> a \<le> p \<and> p \<le> b}"
proof -
  have "distinct (page_range a b) \<and> set (page_range a b) = {p. 4096 dvd unat p \<and> a \<le> p \<and> p \<le> b}"
  proof (cases "a \<le> b")
    case True
    let ?n = "unat (b - a) div 4096"
    have d: "unat (b - a) = unat b - unat a" "unat a \<le> unat b" using True by (simp_all add: unat_sub word_le_nat_alt)
    have n: "4096 * ?n = unat b - unat a" using d assms by (simp add: dvd_diff_nat)
    have u: "unat (a + of_nat k * 4096) = unat a + k * 4096" if "k \<le> ?n" for k
    proof -
      have "a + of_nat k * 4096 = of_nat (unat a + k * 4096)" by simp
      moreover have "unat (of_nat (unat a + k * 4096) :: u64) = unat a + k * 4096"
        using that n d(2) unat_u64_less[of b] by (intro unat_of_nat_less) simp
      ultimately show ?thesis by (simp only:)
    qed
    have "inj_on (\<lambda>k. a + of_nat k * 4096) {0..<Suc ?n}"
    proof (rule inj_onI)
      fix x y assume xy: "x \<in> {0..<Suc ?n}" "y \<in> {0..<Suc ?n}" and e: "a + of_nat x * 4096 = a + of_nat y * 4096"
      have "x \<le> ?n" "y \<le> ?n" using xy by simp_all
      then have "unat a + x * 4096 = unat a + y * 4096" using u arg_cong[OF e, of unat] by (simp only:)
      then show "x = y" by simp
    qed
    moreover have "a + of_nat k * 4096 \<in> {p. 4096 dvd unat p \<and> a \<le> p \<and> p \<le> b}" if "k \<le> ?n" for k
      using u[OF that] that n d assms(1) by (simp add: word_le_nat_alt)
    moreover have "p \<in> (\<lambda>k. a + of_nat k * 4096) ` {0..<Suc ?n}" if c: "4096 dvd unat p" "a \<le> p" "p \<le> b" for p
    proof -
      have le: "unat a \<le> unat p" "unat p \<le> unat b" using c(2,3) by (simp_all add: word_le_nat_alt)
      obtain k where k: "unat p - unat a = 4096 * k" using dvd_diff_nat[OF c(1) assms(1)] by (auto elim: dvdE)
      then have "k \<le> ?n" using le n by simp
      moreover have "p = a + of_nat k * 4096" using u[OF calculation] k le by (simp add: word_unat_eq_iff)
      ultimately show ?thesis by (intro image_eqI[of _ _ k]) simp_all
    qed
    ultimately show ?thesis using True unfolding page_range_def by (auto simp: distinct_map simp del: upt_Suc)
  next
    case False
    then show ?thesis by (auto simp: page_range_def)
  qed
  then show "distinct (page_range a b)" "set (page_range a b) = {p. 4096 dvd unat p \<and> a \<le> p \<and> p \<le> b}" by blast+
qed

section \<open>Frames\<close>

text \<open>The frames an allocator will hand out, in order.\<close>

definition avail_frames :: "StaticBootFrameAllocator \<Rightarrow> u64 list" where
  "avail_frames a = List.map_filter (\<lambda>i. boot_frames a ! i) [fa_next a..<fa_limit a]"

lemma allocate_frame_avail:
  assumes "fa_wf a"
  shows "\<exists>a'. allocate_frame a = Some (case avail_frames a of [] \<Rightarrow> None | f # _ \<Rightarrow> Some f, a') \<and> fa_wf a' \<and> avail_frames a' = tl (avail_frames a)"
  using assms
proof (induction a rule: allocate_frame.induct)
  case (1 a)
  show ?case
  proof (cases "fa_next a < fa_limit a")
    case False
    then show ?thesis using "1.prems" by (subst allocate_frame.simps) (simp add: avail_frames_def)
  next
    case True
    then have len: "fa_next a < length (boot_frames a)" using "1.prems" by (simp add: fa_wf_def)
    have up: "[fa_next a..<fa_limit a] = fa_next a # [Suc (fa_next a)..<fa_limit a]" using True by (simp add: upt_conv_Cons)
    show ?thesis
    proof (cases "boot_frames a ! fa_next a")
      case None
      then show ?thesis using "1.IH"[OF True len None] "1.prems" True len
        by (subst allocate_frame.simps) (simp add: avail_frames_def up List.map_filter_simps fa_wf_def)
    next
      case (Some f)
      have "List.map_filter (\<lambda>i. (boot_frames a)[fa_next a := None] ! i) [Suc (fa_next a)..<fa_limit a] =
          List.map_filter (\<lambda>i. boot_frames a ! i) [Suc (fa_next a)..<fa_limit a]"
        unfolding List.map_filter_def by (intro map_cong filter_cong) (auto simp: nth_list_update)
      then show ?thesis using Some True len "1.prems"
        by (subst allocate_frame.simps) (simp add: avail_frames_def up List.map_filter_simps fa_wf_def)
    qed
  qed
qed

section \<open>What a mapper does\<close>

text \<open>\<open>lk m\<close> is the translation of an address space from pages of 4 KiB to frames (the direct map of physical
  memory uses huge pages, for which mapping fails with another error). A mapper adds a translation for an
  unmapped page or fails, reports the frame of a mapped page, and otherwise only takes frames.\<close>

definition mapper_ok :: "'u map_to \<Rightarrow> ('u \<Rightarrow> u64 \<Rightarrow> u64 option) \<Rightarrow> bool" where
  "mapper_ok map_to lk \<longleftrightarrow> (\<forall>p f flags m fa. fa_wf fa \<longrightarrow>
     (case map_to p f flags (m, fa) of (r, m', fa') \<Rightarrow>
        fa_wf fa' \<and> (\<exists>n. avail_frames fa' = drop n (avail_frames fa)) \<and>
        (case lk m p of
           Some e \<Rightarrow> r = Inl (PageAlreadyMapped e) \<and> lk m' = lk m
         | None \<Rightarrow> (case r of Inr _ \<Rightarrow> lk m' = (lk m)(p \<mapsto> f) | Inl (PageAlreadyMapped _) \<Rightarrow> False | Inl _ \<Rightarrow> lk m' = lk m))))"

text \<open>Frames are page aligned; the frames still available are distinct and none is mapped, and no frame is
  mapped twice.\<close>

definition space_ok :: "('u \<Rightarrow> u64 \<Rightarrow> u64 option) \<Rightarrow> 'u \<Rightarrow> StaticBootFrameAllocator \<Rightarrow> bool" where
  "space_ok lk m fa \<longleftrightarrow> fa_wf fa \<and> distinct (avail_frames fa) \<and>
     (\<forall>f \<in> set (avail_frames fa) \<union> ran (lk m). 4096 dvd unat f) \<and>
     ran (lk m) \<inter> set (avail_frames fa) = {} \<and> inj_on (lk m) (dom (lk m))"

text \<open>The byte a program sees at an address.\<close>

definition user_byte :: "('u \<Rightarrow> u64 \<Rightarrow> u64 option) \<Rightarrow> 'u \<Rightarrow> (u64 \<Rightarrow> u8) \<Rightarrow> u64 \<Rightarrow> u8 option" where
  "user_byte lk m pm v = map_option (\<lambda>f. pm (f + v mod 4096)) (lk m (containing v))"

definition in_segment :: "LoadableSegment \<Rightarrow> u64 \<Rightarrow> bool" where
  "in_segment seg v \<longleftrightarrow> unat (virtual_address seg) \<le> unat v \<and> unat v < unat (virtual_address seg) + length (seg_data seg)"

lemma frame_offset:
  fixes f :: u64
  assumes "4096 dvd unat f" "o' < 4096"
  shows "unat (f + of_nat o') = unat f + o'"
proof -
  have "f + of_nat o' = of_nat (unat f + o')" by simp
  moreover obtain q where "unat f = 4096 * q" using assms(1) by (auto elim: dvdE)
  then have "unat f + o' < 2 ^ 64" using unat_u64_less[of f] assms(2) by simp
  then have "unat (of_nat (unat f + o') :: u64) = unat f + o'" by (intro unat_of_nat_less) simp
  ultimately show ?thesis by (simp only:)
qed

lemma page_offset: "v mod 4096 = of_nat (unat v mod 4096)" for v :: u64
proof -
  have "unat (v mod 4096) = unat v mod 4096" by (simp add: unat_mod)
  then have "of_nat (unat (v mod 4096)) = (of_nat (unat v mod 4096) :: u64)" by (rule arg_cong)
  then show ?thesis by simp
qed

lemma of_nat_unat_u64: "of_nat (unat (w :: u64)) = w"
  by simp

text \<open>\<open>copy_page\<close> in natural numbers: bytes \<open>ds\<close> to \<open>de\<close> of the segment go to offset \<open>dst\<close> of the frame.\<close>

lemma copy_page_nat:
  fixes seg :: LoadableSegment and page frame :: u64
  defines "S \<equiv> unat (virtual_address seg)" and "L \<equiv> length (seg_data seg)" and "P \<equiv> unat page"
  assumes "P + 4096 < 2 ^ 64" "S + L < 2 ^ 64"
  shows "copy_page seg page frame pm =
    (let ds = P - S; de = min L (P + 4096 - S)
     in if ds < de then mem_write (frame + of_nat (S - P)) (take (de - ds) (drop ds (seg_data seg))) pm else pm)"
proof -
  have lt: "page < virtual_address seg \<longleftrightarrow> P < S" by (simp add: word_less_nat_alt S_def P_def)
  define ds where "ds = (if page < virtual_address seg then 0 else page - virtual_address seg)"
  define de where "de = min (of_nat L) (saturating_sub (page + 4096) (virtual_address seg))"
  have p4: "unat (page + 4096) = P + 4096" using assms(4) by (subst unat_plus_if_size) (simp add: word_size P_def)
  have 1: "unat ds = P - S" using lt by (auto simp: ds_def S_def P_def unat_sub word_le_nat_alt not_less)
  have "unat (saturating_sub (page + 4096) (virtual_address seg)) = P + 4096 - S"
    using p4 by (auto simp: saturating_sub_def word_less_nat_alt unat_sub word_le_nat_alt S_def)
  moreover have "unat (of_nat L :: u64) = L" using assms(5) by (intro unat_of_nat_less) simp
  ultimately have 2: "unat de = min L (P + 4096 - S)" by (simp add: de_def min_def word_le_nat_alt)
  have "unat (if page < virtual_address seg then virtual_address seg - page else 0) = S - P"
    using lt by (auto simp: S_def P_def unat_sub word_le_nat_alt)
  then have 3: "(if page < virtual_address seg then virtual_address seg - page else 0) = of_nat (S - P)"
    by (metis of_nat_unat_u64)
  have 4: "ds < de \<longleftrightarrow> unat ds < unat de" "ds < de \<Longrightarrow> unat (de - ds) = unat de - unat ds"
    by (simp_all add: word_less_nat_alt unat_sub word_le_nat_alt)
  have "copy_page seg page frame pm = (if ds < de then mem_write (frame + of_nat (S - P)) (take (unat (de - ds)) (drop (unat ds) (seg_data seg))) pm else pm)"
    unfolding copy_page_def Let_def ds_def[symmetric] L_def[symmetric] de_def[symmetric] 3 ..
  then show ?thesis using 1 2 4 by (simp add: Let_def)
qed

lemma copy_page_bytes:
  fixes seg :: LoadableSegment and page frame :: u64
  defines "S \<equiv> unat (virtual_address seg)" and "L \<equiv> length (seg_data seg)" and "P \<equiv> unat page"
  assumes "P + 4096 < 2 ^ 64" "S + L < 2 ^ 64"
  shows "j < 4096 \<Longrightarrow> copy_page seg page frame pm (frame + of_nat j) =
      (if S \<le> P + j \<and> P + j < S + L then seg_data seg ! (P + j - S) else pm (frame + of_nat j))"
    and "4096 \<le> unat (x - frame) \<Longrightarrow> copy_page seg page frame pm x = pm x"
proof -
  define ds de where "ds = P - S" and "de = min L (P + 4096 - S)"
  have C: "copy_page seg page frame pm =
      (if ds < de then mem_write (frame + of_nat (S - P)) (take (de - ds) (drop ds (seg_data seg))) pm else pm)"
    using copy_page_nat[of page seg frame pm] assms(4,5) by (simp add: Let_def ds_def de_def S_def L_def P_def)
  have len: "length (take (de - ds) (drop ds (seg_data seg))) = de - ds" by (auto simp: de_def ds_def L_def)
  show "copy_page seg page frame pm (frame + of_nat j) =
      (if S \<le> P + j \<and> P + j < S + L then seg_data seg ! (P + j - S) else pm (frame + of_nat j))" if j: "j < 4096"
  proof (cases "ds < de")
    case True
    then have d: "S - P < 4096" by (auto simp: ds_def de_def)
    have u: "unat (frame + of_nat j - (frame + of_nat (S - P))) = (if S - P \<le> j then j - (S - P) else j + 2 ^ 64 - (S - P))"
      by (rule unat_diff_base) (use j d in auto)
    have "unat (frame + of_nat j - (frame + of_nat (S - P))) < de - ds \<longleftrightarrow> S \<le> P + j \<and> P + j < S + L"
      unfolding u using j d by (auto simp: ds_def de_def)
    moreover have "S - P \<le> j" "drop ds (seg_data seg) ! (j - (S - P)) = seg_data seg ! (P + j - S)" if "S \<le> P + j"
    proof -
      have "ds + (j - (S - P)) = P + j - S" using that by (auto simp: ds_def)
      moreover have "ds \<le> length (seg_data seg)" using True by (simp add: de_def L_def)
      ultimately show "drop ds (seg_data seg) ! (j - (S - P)) = seg_data seg ! (P + j - S)" by (metis nth_drop)
    qed (use that in simp)
    ultimately show ?thesis unfolding C using True u by (simp add: mem_write_def len del: length_take length_drop) (auto simp: min_def)
  next
    case False
    then have "\<not> (S \<le> P + j \<and> P + j < S + L)" using j by (auto simp: ds_def de_def)
    then show ?thesis using C False by auto
  qed
  show "copy_page seg page frame pm x = pm x" if x: "4096 \<le> unat (x - frame)"
  proof (cases "ds < de")
    case True
    then have d: "S - P < 4096" "de - ds \<le> 4096 - (S - P)" by (auto simp: ds_def de_def)
    have "x = frame + of_nat (unat (x - frame))" by simp
    then have "unat (x - (frame + of_nat (S - P))) = unat (x - frame) - (S - P)"
      using unat_diff_base[of "unat (x - frame)" "S - P" frame] d(1) x unat_u64_less[of "x - frame"] by simp
    then have "\<not> unat (x - (frame + of_nat (S - P))) < de - ds" using x d by linarith
    then show ?thesis unfolding C using True by (simp only: mem_write_def len if_True if_False)
  qed (simp add: C)
qed

lemma frames_apart:
  fixes f g :: u64
  assumes "4096 dvd unat f" "4096 dvd unat g" "f \<noteq> g" "j < 4096"
  shows "4096 \<le> unat (g + of_nat j - f)"
proof -
  obtain a b where ab: "unat g = 4096 * a" "unat f = 4096 * b" using assms(1,2) by (auto elim!: dvdE)
  then have ne: "a \<noteq> b" using assms(3) by (auto simp: word_unat_eq_iff)
  have bd: "a < 2 ^ 52" "b < 2 ^ 52" using unat_u64_less[of g] unat_u64_less[of f] ab by simp_all
  have "g = of_nat (4096 * a)" "f = of_nat (4096 * b)" using ab of_nat_unat_u64 by metis+
  then have "g + of_nat j - f = 0 + of_nat (4096 * a + j) - (0 + of_nat (4096 * b))" by simp
  moreover have "unat (0 + of_nat (4096 * a + j) - (0 + of_nat (4096 * b)) :: u64) =
      (if 4096 * b \<le> 4096 * a + j then 4096 * a + j - 4096 * b else 4096 * a + j + 2 ^ 64 - 4096 * b)"
    by (rule unat_diff_base) (use bd assms(4) in simp_all)
  moreover have "4096 * b \<le> 4096 * a + j \<longleftrightarrow> b < a" using ne assms(4) by linarith
  ultimately have "unat (g + of_nat j - f) = (if b < a then 4096 * a + j - 4096 * b else 4096 * a + j + 2 ^ 64 - 4096 * b)" by (simp only:)
  then show ?thesis using bd ne by auto
qed

lemma zero_frame:
  assumes "j < 4096"
  shows "mem_write f (replicate 4096 0) pm (f + of_nat j) = 0"
  using assms by (simp add: mem_write_def unat_of_nat_less)

lemma mem_write_far: "length bs \<le> unat (x - f) \<Longrightarrow> mem_write f bs pm x = pm x"
  by (simp add: mem_write_def)

lemma map_page_ok:
  assumes M: "mapper_ok map_to lk" and sp: "space_ok lk m fa" and run: "map_page map_to seg page (m, fa, pm) = Some (m', fa', pm')"
    and page: "4096 dvd unat page" "unat page + 4096 < 2 ^ 64" "unat (virtual_address seg) + length (seg_data seg) < 2 ^ 64"
  shows "space_ok lk m' fa' \<and> dom (lk m') = insert page (dom (lk m)) \<and>
    (\<forall>v. user_byte lk m' pm' v =
       (if containing v = page
        then Some (if in_segment seg v then seg_data seg ! (unat v - unat (virtual_address seg)) else case user_byte lk m pm v of Some b \<Rightarrow> b | None \<Rightarrow> 0)
        else user_byte lk m pm v))"
proof -
  note S = sp[unfolded space_ok_def]
  obtain fa1 where A: "allocate_frame fa = Some (case avail_frames fa of [] \<Rightarrow> None | f # _ \<Rightarrow> Some f, fa1)" "fa_wf fa1"
    "avail_frames fa1 = tl (avail_frames fa)" using allocate_frame_avail S by blast
  obtain f fs where af: "avail_frames fa = f # fs" using run A(1) by (cases "avail_frames fa") (auto simp: map_page_def)
  obtain r m1 fa2 where R: "map_to page f (segment_pflags seg) (m, fa1) = (r, m1, fa2)" by (metis prod_cases3)
  obtain n where N: "fa_wf fa2" "avail_frames fa2 = drop n fs"
    and L: "case lk m page of Some e \<Rightarrow> r = Inl (PageAlreadyMapped e) \<and> lk m1 = lk m
        | None \<Rightarrow> (case r of Inr _ \<Rightarrow> lk m1 = (lk m)(page \<mapsto> f) | Inl (PageAlreadyMapped _) \<Rightarrow> False | Inl _ \<Rightarrow> lk m1 = lk m)"
    using M[unfolded mapper_ok_def, THEN spec[of _ page], THEN spec[of _ f], THEN spec[of _ "segment_pflags seg"],
        THEN spec[of _ m], THEN spec[of _ fa1], THEN mp, OF A(2)] R A(3) af by auto
  define e where "e = (case lk m page of Some e \<Rightarrow> e | None \<Rightarrow> f)"
  define pm0 where "pm0 = (case lk m page of Some e \<Rightarrow> pm | None \<Rightarrow> mem_write f (replicate 4096 0) pm)"
  have res: "m' = m1" "fa' = fa2" "pm' = copy_page seg page e pm0" "lk m1 = (lk m)(page \<mapsto> e)"
    using run A(1) af R L by (auto simp: map_page_def e_def pm0_def split: option.splits sum.splits map_error.splits)
  have en: "e \<notin> set fs" "4096 dvd unat e" using S af by (auto simp: e_def ran_def split: option.splits)
  have other: "g \<noteq> e \<and> 4096 dvd unat g" if "lk m p = Some g" "p \<noteq> page" for p g
    using S af that by (auto simp: e_def ran_def dom_def inj_on_def split: option.splits)
  have "space_ok lk m1 fa2"
    unfolding space_ok_def res(4) N(2)
  proof (intro conjI)
    have rn: "ran ((lk m)(page \<mapsto> e)) \<subseteq> insert e (ran (lk m))" by (auto simp: ran_def split: if_splits)
    show "\<forall>g \<in> set (drop n fs) \<union> ran ((lk m)(page \<mapsto> e)). 4096 dvd unat g"
      using rn S af en(2) set_drop_subset[of n fs] by (auto dest!: subsetD)
    show "ran ((lk m)(page \<mapsto> e)) \<inter> set (drop n fs) = {}" using rn S af en(1) set_drop_subset[of n fs] by fastforce
    show "inj_on ((lk m)(page \<mapsto> e)) (dom ((lk m)(page \<mapsto> e)))" using S other by (fastforce simp: inj_on_def dom_def)
  qed (use N(1) S af in \<open>simp_all\<close>)
  moreover have "dom (lk m1) = insert page (dom (lk m))" by (simp add: res(4))
  moreover have "user_byte lk m1 pm' v = Some (if in_segment seg v then seg_data seg ! (unat v - unat (virtual_address seg))
      else case user_byte lk m pm v of Some b \<Rightarrow> b | None \<Rightarrow> 0)" if v: "containing v = page" for v
  proof -
    let ?j = "unat v mod 4096"
    have P: "unat page + ?j = unat v" using unat_containing[of v] v by simp
    have "pm0 (e + of_nat ?j) = (case user_byte lk m pm v of Some b \<Rightarrow> b | None \<Rightarrow> 0)"
      using v zero_frame[of ?j f pm] by (auto simp: user_byte_def pm0_def e_def page_offset split: option.splits)
    then show ?thesis using copy_page_bytes(1)[OF page(2,3), of ?j e pm0] v
      by (simp add: user_byte_def res P in_segment_def page_offset)
  qed
  moreover have "user_byte lk m1 pm' v = user_byte lk m pm v" if v: "containing v \<noteq> page" for v
  proof (cases "lk m (containing v)")
    case (Some g)
    let ?x = "g + of_nat (unat v mod 4096)"
    have far: "4096 \<le> unat (?x - e)" using frames_apart[OF en(2), of g "unat v mod 4096"] other[OF Some v] by auto
    have "pm0 ?x = pm ?x" using far by (auto simp: pm0_def e_def mem_write_far split: option.splits)
    then show ?thesis using copy_page_bytes(2)[OF page(2,3) far, of pm0] Some v by (simp add: user_byte_def res page_offset)
  qed (use v in \<open>simp add: user_byte_def res\<close>)
  ultimately show ?thesis unfolding res(1,2) by simp
qed

lemma map_page_list_ok:
  assumes M: "mapper_ok map_to lk" and seg: "unat (virtual_address seg) + length (seg_data seg) < 2 ^ 64"
  shows "space_ok lk m fa \<Longrightarrow> map_page_list map_to seg ps (m, fa, pm) = Some (m', fa', pm') \<Longrightarrow> distinct ps \<Longrightarrow>
    \<forall>p \<in> set ps. 4096 dvd unat p \<and> unat p + 4096 < 2 ^ 64 \<Longrightarrow>
    space_ok lk m' fa' \<and> (\<forall>v. user_byte lk m' pm' v =
       (if containing v \<in> set ps
        then Some (if in_segment seg v then seg_data seg ! (unat v - unat (virtual_address seg)) else case user_byte lk m pm v of Some b \<Rightarrow> b | None \<Rightarrow> 0)
        else user_byte lk m pm v))"
proof (induction ps arbitrary: m fa pm)
  case (Cons p ps)
  obtain m1 fa1 pm1 where 1: "map_page map_to seg p (m, fa, pm) = Some (m1, fa1, pm1)" and 2: "map_page_list map_to seg ps (m1, fa1, pm1) = Some (m', fa', pm')"
    using Cons.prems(2) by (auto split: Option.bind_splits)
  have P: "space_ok lk m1 fa1 \<and> dom (lk m1) = insert p (dom (lk m)) \<and> (\<forall>v. user_byte lk m1 pm1 v =
       (if containing v = p
        then Some (if in_segment seg v then seg_data seg ! (unat v - unat (virtual_address seg)) else case user_byte lk m pm v of Some b \<Rightarrow> b | None \<Rightarrow> 0)
        else user_byte lk m pm v))"
    by (rule map_page_ok[OF M Cons.prems(1) 1 _ _ seg]) (use Cons.prems(4) in auto)
  then have s1: "space_ok lk m1 fa1" by blast
  have "space_ok lk m' fa' \<and> (\<forall>v. user_byte lk m' pm' v =
       (if containing v \<in> set ps
        then Some (if in_segment seg v then seg_data seg ! (unat v - unat (virtual_address seg)) else case user_byte lk m1 pm1 v of Some b \<Rightarrow> b | None \<Rightarrow> 0)
        else user_byte lk m1 pm1 v))"
    by (rule Cons.IH[OF s1 2]) (use Cons.prems(3,4) in auto)
  then show ?case using P Cons.prems(3) by auto
qed simp

definition segment_loaded :: "('u \<Rightarrow> u64 \<Rightarrow> u64 option) \<Rightarrow> 'u \<Rightarrow> (u64 \<Rightarrow> u8) \<Rightarrow> LoadableSegment \<Rightarrow> bool" where
  "segment_loaded lk m pm seg \<longleftrightarrow>
     (\<forall>v. in_segment seg v \<longrightarrow> user_byte lk m pm v = Some (seg_data seg ! (unat v - unat (virtual_address seg))))"

definition segment_fits :: "LoadableSegment \<Rightarrow> bool" where
  "segment_fits seg \<longleftrightarrow> unat (seg_size seg) = length (seg_data seg) \<and> unat (virtual_address seg) + length (seg_data seg) + 4096 < 2 ^ 64"

lemma map_segment_ok:
  assumes M: "mapper_ok map_to lk" and sp: "space_ok lk m fa" and fits: "segment_fits seg"
    and run: "map_segment map_to seg (m, fa, pm) = Some (m', fa', pm')"
  shows "space_ok lk m' fa' \<and> segment_loaded lk m' pm' seg \<and>
    (\<forall>v b. \<not> in_segment seg v \<longrightarrow> user_byte lk m pm v = Some b \<longrightarrow> user_byte lk m' pm' v = Some b)"
proof -
  let ?a = "virtual_address seg"
  note F = fits[unfolded segment_fits_def]
  define last where "last = ?a + seg_size seg - 1"
  have e: "unat (?a + seg_size seg) = unat ?a + length (seg_data seg)" using F by (subst unat_plus_if_size) (simp add: word_size)
  have pos: "1 \<le> ?a + seg_size seg"
    and R: "map_page_list map_to seg (page_range (containing ?a) (containing last)) (m, fa, pm) = Some (m', fa', pm')"
    using run by (auto simp: map_segment_def virt_add_def virt_sub_def virt_new_def last_def split: if_splits Option.bind_splits)
  have l: "unat last = unat ?a + length (seg_data seg) - 1" using pos e by (simp add: last_def unat_sub)
  have al: "4096 dvd unat (containing ?a)" "4096 dvd unat (containing last)" by (simp_all add: unat_containing)
  note R' = page_range_pages[OF al]
  have "\<forall>p \<in> set (page_range (containing ?a) (containing last)). 4096 dvd unat p \<and> unat p + 4096 < 2 ^ 64"
    using R'(2) containing_le(1)[of last] F l by (auto simp: word_le_nat_alt)
  note W = map_page_list_ok[OF M _ sp R R'(1) this]
  have W: "space_ok lk m' fa'" "user_byte lk m' pm' v = (if containing v \<in> set (page_range (containing ?a) (containing last))
        then Some (if in_segment seg v then seg_data seg ! (unat v - unat ?a) else case user_byte lk m pm v of Some b \<Rightarrow> b | None \<Rightarrow> 0)
        else user_byte lk m pm v)" for v using W F by auto
  have "containing v \<in> set (page_range (containing ?a) (containing last))" if "in_segment seg v" for v
    unfolding R'(2) using that l unfolding in_segment_def
    by (auto simp: word_le_nat_alt unat_containing intro!: mult_le_mono2 div_le_mono)
  then show ?thesis using W by (auto simp: segment_loaded_def)
qed

lemma map_segments_ok:
  assumes M: "mapper_ok map_to lk"
  shows "space_ok lk m fa \<Longrightarrow> map_segments map_to ss (m, fa, pm) = Some (m', fa', pm') \<Longrightarrow> \<forall>s \<in> set ss. segment_fits s \<Longrightarrow>
    \<forall>s \<in> set ss. \<forall>t \<in> set ss. s \<noteq> t \<longrightarrow> (\<forall>v. \<not> (in_segment s v \<and> in_segment t v)) \<Longrightarrow>
    space_ok lk m' fa' \<and> (\<forall>s \<in> set ss. segment_loaded lk m' pm' s) \<and>
    (\<forall>v b. (\<forall>s \<in> set ss. \<not> in_segment s v) \<longrightarrow> user_byte lk m pm v = Some b \<longrightarrow> user_byte lk m' pm' v = Some b)"
proof (induction ss arbitrary: m fa pm)
  case (Cons s ss)
  obtain m1 fa1 pm1 where 1: "map_segment map_to s (m, fa, pm) = Some (m1, fa1, pm1)" and 2: "map_segments map_to ss (m1, fa1, pm1) = Some (m', fa', pm')"
    using Cons.prems(2) by (auto split: Option.bind_splits)
  have P: "space_ok lk m1 fa1" "segment_loaded lk m1 pm1 s"
    "\<And>v b. \<not> in_segment s v \<Longrightarrow> user_byte lk m pm v = Some b \<Longrightarrow> user_byte lk m1 pm1 v = Some b"
    using map_segment_ok[OF M Cons.prems(1) _ 1] Cons.prems(3) by auto
  have I: "space_ok lk m' fa' \<and> (\<forall>s \<in> set ss. segment_loaded lk m' pm' s) \<and>
    (\<forall>v b. (\<forall>s \<in> set ss. \<not> in_segment s v) \<longrightarrow> user_byte lk m1 pm1 v = Some b \<longrightarrow> user_byte lk m' pm' v = Some b)"
    by (rule Cons.IH[OF P(1) 2]) (use Cons.prems(3,4) in auto)
  have "segment_loaded lk m' pm' s"
    unfolding segment_loaded_def
  proof (intro allI impI)
    fix v assume v: "in_segment s v"
    show "user_byte lk m' pm' v = Some (seg_data s ! (unat v - unat (virtual_address s)))"
    proof (cases "\<exists>t \<in> set ss. in_segment t v")
      case True
      then have "s \<in> set ss" using Cons.prems(4) v by (metis list.set_intros(1,2))
      then show ?thesis using I v by (simp add: segment_loaded_def)
    next
      case False
      then show ?thesis using I P(2) v by (simp add: segment_loaded_def)
    qed
  qed
  then show ?case using I P(3) by simp
qed simp

lemma stack_page_ok:
  assumes M: "mapper_ok map_to lk" and sp: "space_ok lk m fa" and run: "stack_page map_to page (m, fa, pm) = Some (m', fa', pm')"
  shows "space_ok lk m' fa' \<and> (\<forall>v b. user_byte lk m pm v = Some b \<longrightarrow> user_byte lk m' pm' v = Some b)"
proof -
  note S = sp[unfolded space_ok_def]
  obtain fa1 where A: "allocate_frame fa = Some (case avail_frames fa of [] \<Rightarrow> None | f # _ \<Rightarrow> Some f, fa1)" "fa_wf fa1"
    "avail_frames fa1 = tl (avail_frames fa)" using allocate_frame_avail S by blast
  obtain f fs where af: "avail_frames fa = f # fs" using run A(1) by (cases "avail_frames fa") (auto simp: stack_page_def)
  let ?fl = "{PRESENT, WRITABLE, USER_ACCESSIBLE}"
  obtain r m1 fa2 where R: "map_to page f ?fl (m, fa1) = (r, m1, fa2)" by (metis prod_cases3)
  obtain n where N: "fa_wf fa2" "avail_frames fa2 = drop n fs"
    and L: "case lk m page of Some e \<Rightarrow> r = Inl (PageAlreadyMapped e) \<and> lk m1 = lk m
        | None \<Rightarrow> (case r of Inr _ \<Rightarrow> lk m1 = (lk m)(page \<mapsto> f) | Inl (PageAlreadyMapped _) \<Rightarrow> False | Inl _ \<Rightarrow> lk m1 = lk m)"
    using M[unfolded mapper_ok_def, THEN spec[of _ page], THEN spec[of _ f], THEN spec[of _ ?fl],
        THEN spec[of _ m], THEN spec[of _ fa1], THEN mp, OF A(2)] R A(3) af by auto
  have res: "m' = m1" "fa' = fa2" "pm' = mem_write f (replicate 4096 0) pm"
    using run A(1) af R by (simp_all add: stack_page_def)
  have lk1: "lk m1 = lk m \<or> (lk m page = None \<and> lk m1 = (lk m)(page \<mapsto> f))"
    using L by (auto split: option.splits sum.splits map_error.splits)
  have old: "lk m1 p = Some g \<and> g \<noteq> f \<and> 4096 dvd unat g" if "lk m p = Some g" for p g
    using that lk1 S af by (auto simp: ran_def)
  have "space_ok lk m1 fa2"
    using lk1 N S af set_drop_subset[of n fs] by (auto simp: space_ok_def inj_on_def ran_def dom_def split: if_splits; blast)
  moreover have "user_byte lk m1 pm' v = Some b" if ub: "user_byte lk m pm v = Some b" for v b
  proof -
    obtain g where g: "lk m (containing v) = Some g" "b = pm (g + of_nat (unat v mod 4096))" using ub by (auto simp: user_byte_def page_offset)
    have "4096 dvd unat f" using S af by simp
    then have "4096 \<le> unat (g + of_nat (unat v mod 4096) - f)" using frames_apart[of f g "unat v mod 4096"] old[OF g(1)] by auto
    then show ?thesis using old[OF g(1)] g(2) by (simp add: user_byte_def res page_offset mem_write_far)
  qed
  ultimately show ?thesis using res by simp
qed

lemma stack_pages_ok:
  assumes "mapper_ok map_to lk"
  shows "space_ok lk m fa \<Longrightarrow> stack_pages map_to ps (m, fa, pm) = Some (m', fa', pm') \<Longrightarrow>
    \<forall>v b. user_byte lk m pm v = Some b \<longrightarrow> user_byte lk m' pm' v = Some b"
proof (induction ps arbitrary: m fa pm)
  case (Cons p ps)
  obtain m1 fa1 pm1 where 1: "stack_page map_to p (m, fa, pm) = Some (m1, fa1, pm1)" and 2: "stack_pages map_to ps (m1, fa1, pm1) = Some (m', fa', pm')"
    using Cons.prems(2) by (auto split: Option.bind_splits)
  show ?case using stack_page_ok[OF assms Cons.prems(1) 1] Cons.IH[OF _ 2] by blast
qed simp

lemma read_all_ramfile:
  assumes "nodes (k_vfs k) r = RamFile name data" "data \<noteq> []" "length data < 2 ^ 64"
  shows "read_all r (length data) 0 (replicate (length data) 0) k = Some (data, k)"
proof -
  have "inode_read r 0 (length data) k = RdDone data k" using assms by (simp add: inode_read_def ramfile_read_def slice_def)
  then show ?thesis using assms(2) by (subst read_all.simps, simp, subst read_all.simps) (simp add: overlay_def)
qed

lemma init_stdio_next_ref: "next_ref (k_sched (init_stdio t k)) = next_ref (k_sched k)"
proof -
  have "next_ref (k_sched (node_drop n k)) = next_ref (k_sched k)" for n k
    by (auto simp: node_drop_def split: node.splits prod.splits)
  then have "next_ref (k_sched (fd_insert key f k)) = next_ref (k_sched k)" for key f k
    by (simp add: fd_insert_def file_release_def Let_def split: option.splits)
  then show ?thesis
    by (simp add: init_stdio_def init_stdio_fd_def Let_def add_node_def arc_new_file_def split: prod.splits)
qed

lemma start_task_sched:
  assumes "start_task trampoline parent_id entry (pml4, ust, kstack) k = (pid, k')"
  shows "pid = next_task_id (k_sched k) \<and> rq_queue (k_sched k') \<noteq> [] \<and> last (rq_queue (k_sched k')) = next_ref (k_sched k) \<and>
    tcb (k_sched k') (next_ref (k_sched k)) = user_task pid (user_context trampoline kstack entry ust pml4) kstack ust parent_id pml4"
  using assms
  by (auto simp: start_task_def Let_def init_stdio_next_ref task_id_new_def arc_new_task_def enqueue_task_def enqueue_def set_state_def
    user_task_def split: option.splits if_splits)

lemma space_ok_fewer:
  assumes "space_ok lk m fa" "fa_wf fa'" "avail_frames fa' = tl (avail_frames fa)"
  shows "space_ok lk m fa'"
proof -
  have "set (tl (avail_frames fa)) \<subseteq> set (avail_frames fa)" by (cases "avail_frames fa") auto
  then show ?thesis using assms unfolding space_ok_def by (auto simp: distinct_tl)
qed

lemma build_space_loaded:
  assumes M: "mapper_ok map_to lk" and pg: "mc_pages mc = Some pa" "\<forall>tbl. space_ok lk (create_mapper tbl) (pa_frames pa)"
    and segs: "\<forall>s \<in> set segs. segment_fits s" "\<forall>s \<in> set segs. \<forall>t \<in> set segs. s \<noteq> t \<longrightarrow> (\<forall>v. \<not> (in_segment s v \<and> in_segment t v))"
    and run: "build_space kmap_to map_to create_mapper active segs mc = Some (Inr (pml4, ust, kstack), mc')"
  shows "\<exists>m. mc_spaces mc' pml4 = Some m \<and> (\<forall>s \<in> set segs. segment_loaded lk m (mc_phys mc') s)"
proof -
  obtain fa1 where A: "allocate_frame (pa_frames pa) = Some (case avail_frames (pa_frames pa) of [] \<Rightarrow> None | f # _ \<Rightarrow> Some f, fa1)" "fa_wf fa1"
    "avail_frames fa1 = tl (avail_frames (pa_frames pa))" using allocate_frame_avail pg(2) unfolding space_ok_def by blast
  obtain tbl m1 fa2 pm1 m2 fa3 pm2 ps where
    1: "map_segments map_to segs (create_mapper tbl, fa1, mc_phys mc) = Some (m1, fa2, pm1)"
    and 2: "stack_pages map_to ps (m1, fa2, pm1) = Some (m2, fa3, pm2)"
    and mc': "mc_spaces mc' pml4 = Some m2" "mc_phys mc' = pm2"
    using run pg(1) A(1)
    by (auto simp: build_space_def create_user_page_table_def allocate_user_stack_def Let_def split: Option.bind_splits option.splits list.splits)
  have S: "space_ok lk (create_mapper tbl) fa1" by (rule space_ok_fewer[OF pg(2)[rule_format] A(2,3)])
  have L: "space_ok lk m1 fa2" "\<forall>s \<in> set segs. segment_loaded lk m1 pm1 s" using map_segments_ok[OF M S 1 segs] by blast+
  have "\<forall>v b. user_byte lk m1 pm1 v = Some b \<longrightarrow> user_byte lk m2 pm2 v = Some b" by (rule stack_pages_ok[OF M L(1) 2])
  then have "\<forall>s \<in> set segs. segment_loaded lk m2 pm2 s" using L(2) by (auto simp: segment_loaded_def)
  then show ?thesis using mc' by blast
qed

lemma segment_of_size: "segment_of d ph s \<Longrightarrow> unat (seg_size s) = length (seg_data s)"
  unfolding segment_of_def by simp

section \<open>A demonstration machine\<close>

text \<open>Address spaces as association lists, a kernel mapper that always succeeds, and 300 free frames.\<close>

definition assoc_map_to :: "(u64 \<times> u64) list map_to" where
  "assoc_map_to p f flags st =
     (case st of (m, fa) \<Rightarrow>
        case map_of m p of Some e \<Rightarrow> (Inl (PageAlreadyMapped e), m, fa) | None \<Rightarrow> (Inr (), (p, f) # m, fa))"

definition unit_map_to :: "unit map_to" where
  "unit_map_to p f flags st = (Inr (), st)"

definition demo_frames :: "u64 list" where
  "demo_frames = map (\<lambda>i. of_nat (4096 * i)) [1..<301]"

definition demo_machine :: "(unit, (u64 \<times> u64) list) machine" where
  "demo_machine =
     \<lparr>mc_pages = Some \<lparr>pa_mapper = (), pa_frames = static_alloc_new (map Some demo_frames) 300\<rparr>, mc_kstack = 0xFFFFB00000000000,
      mc_pml4s = (\<lambda>_. replicate 512 0), mc_spaces = (\<lambda>_. None), mc_phys = (\<lambda>_. 0)\<rparr>"

definition demo_spawn_kernel :: kernel where
  "demo_spawn_kernel = demo_kernel\<lparr>k_vfs := (k_vfs demo_kernel)\<lparr>nodes := (nodes (k_vfs demo_kernel))(1 := RamFile [0x66] demo_elf)\<rparr>\<rparr>"

lemma demo_spawn_lookup:
  "lookup_path (k_vfs demo_spawn_kernel) [SLASH, 0x66] = Some 1" "nodes (k_vfs demo_spawn_kernel) 1 = RamFile [0x66] demo_elf"
  by (simp_all add: demo_spawn_kernel_def demo_kernel_simps Let_def lookup_path_def set_root_def mount_def components_def
      normalize_mount_path_def sort_mounts_def mount_matches_def starts_with_def mount_remainder_def
      trim_start_matches_def)

lemma assoc_mapper_ok: "mapper_ok assoc_map_to map_of"
  unfolding mapper_ok_def assoc_map_to_def by (auto split: option.splits intro: exI[of _ 0])

lemma avail_static: "avail_frames (static_alloc_new (map Some fs) (length fs)) = fs"
proof -
  have "List.map_filter (\<lambda>i. map Some fs ! i) [0..<length fs] = map (\<lambda>i. fs ! i) [0..<length fs]"
    unfolding List.map_filter_def by (auto intro!: map_cong simp: filter_id_conv)
  then show ?thesis by (simp add: avail_frames_def static_alloc_new_def map_nth)
qed

lemma demo_frames_props: "distinct demo_frames" "\<forall>f \<in> set demo_frames. 4096 dvd unat f" "length demo_frames = 300"
proof -
  have u: "unat (of_nat (4096 * i) :: u64) = 4096 * i" if "i < 301" for i using that by (intro unat_of_nat_less) simp
  have "inj_on (\<lambda>i. of_nat (4096 * i) :: u64) (set [1..<301])"
    by (rule inj_on_inverseI[of _ "\<lambda>w. unat w div 4096"]) (use u in \<open>simp del: of_nat_mult\<close>)
  then show "distinct demo_frames" unfolding demo_frames_def by (simp add: distinct_map del: of_nat_mult)
  show "\<forall>f \<in> set demo_frames. 4096 dvd unat f"
    unfolding demo_frames_def set_map by (intro ballI, elim imageE) (simp only: u set_upt atLeastLessThan_iff dvd_triv_left)
  show "length demo_frames = 300" unfolding demo_frames_def by simp
qed

text \<open>With enough frames these mappers map every page.\<close>

lemma allocate_frame_some:
  assumes "fa_wf fa" "avail_frames fa \<noteq> []"
  obtains f fa' where "allocate_frame fa = Some (Some f, fa')" "fa_wf fa'" "avail_frames fa' = tl (avail_frames fa)"
  using allocate_frame_avail[OF assms(1)] assms(2) by (auto split: list.splits)

lemma map_page_assoc:
  assumes "fa_wf fa" "avail_frames fa \<noteq> []"
  obtains m' fa' pm' where "map_page assoc_map_to seg p (m, fa, pm) = Some (m', fa', pm')" "fa_wf fa'" "avail_frames fa' = tl (avail_frames fa)"
proof -
  obtain f fa' where "allocate_frame fa = Some (Some f, fa')" "fa_wf fa'" "avail_frames fa' = tl (avail_frames fa)"
    by (rule allocate_frame_some[OF assms])
  then show thesis by (cases "map_of m p") (auto simp: map_page_def assoc_map_to_def intro: that)
qed

lemma stack_pages_assoc:
  assumes "fa_wf fa" "length ps \<le> length (avail_frames fa)"
  obtains m' fa' pm' where "stack_pages assoc_map_to ps (m, fa, pm) = Some (m', fa', pm')" "fa_wf fa'"
    "avail_frames fa' = drop (length ps) (avail_frames fa)"
  using assms
proof (induction ps arbitrary: m fa pm thesis)
  case (Cons p ps)
  have "avail_frames fa \<noteq> []" using Cons.prems(3) by auto
  then obtain f fa1 where a: "allocate_frame fa = Some (Some f, fa1)" "fa_wf fa1" "avail_frames fa1 = tl (avail_frames fa)"
    by (rule allocate_frame_some[OF Cons.prems(2)])
  obtain m1 where s: "stack_page assoc_map_to p (m, fa, pm) = Some (m1, fa1, mem_write f (replicate 4096 0) pm)"
    using a(1) by (cases "map_of m p") (auto simp: stack_page_def assoc_map_to_def)
  have l: "length ps \<le> length (avail_frames fa1)" using a(3) Cons.prems(3) by simp
  show ?case
  proof (rule Cons.IH[OF _ a(2) l])
    fix m' fa' pm' assume "stack_pages assoc_map_to ps (m1, fa1, mem_write f (replicate 4096 0) pm) = Some (m', fa', pm')" "fa_wf fa'"
      "avail_frames fa' = drop (length ps) (avail_frames fa1)"
    then show thesis by (intro Cons.prems(1)) (simp_all add: s a(3) drop_Suc)
  qed
qed simp

lemma map_pages_unit:
  assumes "fa_wf (pa_frames pa)" "length as \<le> length (avail_frames (pa_frames pa))" "\<forall>a \<in> set as. canonical a"
  shows "\<exists>pa'. map_pages unit_map_to flags as pa = Some (True, pa')"
  using assms
proof (induction as arbitrary: pa)
  case (Cons a as)
  have "avail_frames (pa_frames pa) \<noteq> []" using Cons.prems(2) by auto
  then obtain f fa1 where a: "allocate_frame (pa_frames pa) = Some (Some f, fa1)" "fa_wf fa1" "avail_frames fa1 = tl (avail_frames (pa_frames pa))"
    by (rule allocate_frame_some[OF Cons.prems(1)])
  have "\<exists>pa'. map_pages unit_map_to flags as \<lparr>pa_mapper = pa_mapper pa, pa_frames = fa1\<rparr> = Some (True, pa')"
    by (rule Cons.IH) (use a Cons.prems in simp_all)
  then show ?case using a Cons.prems(3) by (simp add: virt_new_def unit_map_to_def[of _ _ _ "((), fa1)"])
qed simp

lemma canonical_kstack: "i < 256 \<Longrightarrow> canonical (0xFFFFB00000000000 + of_nat i * 4096)"
proof -
  assume "i < 256"
  then have "unat (of_nat (0xFFFFB00000000000 + i * 4096) :: u64) = 0xFFFFB00000000000 + i * 4096" by (intro unat_of_nat_less) simp
  then have "unat (0xFFFFB00000000000 + of_nat i * 4096 :: u64) = 0xFFFFB00000000000 + i * 4096" by simp
  then show ?thesis by (simp add: canonical_def word_le_nat_alt word_less_nat_alt)
qed

lemma demo_build_space:
  assumes "fa_wf fa" "262 \<le> length (avail_frames fa)"
  shows "\<exists>sp mc'. build_space unit_map_to assoc_map_to cm act
     [\<lparr> virtual_address = 0x400000, seg_size = 6, seg_flags = fl, seg_data = sd \<rparr>]
     \<lparr>mc_pages = Some \<lparr>pa_mapper = (), pa_frames = fa\<rparr>, mc_kstack = 0xFFFFB00000000000, mc_pml4s = pt, mc_spaces = ms, mc_phys = pm\<rparr>
     = Some (Inr sp, mc')"
proof -
  let ?seg = "\<lparr> virtual_address = 0x400000, seg_size = 6, seg_flags = fl, seg_data = sd \<rparr>"
  have ne: "avail_frames fa \<noteq> []" using assms(2) by auto
  obtain f fa1 where 1: "allocate_frame fa = Some (Some f, fa1)" "fa_wf fa1" "avail_frames fa1 = tl (avail_frames fa)"
    by (rule allocate_frame_some[OF assms(1) ne])
  have pt: "create_user_page_table act (fa, pt) = Some (Some f, fa1, pt(f := take 256 (replicate 512 0) @ drop 256 ((pt(f := replicate 512 0)) act)))"
    using 1(1) by (simp add: create_user_page_table_def Let_def)
  let ?m = "cm ((pt(f := take 256 (replicate 512 0) @ drop 256 ((pt(f := replicate 512 0)) act))) f)"
  have ne1: "avail_frames fa1 \<noteq> []" using assms(2) 1(3) by (cases "avail_frames fa") auto
  obtain m2 fa2 pm2 where 2: "map_page assoc_map_to ?seg 0x400000 (?m, fa1, pm) = Some (m2, fa2, pm2)" "fa_wf fa2" "avail_frames fa2 = tl (avail_frames fa1)"
    by (rule map_page_assoc[OF 1(2) ne1])
  have ms: "map_segments assoc_map_to [?seg] (?m, fa1, pm) = Some (m2, fa2, pm2)"
    using 2(1) by (simp add: map_segment_def virt_add_def virt_sub_def virt_new_def canonical_def containing_def page_range_def)
  let ?ps = "page_range (containing (USER_STACK_TOP - 16384)) (containing (USER_STACK_TOP - 1))"
  have lp: "length ?ps = 4" by (simp add: page_range_def containing_def)
  have "length ?ps \<le> length (avail_frames fa2)" using assms(2) lp 1(3) 2(3) by simp
  then obtain m3 fa3 pm3 where 3: "stack_pages assoc_map_to ?ps (m2, fa2, pm2) = Some (m3, fa3, pm3)" "fa_wf fa3"
    "avail_frames fa3 = drop (length ?ps) (avail_frames fa2)" by (rule stack_pages_assoc[OF 2(2)])
  have us: "allocate_user_stack assoc_map_to (m2, fa2, pm2) = Some (USER_STACK_TOP, m3, fa3, pm3)"
    using 3(1) by (simp add: allocate_user_stack_def virt_new_def virt_sub_def canonical_def)
  have "\<exists>pa'. map_pages unit_map_to SLUB_FLAGS (block_pages 0xFFFFB00000000000 256) \<lparr>pa_mapper = (), pa_frames = fa3\<rparr> = Some (True, pa')"
    by (rule map_pages_unit) (use 3(2,3) assms(2) lp 1(3) 2(3) in \<open>simp_all add: block_pages_def canonical_kstack\<close>)
  then show ?thesis using pt ms us
    by (auto simp: build_space_def alloc_kernel_stack_def virt_new_def canonical_def Let_def simp del: map_segments.simps)
qed

section \<open>Properties\<close>



end
