(* ===== verification/Kernel_Types.thy ===== *)
theory Kernel_Types
  imports Process
begin

text \<open>
  Typing of the kernel state. The kernel refers to inodes, open files, pipes and ports by counted
  references; a state is well typed when every reference it stores has been handed out and every
  object has the shape its operations rely on. Every system call, key press, port creation and
  process creation keeps a state well typed, and a system call on a well-typed state
  panics only in a write.
\<close>

section \<open>Well-typed states\<close>

definition node_typed :: "nat \<Rightarrow> nat \<Rightarrow> node \<Rightarrow> bool" where
  "node_typed n p nd =
     (case nd of
        RamDir _ children \<Rightarrow> distinct (map fst children) \<and> (\<forall>e \<in> set children. snd e < n)
      | PipeReadEnd q \<Rightarrow> q < p
      | PipeWriteEnd q \<Rightarrow> q < p
      | _ \<Rightarrow> True)"

definition vfs_typed :: "nat \<Rightarrow> vfs \<Rightarrow> bool" where
  "vfs_typed p v \<longleftrightarrow> (\<forall>r < next_node v. node_typed (next_node v) p (nodes v r)) \<and>
     (\<forall>e \<in> set (MOUNT_TABLE v). me_root e < next_node v)"

definition message_typed :: "Message \<Rightarrow> bool" where
  "message_typed m \<longleftrightarrow> length (m_data m) = MAX_MSG_SIZE \<and> unat (m_len m) \<le> MAX_MSG_SIZE"

definition port_typed :: "Port \<Rightarrow> bool" where
  "port_typed p \<longleftrightarrow> port_inv p \<and> (\<forall>m \<in> set (port_queue p). message_typed m)"

definition ipc_typed :: "IpcSpace \<Rightarrow> bool" where
  "ipc_typed sp \<longleftrightarrow> bt_wf (ipc_ports sp) \<and> (\<forall>e \<in> set (ipc_ports sp). snd e < ipc_next sp) \<and>
     (\<forall>r < ipc_next sp. port_typed (ipc_heap sp r))"

definition tty_typed :: "Tty \<Rightarrow> bool" where
  "tty_typed t \<longleftrightarrow> (\<exists>tm. tty_refines t tm)"

lemma tty_typedI: "tty_refines t tm \<Longrightarrow> tty_typed t"
  unfolding tty_typed_def by blast

definition table_typed :: "nat \<Rightarrow> (u64 \<times> u64, file_ref) btree \<Rightarrow> bool" where
  "table_typed n t \<longleftrightarrow> bt_wf t \<and> (\<forall>e \<in> set t. snd e < n)"

definition kernel_typed :: "kernel \<Rightarrow> bool" where
  "kernel_typed k \<longleftrightarrow> vfs_typed (next_pipe k) (k_vfs k) \<and> table_typed (next_file k) (FD_TABLE k) \<and>
     (\<forall>f < next_file k. of_inode (files k f) < next_node (k_vfs k)) \<and>
     (\<forall>p < next_pipe k. pipe_inv (pipes k p)) \<and> ipc_typed (k_ipc k) \<and> rb_inv (INPUT_BUF k) \<and>
     pred_option tty_typed (KERNEL_TTY k)"

named_theorems typed

section \<open>Updates that keep the type\<close>

lemma typed_frame [simp]:
  "kernel_typed (k\<lparr>k_sched := s\<rparr>) = kernel_typed k" "kernel_typed (k\<lparr>umem := m\<rparr>) = kernel_typed k"
  "kernel_typed (k\<lparr>serial_out := a\<rparr>) = kernel_typed k"
  "kernel_typed (k\<lparr>EXECUTOR := x\<rparr>) = kernel_typed k" "kernel_typed (k\<lparr>NEXT_FD := fd\<rparr>) = kernel_typed k"
  by (simp_all add: kernel_typed_def)

lemma typed_copy [simp]: "kernel_typed (copy_to_user a bs k) = kernel_typed k"
  by (simp add: copy_to_user_def)

lemma typed_pipe [typed]: "kernel_typed k \<Longrightarrow> pipe_inv p' \<Longrightarrow> kernel_typed (k\<lparr>pipes := (pipes k)(p := p')\<rparr>)"
  by (simp add: kernel_typed_def)

lemma typed_offset [typed]: "kernel_typed k \<Longrightarrow> kernel_typed (set_offset f off k)"
  by (simp add: kernel_typed_def set_offset_def)

lemma typed_vfs [typed]:
  "kernel_typed k \<Longrightarrow> vfs_typed (next_pipe k) v \<Longrightarrow> next_node (k_vfs k) \<le> next_node v \<Longrightarrow> kernel_typed (k\<lparr>k_vfs := v\<rparr>)"
  by (auto simp: kernel_typed_def)

lemma typed_port [typed]: "kernel_typed k \<Longrightarrow> port_typed p \<Longrightarrow> kernel_typed (set_port r p k)"
  by (simp add: kernel_typed_def set_port_def ipc_typed_def)

lemma typed_input [typed]: "kernel_typed k \<Longrightarrow> rb_inv rb \<Longrightarrow> kernel_typed (k\<lparr>INPUT_BUF := rb\<rparr>)"
  by (simp add: kernel_typed_def)

lemma typed_fd_get: "kernel_typed k \<Longrightarrow> fd_get t fd k = Some f \<Longrightarrow> of_inode (files k f) < next_node (k_vfs k)"
  unfolding kernel_typed_def table_typed_def fd_get_def by (fastforce dest: map_of_SomeD)

lemma typed_node: "kernel_typed k \<Longrightarrow> r < next_node (k_vfs k) \<Longrightarrow> node_typed (next_node (k_vfs k)) (next_pipe k) (nodes (k_vfs k) r)"
  by (simp add: kernel_typed_def vfs_typed_def)

lemma typed_pipe_inv: "kernel_typed k \<Longrightarrow> p < next_pipe k \<Longrightarrow> pipe_inv (pipes k p)"
  by (simp add: kernel_typed_def)

section \<open>Paths and directories\<close>

lemma walk_typed: "vfs_typed p v \<Longrightarrow> r < next_node v \<Longrightarrow> walk v r cs = Some r' \<Longrightarrow> r' < next_node v"
proof (induction cs arbitrary: r)
  case (Cons c cs)
  then obtain r1 where r1: "inode_lookup (nodes v r) c = Some r1" "walk v r1 cs = Some r'" by (auto split: option.splits)
  have "node_typed (next_node v) p (nodes v r)" using Cons.prems(1,2) by (simp add: vfs_typed_def)
  then have "r1 < next_node v" using r1(1) by (cases "nodes v r") (auto simp: node_typed_def dest!: map_of_SomeD)
  then show ?case using Cons.IH Cons.prems(1) r1(2) by blast
qed simp

lemma lookup_typed: "vfs_typed p v \<Longrightarrow> lookup_path v path = Some r \<Longrightarrow> r < next_node v"
proof -
  assume v: "vfs_typed p v" and l: "lookup_path v path = Some r"
  then obtain e where e: "List.find (mount_matches path) (MOUNT_TABLE v) = Some e"
    "r = me_root e \<or> walk v (me_root e) (components (mount_remainder path e)) = Some r"
    by (auto simp: lookup_path_def Let_def split: if_splits option.splits)
  have "me_root e < next_node v" using v e(1) by (auto simp: vfs_typed_def find_Some_iff)
  then show ?thesis using e(2) walk_typed[OF v] by blast
qed

lemma node_typed_mono: "node_typed n p nd \<Longrightarrow> n \<le> n' \<Longrightarrow> p \<le> p' \<Longrightarrow> node_typed n' p' nd"
  by (auto simp: node_typed_def split: node.splits)

lemma vfs_typed_new [typed]:
  assumes "vfs_typed p v" "node_typed (Suc (next_node v)) p nd"
  shows "vfs_typed p (snd (arc_new_node nd v))" "next_node (snd (arc_new_node nd v)) = Suc (next_node v)"
  using assms by (auto simp: vfs_typed_def arc_new_node_def less_Suc_eq intro: node_typed_mono)

lemma vfs_typed_upd [typed]:
  assumes "vfs_typed p v" "node_typed (next_node v) p nd"
  shows "vfs_typed p (v\<lparr>nodes := (nodes v)(r := nd)\<rparr>)"
  using assms by (simp add: vfs_typed_def)

lemma remove_child_subseq: "remove_child name cs = Some cs' \<Longrightarrow> subseq cs' cs"
  by (induction name cs arbitrary: cs' rule: remove_child.induct) (auto split: if_splits)

lemma subseq_distinct: "subseq xs ys \<Longrightarrow> distinct ys \<Longrightarrow> distinct xs"
  by (induction rule: list_emb.induct) (auto dest: list_emb_set)

lemma remove_child_subset:
  assumes "remove_child name cs = Some cs'"
  shows "set cs' \<subseteq> set cs" "distinct (map fst cs) \<Longrightarrow> distinct (map fst cs')"
  using remove_child_subseq[OF assms] by (auto dest: list_emb_set intro: subseq_distinct[OF subseq_map])

lemma unlink_cases:
  assumes "inode_unlink d name v = (res, v')"
  obtains "v' = v" | dn cs cs' where "nodes v d = RamDir dn cs" "remove_child name cs = Some cs'" "v' = v\<lparr>nodes := (nodes v)(d := RamDir dn cs')\<rparr>"
  using assms by (auto simp: inode_unlink_def split: node.splits option.splits)

lemma insert_cases:
  assumes "ramdir_insert d name r v = (res, v')"
  obtains "v' = v" | dn cs where "nodes v d = RamDir dn cs" "name \<notin> fst ` set cs" "v' = v\<lparr>nodes := (nodes v)(d := RamDir dn (cs @ [(name, r)]))\<rparr>"
  using assms by (auto simp: ramdir_insert_def split: node.splits if_splits)

lemma mkdir_cases:
  assumes "inode_mkdir d name v = (res, v')"
  obtains "v' = v" | res' where "ramdir_insert d name (next_node v) (snd (arc_new_node (RamDir name []) v)) = (res', v')"
  using assms by (auto simp: inode_mkdir_def arc_new_node_def Let_def split: node.splits prod.splits sum.splits)

lemma vfs_typed_dir: "vfs_typed p v \<Longrightarrow> d < next_node v \<Longrightarrow> nodes v d = RamDir dn cs \<Longrightarrow>
    distinct (map fst cs) \<and> (\<forall>e \<in> set cs. snd e < next_node v)"
  unfolding vfs_typed_def by (drule conjunct1, drule spec[of _ d]) (simp add: node_typed_def)

lemma unlink_typed:
  assumes "vfs_typed p v" "inode_unlink d name v = (res, v')" "d < next_node v"
  shows "vfs_typed p v' \<and> next_node v' = next_node v"
  using assms(2)
proof (cases rule: unlink_cases)
  case (2 dn cs cs')
  then have "distinct (map fst cs')" "\<forall>e \<in> set cs'. snd e < next_node v"
    using vfs_typed_dir[OF assms(1,3)] remove_child_subset by blast+
  then show ?thesis unfolding 2(3) by (simp add: vfs_typed_upd[OF assms(1)] node_typed_def)
qed (simp add: assms(1))

lemma insert_typed:
  assumes "vfs_typed p v" "ramdir_insert d name r v = (res, v')" "d < next_node v" "r < next_node v"
  shows "vfs_typed p v' \<and> next_node v' = next_node v"
  using assms(2)
proof (cases rule: insert_cases)
  case (2 dn cs)
  then show ?thesis using vfs_typed_dir[OF assms(1,3) 2(1)] assms(4)
    unfolding 2(3) by (simp add: vfs_typed_upd[OF assms(1)] node_typed_def)
qed (simp add: assms(1))

lemma mkdir_typed:
  assumes "vfs_typed p v" "inode_mkdir d name v = (res, v')" "d < next_node v"
  shows "vfs_typed p v' \<and> next_node v \<le> next_node v'"
  using assms(2)
proof (cases rule: mkdir_cases)
  case (2 res')
  have "vfs_typed p (snd (arc_new_node (RamDir name []) v))" "next_node (snd (arc_new_node (RamDir name []) v)) = Suc (next_node v)"
    by (rule vfs_typed_new[OF assms(1)], simp add: node_typed_def)+
  then show ?thesis using insert_typed[OF _ 2] assms(3) by simp
qed (simp add: assms(1))

section \<open>Descriptors\<close>

lemma set_bt_insert: "set (bt_insert k v m) \<subseteq> insert (k, v) (set m)"
  by (induction k v m rule: bt_insert.induct) auto

lemma typed_table [typed]: "kernel_typed k \<Longrightarrow> table_typed (next_file k) t \<Longrightarrow> kernel_typed (k\<lparr>FD_TABLE := t\<rparr>)"
  by (simp add: kernel_typed_def)

lemma table_typed_insert [typed]: "table_typed n t \<Longrightarrow> f < n \<Longrightarrow> table_typed n (bt_insert key f t)"
  unfolding table_typed_def using set_bt_insert[of key f t] by auto

lemma table_typed_remove [typed]: "table_typed n t \<Longrightarrow> table_typed n (bt_remove key t)"
  unfolding table_typed_def by (simp add: bt_remove_def bt_wf_filter)

lemma typed_file: "kernel_typed k \<Longrightarrow> bt_get (FD_TABLE k) key = Some f \<Longrightarrow> f < next_file k"
  unfolding kernel_typed_def table_typed_def by (fastforce dest: map_of_SomeD)

lemma typed_inode: "kernel_typed k \<Longrightarrow> f < next_file k \<Longrightarrow> of_inode (files k f) < next_node (k_vfs k)"
  by (simp add: kernel_typed_def)

lemma kernel_typed_table: "kernel_typed k \<Longrightarrow> table_typed (next_file k) (FD_TABLE k)"
  by (simp add: kernel_typed_def)

lemma node_drop_typed [typed]:
  assumes "kernel_typed k" "node_typed n (next_pipe k) nd"
  shows "kernel_typed (node_drop nd k)"
proof -
  have "pipe_inv (pipe_read_drop p)" "pipe_inv (fst (pipe_write_drop p))" if "pipe_inv p" for p
    using that by (simp_all add: pipe_inv_def pipe_read_drop_def pipe_write_drop_def)
  then show ?thesis using assms typed_pipe_inv[OF assms(1)] typed_pipe[OF assms(1)]
    by (cases nd) (auto simp: node_drop_def node_typed_def split_beta Let_def)
qed

lemma file_release_typed [typed]: "kernel_typed k \<Longrightarrow> f < next_file k \<Longrightarrow> kernel_typed (file_release f k)"
  unfolding file_release_def
  using typed_node[OF _ typed_inode] by (auto intro!: node_drop_typed)

lemma fd_remove_typed [typed]: "kernel_typed k \<Longrightarrow> kernel_typed (fd_remove key k)"
  unfolding fd_remove_def
  by (auto split: option.splits intro!: file_release_typed typed_table table_typed_remove
      dest: kernel_typed_table typed_file)

lemma fd_insert_typed [typed]: "kernel_typed k \<Longrightarrow> f < next_file k \<Longrightarrow> kernel_typed (fd_insert key f k)"
  unfolding fd_insert_def Let_def
  by (auto split: option.splits intro!: file_release_typed typed_table table_typed_insert
      dest: kernel_typed_table typed_file)

lemma arc_new_file_typed [typed]:
  "kernel_typed k \<Longrightarrow> of_inode f < next_node (k_vfs k) \<Longrightarrow> kernel_typed (snd (arc_new_file f k))"
  unfolding kernel_typed_def table_typed_def by (fastforce simp: arc_new_file_def less_Suc_eq)

lemma add_node_typed [typed]:
  assumes "kernel_typed k" "node_typed (Suc (next_node (k_vfs k))) (next_pipe k) nd"
  shows "kernel_typed (snd (add_node nd k))"
  using vfs_typed_new[OF _ assms(2)] assms(1) typed_vfs[OF assms(1), of "snd (arc_new_node nd (k_vfs k))"]
  by (simp add: add_node_def split_beta Let_def kernel_typed_def)

lemma add_node_frame [simp]:
  "fst (add_node nd k) = next_node (k_vfs k)" "next_node (k_vfs (snd (add_node nd k))) = Suc (next_node (k_vfs k))"
  "next_pipe (snd (add_node nd k)) = next_pipe k" "FD_TABLE (snd (add_node nd k)) = FD_TABLE k"
  by (simp_all add: add_node_def arc_new_node_def)

lemma new_fd_typed:
  assumes "kernel_typed k" "i < next_node (k_vfs k)"
  shows "kernel_typed (fd_insert key (next_file k) (snd (arc_new_file \<lparr>of_inode = i, of_offset = 0\<rparr> k)))"
  by (rule fd_insert_typed[OF arc_new_file_typed]) (use assms in simp_all)

lemma fd_open_typed: "kernel_typed k \<Longrightarrow> kernel_typed (snd (fd_open t path k))"
  using lookup_typed[of "next_pipe k" "k_vfs k" path] new_fd_typed[of "k\<lparr>NEXT_FD := NEXT_FD k + 1\<rparr>"]
  by (auto simp: fd_open_def Let_def split_beta kernel_typed_def[of k] split: option.splits)

lemma insert_inode_typed:
  assumes "kernel_typed k" "i < next_node (k_vfs k)" "insert_inode t i k = Some (fd, k')"
  shows "kernel_typed k'" "next_node (k_vfs k') = next_node (k_vfs k)" "next_pipe k' = next_pipe k"
    "FD_TABLE k' = bt_insert (t, fd) (next_file k) (FD_TABLE k)"
  using assms new_fd_typed[OF assms(1,2)]
  by (auto simp: insert_inode_def Let_def split_beta arc_new_file_def split: option.splits)

lemma fd_dup_typed: "kernel_typed k \<Longrightarrow> fd_dup t fd k = Some (r, k') \<Longrightarrow> kernel_typed k'"
  by (auto simp: fd_dup_def fd_get_def split: option.splits intro!: fd_insert_typed dest: kernel_typed_table typed_file)

lemma fd_dup2_typed: "kernel_typed k \<Longrightarrow> kernel_typed (snd (fd_dup2 t fd fd' k))"
  by (auto simp: fd_dup2_def fd_get_def split: option.splits intro!: fd_insert_typed fd_remove_typed
      dest: kernel_typed_table typed_file)

lemma fd_cleanup_typed: "kernel_typed k \<Longrightarrow> kernel_typed (fd_cleanup t k)"
proof -
  have "kernel_typed k \<Longrightarrow> kernel_typed (fold fd_remove ks k)" for ks by (induction ks arbitrary: k) (auto intro: fd_remove_typed)
  then show "kernel_typed k \<Longrightarrow> kernel_typed (fd_cleanup t k)" by (simp add: fd_cleanup_def)
qed

lemma stdio_fd_typed:
  assumes "kernel_typed k" "\<forall>n p. node_typed n p nd"
  shows "kernel_typed (init_stdio_fd t fd nd k)"
  using new_fd_typed[OF add_node_typed[OF assms(1), of nd], of "next_node (k_vfs k)"] assms(2)
  by (simp add: init_stdio_fd_def split_beta Let_def)

lemma init_stdio_typed: "kernel_typed k \<Longrightarrow> kernel_typed (init_stdio t k)"
  unfolding init_stdio_def by (intro stdio_fd_typed) (simp_all add: node_typed_def)

lemma create_pipe_typed:
  assumes "kernel_typed k" "create_pipe t k = Some (rfd, wfd, k')"
  shows "kernel_typed k'"
proof -
  let ?k1 = "k\<lparr>pipes := (pipes k)(next_pipe k := pipe_new), next_pipe := Suc (next_pipe k)\<rparr>"
  let ?k2 = "snd (add_node (PipeReadEnd (next_pipe k)) ?k1)"
  let ?k3 = "snd (add_node (PipeWriteEnd (next_pipe k)) ?k2)"
  have 1: "kernel_typed ?k1" using assms(1) unfolding kernel_typed_def vfs_typed_def
    by (auto simp: less_Suc_eq intro: node_typed_mono)
  have 2: "kernel_typed ?k2" by (rule add_node_typed[OF 1]) (simp add: node_typed_def)
  have 3: "kernel_typed ?k3" by (rule add_node_typed[OF 2]) (simp add: node_typed_def)
  obtain k4 where i: "insert_inode t (next_node (k_vfs k)) ?k3 = Some (rfd, k4)" "insert_inode t (Suc (next_node (k_vfs k))) k4 = Some (wfd, k')"
    using assms(2) by (auto simp: create_pipe_def Let_def split_beta split: option.splits)
  have 4: "kernel_typed k4" "next_node (k_vfs k4) = Suc (Suc (next_node (k_vfs k)))"
    using insert_inode_typed[OF 3 _ i(1)] by simp_all
  show ?thesis by (rule insert_inode_typed(1)[OF 4(1) _ i(2)]) (simp add: 4(2))
qed

section \<open>Reading and writing\<close>

lemma rb_pop_inv: "rb_inv rb \<Longrightarrow> rb_inv (snd (pop_key rb))"
  by (simp add: pop_key_def rb_pop_def rb_inv_def)

lemma inode_read_typed:
  assumes "kernel_typed k" "r < next_node (k_vfs k)"
  shows "inode_read r off len k = RdDone bs k' \<Longrightarrow> kernel_typed k'" "inode_read r off len k = RdBlock k' \<Longrightarrow> kernel_typed k'"
    "inode_read r off len k \<noteq> RdPanic"
proof -
  have P: "pipe_inv (pipes k p)" if "nodes (k_vfs k) r = PipeReadEnd p" for p
    using typed_node[OF assms] that typed_pipe_inv[OF assms(1)] by (simp add: node_typed_def)
  have W: "kernel_typed (k\<lparr>pipes := (pipes k)(p := p'), k_sched := s\<rparr>)" if "pipe_inv p'" for p p' s
    using typed_pipe[OF assms(1) that, of p] by simp
  have R: "kernel_typed (k\<lparr>INPUT_BUF := rb\<rparr>)" if "pop_key (INPUT_BUF k) = (x, rb)" for x rb
    using rb_pop_inv[of "INPUT_BUF k"] that assms(1) by (auto simp: kernel_typed_def)
  show "inode_read r off len k = RdDone bs k' \<Longrightarrow> kernel_typed k'" "inode_read r off len k = RdBlock k' \<Longrightarrow> kernel_typed k'"
    using assms(1) by (auto simp: inode_read_def split: node.splits option.splits prod.splits if_splits intro: R W pipe_inv_read(1)[OF P])
  show "inode_read r off len k \<noteq> RdPanic"
    by (auto simp: inode_read_def ramfile_read_def slice_def Let_def split: node.splits option.splits prod.splits if_splits)
qed

lemma pipe_write_inv: "pipe_inv p \<Longrightarrow> pipe_write bs p = (n, p', ws) \<Longrightarrow> pipe_inv p'"
  using pipe_write_spec(1)[of p bs] by (cases "p_read_closed p") (auto simp: pipe_write_def)

lemma tty_print_typed:
  assumes "pred_option tty_typed tty"
  shows "tty_print s tty = Some tty' \<Longrightarrow> pred_option tty_typed tty'"
    "tty_print s tty = None \<Longrightarrow> tty \<noteq> None \<and> (\<exists>c \<in> set (utf8_chars s). \<not> supported c)"
proof -
  have "case write_str s t of None \<Rightarrow> \<exists>c \<in> set (utf8_chars s). \<not> supported c | Some t' \<Rightarrow> tty_typed t'" if ty: "tty_typed t" for t
  proof -
    obtain tm where "tty_refines t tm" using ty unfolding tty_typed_def by blast
    from write_chars_refines[OF this, of "utf8_chars s"] show ?thesis
      unfolding write_str_def by (cases "for_each write_char (utf8_chars s) t") (auto intro: tty_typedI)
  qed
  then show "tty_print s tty = Some tty' \<Longrightarrow> pred_option tty_typed tty'"
    "tty_print s tty = None \<Longrightarrow> tty \<noteq> None \<and> (\<exists>c \<in> set (utf8_chars s). \<not> supported c)"
    using assms by (cases tty; fastforce simp: tty_print_def split: option.splits)+
qed

lemma inode_write_typed:
  assumes "kernel_typed k" "r < next_node (k_vfs k)" "inode_write r off bs k = WrDone n k'"
  shows "kernel_typed k'"
proof -
  have P: "pipe_inv (pipes k p)" if "nodes (k_vfs k) r = PipeWriteEnd p" for p
    using typed_node[OF assms(1,2)] that typed_pipe_inv[OF assms(1)] by (simp add: node_typed_def)
  have W: "kernel_typed (k\<lparr>pipes := (pipes k)(p := p'), k_sched := s\<rparr>)" if "pipe_inv p'" for p p' s
    using typed_pipe[OF assms(1) that, of p] by simp
  have F: "kernel_typed (k\<lparr>k_vfs := (k_vfs k)\<lparr>nodes := (nodes (k_vfs k))(r := RamFile nm d)\<rparr>\<rparr>)" for nm d
    using assms(1) by (intro typed_vfs vfs_typed_upd) (simp_all add: kernel_typed_def node_typed_def)
  have T: "kernel_typed (k\<lparr>serial_out := a, KERNEL_TTY := tty\<rparr>)" if "tty_print bs (KERNEL_TTY k) = Some tty" for a tty
    using tty_print_typed(1)[OF _ that] assms(1) by (simp add: kernel_typed_def)
  show ?thesis using assms
    by (auto simp: inode_write_def split: node.splits option.splits prod.splits if_splits intro!: F W T intro: pipe_write_inv[OF P])
qed

lemma ramfile_write_panic:
  assumes "ramfile_write data off bs = None" "length bs < 2 ^ 64"
  shows "2 ^ 63 \<le> unat off + length bs"
proof (rule ccontr)
  assume "\<not> ?thesis"
  then have small: "unat off + length bs < 2 ^ 63" by simp
  then have "unat (of_nat (unat off + length bs) :: u64) = unat off + length bs" by (intro unat_of_nat_less) simp
  then have "unat (off + of_nat (length bs)) = unat off + length bs" by simp
  then show False using assms(1) small by (auto simp: ramfile_write_def vec_resize_def copy_slice_def Let_def split: if_splits)
qed

text \<open>The writes that panic: a RAM file that would end beyond the largest allocation, and a character without a
  glyph on the terminal.\<close>

definition write_panics :: "kernel \<Rightarrow> file_ref \<Rightarrow> bytes \<Rightarrow> bool" where
  "write_panics k f buf =
     (case nodes (k_vfs k) (of_inode (files k f)) of
        RamFile _ _ \<Rightarrow> 2 ^ 63 \<le> unat (of_offset (files k f)) + length buf
      | StdoutINode \<Rightarrow> KERNEL_TTY k \<noteq> None \<and> (\<exists>c \<in> set (utf8_chars buf). \<not> supported c)
      | _ \<Rightarrow> False)"

lemma inode_write_panic:
  assumes "kernel_typed k" "inode_write (of_inode (files k f)) (of_offset (files k f)) bs k = WrPanic" "length bs < 2 ^ 64"
  shows "write_panics k f bs"
proof -
  have "pred_option tty_typed (KERNEL_TTY k)" using assms(1) by (simp add: kernel_typed_def)
  note T = tty_print_typed(2)[OF this, of bs]
  show ?thesis using assms(2) ramfile_write_panic[OF _ assms(3)] T
    by (auto simp: inode_write_def write_panics_def split: node.splits option.splits prod.splits if_splits)
qed

section \<open>Messages\<close>

lemma typed_get_port: "kernel_typed k \<Longrightarrow> get_port i (k_ipc k) = Some r \<Longrightarrow> port_typed (ipc_heap (k_ipc k) r)"
  unfolding kernel_typed_def ipc_typed_def get_port_def by (fastforce dest: map_of_SomeD)

lemma port_send_typed:
  assumes "port_typed p" "message_typed m" "port_send m p = (ok, p', ws)"
  shows "port_typed p'"
  using assms by (auto simp: port_send_def port_typed_def port_inv_def Let_def split: if_splits list.splits)

lemma port_receive_typed:
  assumes "port_typed p"
  shows "port_typed (snd (port_receive p))" "port_typed (fst (snd (port_receive_blocking p s)))"
  using assms by (auto simp: port_receive_def port_receive_blocking_def port_typed_def port_inv_def split: list.splits option.splits)

lemma create_port_typed: "kernel_typed k \<Longrightarrow> kernel_typed (k\<lparr>k_ipc := snd (create_port i (k_ipc k))\<rparr>)"
  using set_bt_insert[of i "ipc_next (k_ipc k)" "ipc_ports (k_ipc k)"]
  by (fastforce simp: kernel_typed_def ipc_typed_def create_port_def Port_new_def port_typed_def port_inv_def less_Suc_eq)

section \<open>System calls\<close>

lemma sys_io_typed:
  assumes "kernel_typed k"
  shows "sys_kernel (sys_read fd p n k) = Some k' \<Longrightarrow> kernel_typed k'" "sys_kernel (sys_write fd p n k) = Some k' \<Longrightarrow> kernel_typed k'"
  using assms inode_read_typed[OF assms typed_fd_get[OF assms]] inode_write_typed[OF assms typed_fd_get[OF assms]]
  by (auto simp: sys_read_def sys_write_def Let_def split: if_splits option.splits io_read.splits io_write.splits intro!: typed_offset)

lemma sys_exit_typed: "kernel_typed k \<Longrightarrow> sys_kernel (sys_exit st k) = Some k' \<Longrightarrow> kernel_typed k'"
  by (auto simp: sys_exit_def Let_def split: prod.splits option.splits intro!: fd_cleanup_typed)

lemma sys_task_typed:
  assumes "kernel_typed k"
  shows "sys_kernel (sys_wait pid p opts k) = Some k' \<Longrightarrow> kernel_typed k'" "sys_kernel (sys_getpid k) = Some k' \<Longrightarrow> kernel_typed k'"
    "sys_kernel (sys_getppid k) = Some k' \<Longrightarrow> kernel_typed k'" "sys_kernel (sys_yield k) = Some k' \<Longrightarrow> kernel_typed k'"
  using assms by (auto simp: sys_wait_def sys_getpid_def sys_getppid_def sys_yield_def Let_def split: wait_result.splits if_splits)

lemma sys_fd_typed:
  assumes "kernel_typed k"
  shows "sys_kernel (sys_open p n k) = Some k' \<Longrightarrow> kernel_typed k'" "sys_kernel (sys_close fd k) = Some k' \<Longrightarrow> kernel_typed k'"
    "sys_kernel (sys_seek fd off k) = Some k' \<Longrightarrow> kernel_typed k'" "sys_kernel (sys_dup fd k) = Some k' \<Longrightarrow> kernel_typed k'"
    "sys_kernel (sys_dup2 fd fd' k) = Some k' \<Longrightarrow> kernel_typed k'" "sys_kernel (sys_pipe p k) = Some k' \<Longrightarrow> kernel_typed k'"
    "sys_kernel (sys_getdents fd p n k) = Some k' \<Longrightarrow> kernel_typed k'"
  using assms fd_open_typed[OF assms] fd_dup2_typed[OF assms]
  by (auto simp: sys_open_def sys_close_def sys_seek_def sys_dup_def sys_dup2_def sys_pipe_def sys_getdents_def fd_close_def fd_seek_def Let_def
      split: sum.splits prod.splits option.splits bool.splits if_splits
      intro: typed_offset fd_remove_typed fd_dup_typed create_pipe_typed) (metis snd_conv)+

lemma sys_path_typed:
  assumes "kernel_typed k"
  shows "sys_kernel (sys_mkdir p n k) = Some k' \<Longrightarrow> kernel_typed k'" "sys_kernel (sys_unlink p n k) = Some k' \<Longrightarrow> kernel_typed k'"
proof -
  have v: "vfs_typed (next_pipe k) (k_vfs k)" using assms by (simp add: kernel_typed_def)
  have m: "kernel_typed (k\<lparr>k_vfs := v\<rparr>)" if "lookup_path (k_vfs k) path = Some d" "inode_mkdir d name (k_vfs k) = (r, v)" for path d name r v
    using mkdir_typed[OF v that(2) lookup_typed[OF v that(1)]] by (intro typed_vfs[OF assms]) auto
  have u: "kernel_typed (k\<lparr>k_vfs := v\<rparr>)" if "lookup_path (k_vfs k) path = Some d" "inode_unlink d name (k_vfs k) = (r, v)" for path d name r v
    using unlink_typed[OF v that(2) lookup_typed[OF v that(1)]] by (intro typed_vfs[OF assms]) auto
  show "sys_kernel (sys_mkdir p n k) = Some k' \<Longrightarrow> kernel_typed k'" "sys_kernel (sys_unlink p n k) = Some k' \<Longrightarrow> kernel_typed k'"
    using assms by (auto simp: sys_mkdir_def sys_unlink_def split: sum.splits prod.splits option.splits intro: m u)
qed

lemma sent_message_typed:
  assumes "unat len \<le> MAX_MSG_SIZE"
  shows "message_typed \<lparr>m_sender_id = s, m_id = t, m_len = len, m_data = overlay (replicate MAX_MSG_SIZE 0) 0 (mem_read um p (unat len))\<rparr>"
  using assms by (simp add: message_typed_def length_mem_read)

lemma sys_ipc_typed:
  assumes "kernel_typed k"
  shows "sys_kernel (sys_send pid ty p len k) = Some k' \<Longrightarrow> kernel_typed k'" "sys_kernel (sys_recv pid p k) = Some k' \<Longrightarrow> kernel_typed k'"
    "sys_kernel (sys_recv_block pid p k) = Some k' \<Longrightarrow> kernel_typed k'"
proof -
  note G = typed_get_port[OF assms]
  have A: "kernel_typed (set_port r p' k)" if "get_port pid (k_ipc k) = Some r" "port_receive (ipc_heap (k_ipc k) r) = (x, p')" for r x p'
    using port_receive_typed(1)[OF G[OF that(1)]] that(2) by (intro typed_port assms) simp
  have B: "kernel_typed (set_port r p' (k\<lparr>k_sched := s'\<rparr>))"
    if "get_port pid (k_ipc k) = Some r" "port_receive_blocking (ipc_heap (k_ipc k) r) (k_sched k) = (x, p', s')" for r x p' s'
    using port_receive_typed(2)[OF G[OF that(1)], of "k_sched k"] that(2) assms by (intro typed_port) simp_all
  show "sys_kernel (sys_send pid ty p len k) = Some k' \<Longrightarrow> kernel_typed k'"
    using assms by (auto simp: sys_send_def Let_def not_less split: if_splits option.splits prod.splits
        intro!: typed_port dest: port_send_typed[OF G sent_message_typed])
  show "sys_kernel (sys_recv pid p k) = Some k' \<Longrightarrow> kernel_typed k'"
    using assms by (auto simp: sys_recv_def deliver_def split: option.splits prod.splits if_splits intro: A)
  show "sys_kernel (sys_recv_block pid p k) = Some k' \<Longrightarrow> kernel_typed k'"
    using assms by (auto simp: sys_recv_block_def deliver_def split: option.splits prod.splits if_splits intro: B)
qed

lemmas sys_typed = sys_io_typed sys_exit_typed sys_task_typed sys_fd_typed sys_path_typed sys_ipc_typed

lemma dispatcher_typed:
  assumes "kernel_typed k" "nr \<noteq> 4" "sys_kernel (syscall_dispatcher spawn nr a1 a2 a3 a4 k) = Some k'"
  shows "kernel_typed k'"
  using assms by (auto simp: syscall_dispatcher_def split: if_splits intro: sys_typed[OF assms(1)])

section \<open>Process creation\<close>

lemma inode_read_next: "inode_read r off n k = RdDone bs k' \<Longrightarrow> next_node (k_vfs k') = next_node (k_vfs k)"
  by (auto simp: inode_read_def split: node.splits option.splits prod.splits if_splits)

lemma read_all_typed:
  assumes "read_all r sz off data k = Some y" "kernel_typed k" "r < next_node (k_vfs k)"
  shows "kernel_typed (snd y)"
proof -
  let ?P = "\<lambda>r k y. kernel_typed k \<longrightarrow> r < next_node (k_vfs k) \<longrightarrow> kernel_typed (snd y :: kernel)"
  have "?P r k y"
  proof (rule read_all.raw_induct[OF _ assms(1), where P = "\<lambda>r sz off data k y. ?P r k y"])
    fix self r sz off data k and y :: "bytes \<times> kernel"
    assume IH: "\<And>r sz off data k y. self r sz off data k = Some y \<Longrightarrow> ?P r k y"
      and run: "(if off < sz then
          (case inode_read r (of_nat off) (sz - off) k of
             RdDone bs k \<Rightarrow> if bs = [] then Some (data, k) else self r sz (off + length bs) (overlay data off bs) k
           | _ \<Rightarrow> None)
        else Some (data, k)) = Some y"
    show "?P r k y"
    proof (intro impI)
      assume t: "kernel_typed k" "r < next_node (k_vfs k)"
      show "kernel_typed (snd y)"
      proof (cases "inode_read r (of_nat off) (sz - off) k")
        case (RdDone bs k1)
        have "kernel_typed k1" "r < next_node (k_vfs k1)" using inode_read_typed(1)[OF t RdDone] inode_read_next[OF RdDone] t(2) by simp_all
        then show ?thesis using run RdDone IH[of r sz _ _ k1 y] t by (auto split: if_splits)
      qed (use run t in \<open>auto split: if_splits\<close>)
    qed
  qed
  then show ?thesis using assms(2,3) by blast
qed

lemma start_task_typed: "kernel_typed k \<Longrightarrow> kernel_typed (snd (start_task tr parent entry sp k))"
  using init_stdio_typed[of "k\<lparr>k_sched := snd (task_id_new (k_sched k))\<rparr>"]
  by (cases sp) (simp add: start_task_def Let_def split_beta)

lemma spawn_cases:
  assumes "spawn_user_process kmap_to map_to cm tr act path parent (k, mc) = Some (res, k', mc')"
  obtains "k' = k" | r sz y where "lookup_path (k_vfs k) path = Some r" "read_all r sz 0 (replicate sz 0) k = Some y" "k' = snd y"
  | r sz y entry sp where "lookup_path (k_vfs k) path = Some r" "read_all r sz 0 (replicate sz 0) k = Some y" "k' = snd (start_task tr parent entry sp (snd y))"
proof (cases "lookup_path (k_vfs k) path")
  case (Some r)
  consider "inode_len k r = 0" | y where "read_all r (inode_len k r) 0 (replicate (inode_len k r) 0) k = Some y" "inode_len k r \<noteq> 0"
    using assms Some by (cases "read_all r (inode_len k r) 0 (replicate (inode_len k r) 0) k") (auto simp: spawn_user_process_def Let_def split: if_splits)
  then show thesis
  proof cases
    case (2 y)
    then have "k' = snd y \<or> (\<exists>entry sp. k' = snd (start_task tr parent entry sp (snd y)))"
      using assms Some by (cases y) (auto simp: spawn_user_process_def Let_def split: Option.bind_splits sum.splits prod.splits, metis snd_conv)
    then show ?thesis using that(2,3) Some 2(1) by blast
  qed (use assms Some that(1) in \<open>simp add: spawn_user_process_def\<close>)
qed (use assms that(1) in \<open>simp add: spawn_user_process_def\<close>)

lemma spawn_typed:
  assumes "kernel_typed k" "spawn_user_process kmap_to map_to cm tr act path parent (k, mc) = Some (res, k', mc')"
  shows "kernel_typed k'"
proof -
  have l: "r < next_node (k_vfs k)" if "lookup_path (k_vfs k) path = Some r" for r
    using assms(1) that by (auto simp: kernel_typed_def intro: lookup_typed)
  show ?thesis using assms(2)
    by (cases rule: spawn_cases) (use assms(1) l in \<open>auto intro: read_all_typed start_task_typed\<close>)
qed

section \<open>Progress\<close>

lemma sys_exit_progress: "sys_exit st k \<noteq> SysPanic" "sys_exit st k \<noteq> SysDiverges"
  by (simp_all add: sys_exit_def Let_def split: prod.splits option.splits)

lemma sys_task_progress:
  "sys_wait pid p opts k \<noteq> SysPanic" "sys_wait pid p opts k \<noteq> SysDiverges"
  "sys_getpid k \<noteq> SysPanic" "sys_getppid k \<noteq> SysPanic" "sys_yield k \<noteq> SysPanic"
  "sys_getpid k \<noteq> SysDiverges" "sys_getppid k \<noteq> SysDiverges" "sys_yield k \<noteq> SysDiverges"
  by (simp_all add: sys_wait_def sys_getpid_def sys_getppid_def sys_yield_def Let_def split: wait_result.splits)

lemma sys_table_progress:
  "sys_open p n k \<noteq> SysPanic" "sys_open p n k \<noteq> SysDiverges" "sys_close fd k \<noteq> SysPanic" "sys_close fd k \<noteq> SysDiverges"
  "sys_seek fd off k \<noteq> SysPanic" "sys_seek fd off k \<noteq> SysDiverges" "sys_dup fd k \<noteq> SysPanic"
  "sys_dup2 fd fd' k \<noteq> SysPanic" "sys_dup2 fd fd' k \<noteq> SysDiverges" "sys_pipe p k \<noteq> SysPanic"
  "sys_getdents fd p n k \<noteq> SysPanic" "sys_getdents fd p n k \<noteq> SysDiverges"
  by (simp_all add: sys_open_def sys_close_def sys_seek_def sys_dup_def sys_dup2_def sys_pipe_def sys_getdents_def Let_def
      split: prod.splits option.splits sum.splits bool.splits)

lemma sys_path_progress:
  "sys_mkdir p n k \<noteq> SysPanic" "sys_mkdir p n k \<noteq> SysDiverges" "sys_unlink p n k \<noteq> SysPanic" "sys_unlink p n k \<noteq> SysDiverges"
  by (simp_all add: sys_mkdir_def sys_unlink_def split: prod.splits option.splits sum.splits)

lemma sys_ipc_progress:
  "sys_send pid ty p n k \<noteq> SysPanic" "sys_send pid ty p n k \<noteq> SysDiverges" "sys_recv pid p k \<noteq> SysPanic" "sys_recv pid p k \<noteq> SysDiverges"
  "sys_recv_block pid p k \<noteq> SysPanic" "sys_recv_block pid p k \<noteq> SysDiverges"
  by (simp_all add: sys_send_def sys_recv_def sys_recv_block_def deliver_def Let_def split: prod.splits option.splits)

lemma sys_io_progress: "sys_read fd p n k \<noteq> SysDiverges" "sys_write fd p n k \<noteq> SysDiverges"
  by (simp_all add: sys_read_def sys_write_def Let_def split: option.splits io_read.splits io_write.splits)

lemmas sys_progress = sys_exit_progress sys_task_progress sys_table_progress sys_path_progress sys_ipc_progress sys_io_progress

lemma sys_read_progress: "kernel_typed k \<Longrightarrow> sys_read fd p n k \<noteq> SysPanic"
  using inode_read_typed(3)[OF _ typed_fd_get]
  by (auto simp: sys_read_def Let_def split: if_splits option.splits io_read.splits)

lemma sys_write_progress:
  "kernel_typed k \<Longrightarrow> sys_write fd p n k = SysPanic \<Longrightarrow>
     \<exists>f. fd_get (cur_id k) fd k = Some f \<and> write_panics k f (mem_read (umem k) p (unat n))"
  using unat_u64_less[of n]
  by (auto simp: sys_write_def Let_def length_mem_read split: if_splits option.splits io_write.splits dest!: inode_write_panic)

lemma length_bt_insert: "length (bt_insert k v m) \<le> Suc (length m)"
  by (induction k v m rule: bt_insert.induct) auto

lemma sys_fd_progress:
  assumes "length (FD_TABLE k) < 2 ^ 64 - 4"
  shows "sys_dup fd k \<noteq> SysDiverges" "sys_pipe p k \<noteq> SysDiverges"
proof -
  have n: "next_fd t tb \<noteq> None" if "length tb < 2 ^ 64 - 3" for t tb using next_fd_spec[OF that] by force
  show "sys_dup fd k \<noteq> SysDiverges"
    using assms n[of "FD_TABLE k" "cur_id k"] by (auto simp: sys_dup_def fd_dup_def split: option.splits)
  have "create_pipe t k \<noteq> None" if "t = cur_id k" for t
    using n[of "FD_TABLE k" t] n[of "bt_insert (t, the (next_fd t (FD_TABLE k))) (next_file k) (FD_TABLE k)" t] assms
      length_bt_insert[of "(t, the (next_fd t (FD_TABLE k)))" "next_file k" "FD_TABLE k"]
    by (auto simp: create_pipe_def insert_inode_def Let_def split_beta add_node_def arc_new_node_def arc_new_file_def split: option.splits)
  from this[OF refl] show "sys_pipe p k \<noteq> SysDiverges" by (auto simp: sys_pipe_def split: option.splits)
qed

section \<open>Type soundness\<close>

text \<open>What changes the kernel state while it runs: system calls (process creation is spelled out, over the memory of
  the machine), key presses, and the creation of ports.\<close>

inductive kernel_step ::
    "'m map_to \<Rightarrow> 'u map_to \<Rightarrow> (u64 list \<Rightarrow> 'u) \<Rightarrow> u64 \<Rightarrow> u64 \<Rightarrow> kernel \<times> ('m, 'u) machine \<Rightarrow> kernel \<times> ('m, 'u) machine \<Rightarrow> bool"
  for kmap_to map_to create_mapper trampoline active where
  call: "nr \<noteq> 4 \<Longrightarrow> sys_kernel (syscall_dispatcher spawn nr a1 a2 a3 a4 k) = Some k' \<Longrightarrow>
     kernel_step kmap_to map_to create_mapper trampoline active (k, mc) (k', mc)"
| spawn: "spawn_user_process kmap_to map_to create_mapper trampoline active path parent_id (k, mc) = Some (res, k', mc') \<Longrightarrow>
     kernel_step kmap_to map_to create_mapper trampoline active (k, mc) (k', mc')"
| key: "kernel_step kmap_to map_to create_mapper trampoline active (k, mc) (k\<lparr>INPUT_BUF := handle_scancode sc (INPUT_BUF k)\<rparr>, mc)"
| port: "kernel_step kmap_to map_to create_mapper trampoline active (k, mc) (k\<lparr>k_ipc := snd (create_port i (k_ipc k))\<rparr>, mc)"
| sched: "kernel_step kmap_to map_to create_mapper trampoline active (k, mc) (k\<lparr>k_sched := task_schedule (k_sched k)\<rparr>, mc)"

lemma handle_scancode_inv: "rb_inv rb \<Longrightarrow> rb_inv (handle_scancode sc rb)"
  by (auto simp: handle_scancode_def rb_push_def rb_inv_def Let_def)

lemma kernel_step_typed:
  assumes "kernel_step kmap_to map_to cm tr act st st'" "kernel_typed (fst st)"
  shows "kernel_typed (fst st')"
  using assms
proof (induction rule: kernel_step.induct)
  case (key k mc sc)
  then show ?case using handle_scancode_inv by (simp add: kernel_typed_def)
qed (auto intro: dispatcher_typed spawn_typed create_port_typed)

lemma kernel_steps_typed:
  "(kernel_step kmap_to map_to cm tr act)\<^sup>*\<^sup>* st st' \<Longrightarrow> kernel_typed (fst st) \<Longrightarrow> kernel_typed (fst st')"
  by (induction rule: rtranclp_induct) (auto intro: kernel_step_typed)

lemma dispatcher_panic:
  assumes "kernel_typed k" "nr \<noteq> 4" "syscall_dispatcher spawn nr a1 a2 a3 a4 k = SysPanic"
  shows "nr = 13 \<and> (\<exists>f. fd_get (cur_id k) a1 k = Some f \<and> write_panics k f (mem_read (umem k) a2 (unat a3)))"
  using assms sys_read_progress[OF assms(1)] sys_write_progress[OF assms(1)]
  by (auto simp: syscall_dispatcher_def sys_progress split: if_splits)

lemma dispatcher_diverges:
  assumes "nr \<noteq> 4" "syscall_dispatcher spawn nr a1 a2 a3 a4 k = SysDiverges"
  shows "2 ^ 64 - 4 \<le> length (FD_TABLE k)"
proof (rule ccontr)
  assume "\<not> ?thesis"
  then have "sys_dup fd k \<noteq> SysDiverges" "sys_pipe p k \<noteq> SysDiverges" for fd p using sys_fd_progress[of k] by simp_all
  then show False using assms by (auto simp: syscall_dispatcher_def sys_progress split: if_splits)
qed

section \<open>Properties\<close>


lemma demo_kernel_typed: "kernel_typed demo_kernel"
proof -
  have "kernel_typed \<lparr>k_vfs = set_root 0 \<lparr>nodes = (\<lambda>_. RamDir [] [])(1 := RamFile [0x66] [10, 20, 30], 0 := RamDir [] [([0x66], 1)]),
               next_node = 2, MOUNT_TABLE = []\<rparr>,
      FD_TABLE = [], files = (\<lambda>_. \<lparr>of_inode = 0, of_offset = 0\<rparr>), next_file = 0, NEXT_FD = 3,
      pipes = (\<lambda>_. pipe_new), next_pipe = 0, k_ipc = IpcSpace_new, k_sched = s, INPUT_BUF = rb_new, serial_out = [], KERNEL_TTY = None,
      EXECUTOR = e, umem = um\<rparr>" for s e um
    by (auto simp: kernel_typed_def vfs_typed_def set_root_def mount_def sort_mounts_def table_typed_def ipc_typed_def IpcSpace_new_def
        node_typed_def less_Suc_eq)
  then show ?thesis unfolding demo_kernel_def by (intro init_stdio_typed) simp
qed


end
