(* ===== verification/Capability.thy ===== *)
theory Capability
  imports BTree_Map "HOL-Library.List_Lexorder"
begin

unbundle bit_operations_syntax

text \<open>
  capability/src/types.rs and capability/src/store.rs: capability handles, their generator, and the store
  of capabilities by key. The time stamp counter that seeds the generator is an argument. Keys are
  lists of bytes in their lexicographic order, the order of Rust's arrays.
\<close>

section \<open>Handles\<close>

record CapabilityHandle =
  cap_key :: bytes

datatype CapabilityType = CapTask | MemoryRegion | IODevice | FileDescriptor

record Capability =
  cap_type :: CapabilityType
  cap_handle :: CapabilityHandle

definition CapabilityHandle_new :: "bytes \<Rightarrow> CapabilityHandle" where
  "CapabilityHandle_new key = \<lparr>cap_key = key\<rparr>"

text \<open>One step of the generator: the state is also the number returned.\<close>

definition xorshift :: "u64 \<Rightarrow> u64" where
  "xorshift s =
     (let s = s XOR push_bit 13 s;
          s = s XOR drop_bit 17 s
      in s XOR push_bit 5 s)"

definition handle_generate :: "u64 \<Rightarrow> CapabilityHandle" where
  "handle_generate rdtsc =
     (let seed0 = xorshift rdtsc;
          seed1 = xorshift seed0
      in \<lparr>cap_key = to_le 8 seed0 @ to_le 8 seed1\<rparr>)"

section \<open>The store\<close>

type_synonym CapabilityStore = "(bytes, Capability) btree"

definition store_new :: CapabilityStore where
  "store_new = []"

definition add_capability :: "Capability \<Rightarrow> CapabilityStore \<Rightarrow> bool \<times> CapabilityStore" where
  "add_capability cap caps =
     (if bt_contains caps (cap_key (cap_handle cap)) then (False, caps)
      else (True, bt_insert (cap_key (cap_handle cap)) cap caps))"

definition get_capability :: "bytes \<Rightarrow> CapabilityStore \<Rightarrow> Capability option" where
  "get_capability key caps = bt_get caps key"

definition remove_capability :: "bytes \<Rightarrow> CapabilityStore \<Rightarrow> bool \<times> CapabilityStore" where
  "remove_capability key caps = (bt_contains caps key, bt_remove key caps)"

section \<open>The generator is injective\<close>

text \<open>Adding a shifted copy of a word to it can be undone, from the low bits up or from the high bits down.\<close>

lemma xor_push_inj:
  fixes x y :: "'a::len word"
  assumes "0 < n" "x XOR push_bit n x = y XOR push_bit n y"
  shows "x = y"
proof (rule bit_word_eqI)
  fix i assume "i < LENGTH('a)"
  then show "bit x i = bit y i"
  proof (induction i rule: less_induct)
    case (less i)
    have "bit (x XOR push_bit n x) i = bit (y XOR push_bit n y) i" using assms(2) by simp
    then show ?case using less assms(1) by (cases "n \<le> i") (auto simp: bit_xor_iff bit_push_bit_iff)
  qed
qed

lemma xor_drop_inj:
  fixes x y :: "'a::len word"
  assumes "0 < n" "x XOR drop_bit n x = y XOR drop_bit n y"
  shows "x = y"
proof (rule bit_word_eqI)
  fix i assume "i < LENGTH('a)"
  then show "bit x i = bit y i"
  proof (induction "LENGTH('a) - i" arbitrary: i rule: less_induct)
    case less
    have "bit (x XOR drop_bit n x) i = bit (y XOR drop_bit n y) i" using assms(2) by simp
    moreover have "bit x (n + i) = bit y (n + i)"
      using less assms(1) by (cases "n + i < LENGTH('a)") (auto simp: bit_word.rep_eq)
    ultimately show ?case by (auto simp: bit_xor_iff bit_drop_bit_eq)
  qed
qed

lemma xorshift_inj: "inj xorshift"
proof (rule injI)
  fix x y assume "xorshift x = xorshift y"
  then have "(x XOR push_bit 13 x) XOR drop_bit 17 (x XOR push_bit 13 x) = (y XOR push_bit 13 y) XOR drop_bit 17 (y XOR push_bit 13 y)"
    unfolding xorshift_def Let_def by (rule xor_push_inj[rotated]) simp
  then have "x XOR push_bit 13 x = y XOR push_bit 13 y" by (rule xor_drop_inj[rotated]) simp
  then show "x = y" by (rule xor_push_inj[rotated]) simp
qed

lemma to_le_inj: "to_le 8 (x :: u64) = to_le 8 y \<Longrightarrow> x = y"
  by (drule arg_cong[of _ _ "of_le :: bytes \<Rightarrow> u64"]) simp

text \<open>Handles generated at different times differ, so the first half of a key alone decides the key: it holds 64 and
  not 128 bits of the seed.\<close>

lemma handle_generate_inj: "inj handle_generate"
  by (rule injI) (auto simp: handle_generate_def Let_def dest!: to_le_inj xorshift_inj[THEN injD])

lemma handle_first_half:
  "take 8 (cap_key (handle_generate t)) = take 8 (cap_key (handle_generate u)) \<Longrightarrow> handle_generate t = handle_generate u"
  by (auto simp: handle_generate_def Let_def dest!: to_le_inj)

lemma length_handle [simp]: "length (cap_key (handle_generate t)) = 16"
  by (simp add: handle_generate_def Let_def)

section \<open>The store is a map that never overwrites\<close>

lemma add_capability_spec:
  assumes "bt_wf caps" "add_capability cap caps = (ok, caps')"
  shows "bt_wf caps'" "ok \<longleftrightarrow> get_capability (cap_key (cap_handle cap)) caps = None"
    "get_capability key caps' = (if ok \<and> key = cap_key (cap_handle cap) then Some cap else get_capability key caps)"
  using assms by (auto simp: add_capability_def get_capability_def bt_contains_def split: if_splits)

lemma remove_capability_spec:
  assumes "bt_wf caps" "remove_capability key caps = (ok, caps')"
  shows "bt_wf caps'" "ok \<longleftrightarrow> get_capability key caps \<noteq> None"
    "get_capability key' caps' = (if key' = key then None else get_capability key' caps)"
  using assms by (auto simp: remove_capability_def get_capability_def bt_contains_def)

text \<open>Issuing capabilities at a list of times: each gets a fresh handle and is added to the store.\<close>

fun issue :: "(u64 \<times> CapabilityType) list \<Rightarrow> CapabilityStore \<Rightarrow> bool list \<times> CapabilityStore" where
  "issue [] caps = ([], caps)"
| "issue ((t, ty) # ts) caps =
     (let (ok, caps) = add_capability \<lparr>cap_type = ty, cap_handle = handle_generate t\<rparr> caps;
          (oks, caps) = issue ts caps
      in (ok # oks, caps))"

text \<open>From an empty store with pairwise different times every capability is issued, and a key opens exactly
  the capability issued under it.\<close>

lemma issue_spec:
  assumes "distinct (map fst ts)" "bt_wf caps" "\<forall>e \<in> set ts. get_capability (cap_key (handle_generate (fst e))) caps = None"
    "issue ts caps = (oks, caps')"
  shows "bt_wf caps' \<and> oks = replicate (length ts) True \<and>
    (\<forall>key. get_capability key caps' = (case map_of (map (\<lambda>(t, ty). (cap_key (handle_generate t), ty)) ts) key of
       Some ty \<Rightarrow> Some \<lparr>cap_type = ty, cap_handle = \<lparr>cap_key = key\<rparr>\<rparr> | None \<Rightarrow> get_capability key caps))"
  using assms
proof (induction ts arbitrary: caps oks)
  case (Cons e ts)
  obtain t ty where e: "e = (t, ty)" by (cases e)
  let ?c = "\<lparr>cap_type = ty, cap_handle = handle_generate t\<rparr>"
  obtain caps1 where a: "add_capability ?c caps = (True, caps1)" "bt_wf caps1"
    using add_capability_spec[OF Cons.prems(2), of ?c] Cons.prems(3) e by (cases "add_capability ?c caps") auto
  have g: "get_capability key caps1 = (if key = cap_key (handle_generate t) then Some ?c else get_capability key caps)" for key
    using add_capability_spec(3)[OF Cons.prems(2) a(1)] by simp
  have ne: "cap_key (handle_generate (fst u)) \<noteq> cap_key (handle_generate t)" if "u \<in> set ts" for u
  proof
    assume "cap_key (handle_generate (fst u)) = cap_key (handle_generate t)"
    then have "fst u = t" by (intro injD[OF handle_generate_inj]) simp
    then show False using that Cons.prems(1) e by auto
  qed
  obtain oks1 where i: "issue ts caps1 = (oks1, caps')" "oks = True # oks1"
    using Cons.prems(4) a(1) e by (auto split: prod.splits)
  have "\<forall>u \<in> set ts. get_capability (cap_key (handle_generate (fst u))) caps1 = None" using g ne Cons.prems(3) by simp
  note IH = Cons.IH[OF _ a(2) this i(1)]
  have "cap_key (handle_generate t) \<notin> fst ` set (map (\<lambda>(t, ty). (cap_key (handle_generate t), ty)) ts)" using ne by force
  then have n: "map_of (map (\<lambda>(t, ty). (cap_key (handle_generate t), ty)) ts) (cap_key (handle_generate t)) = None" by (simp only: map_of_eq_None_iff not_False_eq_True)
  have "oks = replicate (length (e # ts)) True" "bt_wf caps'" using IH Cons.prems(1) i(2) by simp_all
  moreover have "get_capability key caps' = (case map_of (map (\<lambda>(t, ty). (cap_key (handle_generate t), ty)) (e # ts)) key of
       Some ty \<Rightarrow> Some \<lparr>cap_type = ty, cap_handle = \<lparr>cap_key = key\<rparr>\<rparr> | None \<Rightarrow> get_capability key caps)" for key
    using IH[THEN conjunct2, THEN conjunct2, THEN spec[of _ key]] Cons.prems(1) g[of key] n
    by (cases "key = cap_key (handle_generate t)") (simp_all add: e split: option.split)
  ultimately show ?case by blast
qed simp

end
