(* ===== verification/Index_Sched.thy ===== *)
theory Index_Sched
  imports Process
begin

text \<open>
  The task builder and the index-based scheduler of task/src/lib.rs. The kernel creates its global instance at
  boot and otherwise runs from the run queue of theory \<open>Task\<close>. \<open>None\<close> is a panic.
\<close>

section \<open>The task builder\<close>

record TaskBuilder =
  tb_name :: string
  tb_sched_class :: SchedClass
  tb_stack_size :: u64

definition TaskBuilder_new :: "string \<Rightarrow> TaskBuilder" where
  "TaskBuilder_new name = \<lparr>tb_name = name, tb_sched_class = SchedClass_default, tb_stack_size = 8192\<rparr>"

definition builder_sched_class :: "SchedClass \<Rightarrow> TaskBuilder \<Rightarrow> TaskBuilder" where
  "builder_sched_class c b = b\<lparr>tb_sched_class := c\<rparr>"

definition builder_stack_size :: "u64 \<Rightarrow> TaskBuilder \<Rightarrow> TaskBuilder" where
  "builder_stack_size n b = b\<lparr>tb_stack_size := n\<rparr>"

definition build_kernel_task :: "u64 \<Rightarrow> TaskBuilder \<Rightarrow> sched \<Rightarrow> (TaskCB \<times> sched) option" where
  "build_kernel_task entry b s =
     do { stack_base \<leftarrow> virt_new 0xFFFFFF8000000000;
          stack_top \<leftarrow> virt_add stack_base (tb_stack_size b);
          Some (TaskCB_new (tb_name b) entry stack_top (tb_sched_class b) s) }"

section \<open>The scheduler\<close>

record Scheduler =
  is_tasks :: "TaskCB list"
  is_current :: nat

definition Scheduler_new :: Scheduler where
  "Scheduler_new = \<lparr>is_tasks = [], is_current = 0\<rparr>"

definition set_task_state :: "nat \<Rightarrow> TaskState \<Rightarrow> Scheduler \<Rightarrow> Scheduler option" where
  "set_task_state i st sc =
     do { t \<leftarrow> index_at (is_tasks sc) i; Some (sc\<lparr>is_tasks := (is_tasks sc)[i := t\<lparr>t_state := st\<rparr>]\<rparr>) }"

text \<open>The first switch, up to the context switch: the old and the new index. It panics without tasks.\<close>

definition scheduler_start :: "Scheduler \<Rightarrow> (nat \<times> nat \<times> Scheduler) option" where
  "scheduler_start sc =
     (if is_tasks sc = [] then None
      else do { let current_idx = is_current sc;
                let next_idx = (current_idx + 1) mod length (is_tasks sc);
                sc \<leftarrow> set_task_state current_idx Ready sc;
                sc \<leftarrow> set_task_state next_idx Running sc;
                Some (current_idx, next_idx, sc\<lparr>is_current := next_idx\<rparr>) })"

definition add_task :: "TaskCB \<Rightarrow> Scheduler \<Rightarrow> Scheduler" where
  "add_task t sc = sc\<lparr>is_tasks := is_tasks sc @ [t]\<rparr>"

definition task_count :: "Scheduler \<Rightarrow> nat" where
  "task_count sc = length (is_tasks sc)"

definition next_ready_task :: "Scheduler \<Rightarrow> nat option" where
  "next_ready_task sc =
     (let count = length (is_tasks sc)
      in List.find (\<lambda>idx. t_state (is_tasks sc ! idx) = Ready) (map (\<lambda>i. (is_current sc + i) mod count) [1..<count + 1]))"

definition pick_next :: "Scheduler \<Rightarrow> (nat option \<times> Scheduler) option" where
  "pick_next sc =
     do { t \<leftarrow> index_at (is_tasks sc) (is_current sc);
          sc \<leftarrow> (if t_state t = Running then set_task_state (is_current sc) Ready sc else Some sc);
          case next_ready_task sc of
            Some next_idx \<Rightarrow> map_option (\<lambda>sc. (Some next_idx, sc)) (set_task_state next_idx Running sc)
          | None \<Rightarrow> Some (None, sc) }"

section \<open>The task picked\<close>

text \<open>The search visits every task once, the current one last.\<close>

lemma ring_order_set:
  assumes "0 < n"
  shows "set (map (\<lambda>i. (c + i) mod n) [1..<n + 1]) = {..<n}"
proof -
  have "j \<in> (\<lambda>i. (c + i) mod n) ` {1..<n + 1}" if "j < n" for j
  proof -
    define i where "i = (j + (n - c mod n)) mod n"
    have "(c + i) mod n = (c mod n + (j + (n - c mod n))) mod n" by (simp add: i_def mod_simps)
    also have "\<dots> = (j + n) mod n" using assms mod_less_divisor[OF assms, of c] by simp
    finally have e: "(c + i) mod n = j" using that by simp
    have "i < n" using assms by (simp add: i_def)
    show ?thesis
    proof (cases "i = 0")
      case True
      then have "(c + n) mod n = j" using e by simp
      then show ?thesis using assms by (intro image_eqI[of _ _ n]) simp_all
    next
      case False
      then show ?thesis using e \<open>i < n\<close> by (intro image_eqI[of _ _ i]) simp_all
    qed
  qed
  moreover have "(\<lambda>i. (c + i) mod n) ` {1..<n + 1} \<subseteq> {..<n}" using assms by auto
  ultimately show ?thesis unfolding set_map set_upt by blast
qed

lemma next_ready_task_Some:
  assumes "next_ready_task sc = Some idx"
  shows "idx < length (is_tasks sc)" "t_state (is_tasks sc ! idx) = Ready"
proof -
  let ?n = "length (is_tasks sc)"
  have i: "idx \<in> set (map (\<lambda>i. (is_current sc + i) mod ?n) [1..<?n + 1])" and r: "t_state (is_tasks sc ! idx) = Ready"
    using assms unfolding next_ready_task_def Let_def find_Some_iff by (metis nth_mem)+
  then have "0 < ?n" by (cases ?n) auto
  then show "idx < ?n" using i ring_order_set[of ?n "is_current sc"] by auto
  show "t_state (is_tasks sc ! idx) = Ready" by (rule r)
qed

lemma next_ready_task_None:
  "next_ready_task sc = None \<longleftrightarrow> (\<forall>t \<in> set (is_tasks sc). t_state t \<noteq> Ready)"
proof (cases "is_tasks sc = []")
  case False
  then show ?thesis using ring_order_set[of "length (is_tasks sc)" "is_current sc"]
    unfolding next_ready_task_def Let_def find_None_iff by (auto simp: all_set_conv_all_nth)
qed (simp add: next_ready_task_def)

text \<open>Picking a task succeeds whenever one is ready or running, and marks it; but the index of the current task does not
  move, so a second pick leaves the first task marked as running.\<close>

lemma pick_next_keeps_current: "pick_next sc = Some (r, sc') \<Longrightarrow> is_current sc' = is_current sc"
  by (auto simp: pick_next_def set_task_state_def split: if_splits option.splits Option.bind_splits)

lemma pick_next_result:
  assumes "is_current sc < length (is_tasks sc)"
  shows "\<exists>r sc'. pick_next sc = Some (r, sc') \<and>
    (r = None \<longleftrightarrow> (\<forall>t \<in> set (is_tasks sc). t_state t \<noteq> Ready) \<and> t_state (is_tasks sc ! is_current sc) \<noteq> Running) \<and>
    (\<forall>i. r = Some i \<longrightarrow> i < length (is_tasks sc) \<and> t_state (is_tasks sc' ! i) = Running)"
proof -
  let ?c = "is_current sc" and ?ts = "is_tasks sc"
  define sc1 where "sc1 = (if t_state (?ts ! ?c) = Running then sc\<lparr>is_tasks := ?ts[?c := (?ts ! ?c)\<lparr>t_state := Ready\<rparr>]\<rparr> else sc)"
  have len: "length (is_tasks sc1) = length ?ts" by (simp add: sc1_def)
  have p: "pick_next sc = (case next_ready_task sc1 of
      Some next_idx \<Rightarrow> map_option (\<lambda>sc. (Some next_idx, sc)) (set_task_state next_idx Running sc1) | None \<Rightarrow> Some (None, sc1))"
  proof -
    have "index_at ?ts ?c = Some (?ts ! ?c)" using assms by (simp add: index_at_def)
    moreover have "(if t_state (?ts ! ?c) = Running then set_task_state ?c Ready sc else Some sc) = Some sc1"
      using assms by (simp add: set_task_state_def index_at_def sc1_def)
    ultimately show ?thesis by (simp add: pick_next_def)
  qed
  have none: "next_ready_task sc1 = None \<longleftrightarrow> (\<forall>t \<in> set ?ts. t_state t \<noteq> Ready) \<and> t_state (?ts ! ?c) \<noteq> Running"
  proof (cases "t_state (?ts ! ?c) = Running")
    case True
    then have "(?ts ! ?c)\<lparr>t_state := Ready\<rparr> \<in> set (is_tasks sc1)" using assms by (simp add: sc1_def set_update_memI)
    then show ?thesis unfolding next_ready_task_None using True by fastforce
  qed (simp add: next_ready_task_None sc1_def)
  show ?thesis
  proof (cases "next_ready_task sc1")
    case None
    then show ?thesis using p none by simp
  next
    case (Some i)
    then show ?thesis using p none next_ready_task_Some(1)[OF Some] len by (auto simp: set_task_state_def index_at_def)
  qed
qed

end
