(* ===== verification/Block_Dev.thy ===== *)
theory Block_Dev
  imports Prelude
begin

text \<open>
  fs/src/lib.rs: the block device interface, the registry of file system drivers and
  the raw device node. A device is a partial map from sector numbers to 512-byte
  sectors: a sector outside its domain cannot be read or written.
\<close>

type_synonym disk = "u64 \<Rightarrow> bytes option"

abbreviation SECTOR :: nat where
  "SECTOR \<equiv> 512"

definition dev_read :: "disk \<Rightarrow> u64 \<Rightarrow> bytes option" where
  "dev_read d sector = d sector"

definition dev_write :: "disk \<Rightarrow> u64 \<Rightarrow> bytes \<Rightarrow> bool \<times> disk" where
  "dev_write d sector buf = (if d sector = None then (False, d) else (True, d(sector \<mapsto> buf)))"

text \<open>A read whose result is ignored leaves the zero-initialised buffer.\<close>

definition read_or_zero :: "disk \<Rightarrow> u64 \<Rightarrow> bytes" where
  "read_or_zero d sector = (case dev_read d sector of Some b \<Rightarrow> b | None \<Rightarrow> replicate SECTOR 0)"

definition disk_wf :: "disk \<Rightarrow> bool" where
  "disk_wf d \<longleftrightarrow> (\<forall>s b. d s = Some b \<longrightarrow> length b = SECTOR)"

lemma read_or_zero_length [simp]: "disk_wf d \<Longrightarrow> length (read_or_zero d s) = SECTOR"
  by (auto simp: read_or_zero_def dev_read_def disk_wf_def split: option.splits)

lemma dev_write_wf: "disk_wf d \<Longrightarrow> length b = SECTOR \<Longrightarrow> disk_wf (snd (dev_write d s b))"
  by (auto simp: disk_wf_def dev_write_def)

lemma dev_write_dom [simp]: "snd (dev_write d s b) x = None \<longleftrightarrow> d x = None"
  by (auto simp: dev_write_def)

lemma dev_write_same [simp]: "d s \<noteq> None \<Longrightarrow> snd (dev_write d s b) s = Some b"
  by (simp add: dev_write_def)

lemma dev_write_other [simp]: "x \<noteq> s \<Longrightarrow> snd (dev_write d s b) x = d x"
  by (simp add: dev_write_def)

section \<open>Driver registry\<close>

text \<open>A driver has a name, a probe and a mount function; \<open>'i\<close> is its root node. A mount may panic
  on a malformed volume, the outer \<open>None\<close>.\<close>

record 'i FsDriver =
  drv_name :: string
  drv_probe :: "disk \<Rightarrow> bool"
  drv_mount :: "disk \<Rightarrow> 'i option option"

definition fs_register :: "'i FsDriver \<Rightarrow> 'i FsDriver list \<Rightarrow> 'i FsDriver list" where
  "fs_register drv reg = filter (\<lambda>d. drv_name d \<noteq> drv_name drv) reg @ [drv]"

definition fs_unregister :: "string \<Rightarrow> 'i FsDriver list \<Rightarrow> 'i FsDriver list" where
  "fs_unregister name reg = filter (\<lambda>d. drv_name d \<noteq> name) reg"

fun probe_and_mount :: "'i FsDriver list \<Rightarrow> disk \<Rightarrow> 'i option option" where
  "probe_and_mount [] dev = Some None"
| "probe_and_mount (d # ds) dev = (if drv_probe d dev then drv_mount d dev else probe_and_mount ds dev)"

section \<open>The raw device node\<close>

lemma sector_offset_less: "unat ((pos :: u64) mod 512) < SECTOR"
  by (simp add: unat_mod)

text \<open>The loops of \<open>BlockDevINode::read\<close> and \<open>::write\<close>; \<open>n\<close> is \<open>buf.len() - done\<close>.\<close>

function bdev_read_loop :: "disk \<Rightarrow> u64 \<Rightarrow> nat \<Rightarrow> bytes" where
  "bdev_read_loop dev pos n =
     (if n = 0 then []
      else let sector = pos div 512; sec_off = unat (pos mod 512)
           in case dev_read dev sector of
                None \<Rightarrow> []
              | Some sector_buf \<Rightarrow>
                  (let copy = min (SECTOR - sec_off) n
                   in take copy (drop sec_off sector_buf)
                      @ bdev_read_loop dev (pos + of_nat copy) (n - copy)))"
  by pat_completeness auto
termination
  by (relation "measure (\<lambda>(dev, pos, n). n)") (auto simp: sector_offset_less)

definition bdev_read :: "disk \<Rightarrow> u64 \<Rightarrow> nat \<Rightarrow> bytes" where
  "bdev_read dev offset len = bdev_read_loop dev offset len"

text \<open>\<open>old\<close> is the sector buffer left by the previous iteration.\<close>

function bdev_write_loop :: "bytes \<Rightarrow> u64 \<Rightarrow> bytes \<Rightarrow> disk \<Rightarrow> nat \<times> disk" where
  "bdev_write_loop old pos buf dev =
     (if buf = [] then (0, dev)
      else let sector = pos div 512; sec_off = unat (pos mod 512);
               rd = (if sec_off \<noteq> 0 \<or> length buf < SECTOR then dev_read dev sector else Some old)
           in case rd of
                None \<Rightarrow> (0, dev)
              | Some sector_buf \<Rightarrow>
                  (let copy = min (SECTOR - sec_off) (length buf);
                       sb = overlay sector_buf sec_off (take copy buf)
                   in case dev_write dev sector sb of
                        (False, dev1) \<Rightarrow> (0, dev1)
                      | (True, dev1) \<Rightarrow>
                          let (n, dev2) = bdev_write_loop sb (pos + of_nat copy) (drop copy buf) dev1
                          in (copy + n, dev2)))"
  by pat_completeness auto
termination
  by (relation "measure (\<lambda>(old, pos, buf, dev). length buf)") (auto simp: sector_offset_less)

definition bdev_write :: "u64 \<Rightarrow> bytes \<Rightarrow> disk \<Rightarrow> nat \<times> disk" where
  "bdev_write offset buf dev = bdev_write_loop (replicate SECTOR 0) offset buf dev"

definition bdev_size :: "u64 \<Rightarrow> u64" where
  "bdev_size sector_count = sector_count * 512"

declare bdev_read_loop.simps [simp del] bdev_write_loop.simps [simp del]

section \<open>Byte view of a device\<close>

definition dev_byte :: "disk \<Rightarrow> nat \<Rightarrow> u8" where
  "dev_byte d a = (case d (of_nat (a div SECTOR)) of Some b \<Rightarrow> b ! (a mod SECTOR) | None \<Rightarrow> 0)"

definition dev_range :: "disk \<Rightarrow> nat \<Rightarrow> nat \<Rightarrow> bool" where
  "dev_range d a n \<longleftrightarrow> a + n \<le> 2 ^ 64 \<and> (\<forall>i. a \<le> i \<and> i < a + n \<longrightarrow> d (of_nat (i div SECTOR)) \<noteq> None)"

lemma pos_split:
  fixes pos :: u64
  shows "pos div 512 = of_nat (unat pos div SECTOR)" "unat (pos mod 512) = unat pos mod SECTOR"
proof -
  have "unat (pos div 512) = unat pos div SECTOR" by (simp add: unat_div)
  then have "of_nat (unat (pos div 512)) = (of_nat (unat pos div SECTOR) :: u64)" by (rule arg_cong)
  then show "pos div 512 = of_nat (unat pos div SECTOR)" by simp
  show "unat (pos mod 512) = unat pos mod SECTOR" by (simp add: unat_mod)
qed

lemma sector_of_chunk:
  assumes "a mod SECTOR + j < SECTOR"
  shows "(a + j) div SECTOR = a div SECTOR" "(a + j) mod SECTOR = a mod SECTOR + j"
proof -
  have "a + j = (a mod SECTOR + j) + (a div SECTOR) * SECTOR" by simp
  then show "(a + j) div SECTOR = a div SECTOR" "(a + j) mod SECTOR = a mod SECTOR + j"
    using assms by (simp_all only: div_mult_self1 mod_mult_self1 div_less mod_less)
qed

lemma range_tail:
  assumes "dev_range d a n" "c \<le> n" "pos = (of_nat a :: u64)"
  shows "n = c \<or> unat (pos + of_nat c) = a + c \<and> dev_range d (a + c) (n - c)"
proof (cases "n = c")
  case False
  then have "a + c < 2 ^ 64" using assms(1,2) by (simp add: dev_range_def)
  then have "unat (of_nat (a + c) :: u64) = a + c" by (intro unat_of_nat_less) simp
  then show ?thesis using assms by (auto simp: dev_range_def)
qed simp

lemma map_upt_split:
  "c \<le> n \<Longrightarrow> map f [0..<n] = map f [0..<c] @ map (\<lambda>i. f (c + i)) [0..<n - c]"
  by (rule nth_equalityI) (auto simp: nth_append)

lemma sector_slice:
  assumes "d (of_nat (a div SECTOR)) = Some b" "length b = SECTOR" "a mod SECTOR + c \<le> SECTOR"
  shows "take c (drop (a mod SECTOR) b) = map (\<lambda>i. dev_byte d (a + i)) [0..<c]"
  using assms by (intro nth_equalityI) (auto simp: dev_byte_def sector_of_chunk)

lemma bdev_read_loop_bytes:
  assumes "disk_wf d" "dev_range d (unat pos) n"
  shows "bdev_read_loop d pos n = map (\<lambda>i. dev_byte d (unat pos + i)) [0..<n]"
  using assms
proof (induction d pos n rule: bdev_read_loop.induct)
  case (1 d pos n)
  show ?case
  proof (cases "n = 0")
    case False
    let ?a = "unat pos" and ?c = "min (SECTOR - unat pos mod SECTOR) n"
    obtain b where b: "d (of_nat (?a div SECTOR)) = Some b"
      using 1(3) False by (auto simp: dev_range_def)
    have lb: "length b = SECTOR" using 1(2) b by (auto simp: disk_wf_def)
    have step: "bdev_read_loop d pos n =
        map (\<lambda>i. dev_byte d (?a + i)) [0..<?c] @ bdev_read_loop d (pos + of_nat ?c) (n - ?c)"
      using False b sector_slice[of d ?a b ?c] lb
      by (subst bdev_read_loop.simps) (simp add: pos_split dev_read_def Let_def)
    have IH: "dev_range d (unat (pos + of_nat ?c)) (n - ?c) \<Longrightarrow>
        bdev_read_loop d (pos + of_nat ?c) (n - ?c) =
        map (\<lambda>i. dev_byte d (unat (pos + of_nat ?c) + i)) [0..<n - ?c]"
      using 1(1)[OF False refl refl _ refl, of b, unfolded pos_split dev_read_def, OF b 1(2)] .
    consider "n = ?c" | "unat (pos + of_nat ?c) = ?a + ?c" "dev_range d (?a + ?c) (n - ?c)"
      using range_tail[OF 1(3), of ?c pos] by auto
    then show ?thesis
    proof cases
      case 1
      then have "n - ?c = 0" by simp
      then have "bdev_read_loop d (pos + of_nat ?c) (n - ?c) = []" by (simp add: bdev_read_loop.simps)
      then show ?thesis using step 1 by simp
    next
      case 2
      have le: "?c \<le> n" by simp
      show ?thesis
        unfolding step map_upt_split[OF le, of "\<lambda>i. dev_byte d (?a + i)"] IH[unfolded 2(1), OF 2(2)]
        by (simp only: add.assoc)
    qed
  qed (simp add: bdev_read_loop.simps)
qed

lemma sector_index_eq:
  assumes "x < 2 ^ 64" "y < 2 ^ 64"
  shows "(of_nat (x div SECTOR) :: u64) = of_nat (y div SECTOR) \<longleftrightarrow> x div SECTOR = y div SECTOR"
proof -
  have "x div SECTOR < 2 ^ LENGTH(64)" "y div SECTOR < 2 ^ LENGTH(64)" using assms by auto
  then show ?thesis using unat_of_nat_less[where 'a = 64] by metis
qed

lemma dev_byte_update:
  assumes "d (of_nat (a div SECTOR)) = Some b" "length b = SECTOR" "a mod SECTOR + length ys \<le> SECTOR"
    "a < 2 ^ 64" "x < 2 ^ 64"
  shows "dev_byte (d(of_nat (a div SECTOR) \<mapsto> overlay b (a mod SECTOR) ys)) x =
    (if a \<le> x \<and> x < a + length ys then ys ! (x - a) else dev_byte d x)"
proof (cases "x div SECTOR = a div SECTOR")
  case True
  have "x = x div SECTOR * SECTOR + x mod SECTOR" "a = x div SECTOR * SECTOR + a mod SECTOR"
    by (simp, unfold True, simp)
  then have "a \<le> x \<longleftrightarrow> a mod SECTOR \<le> x mod SECTOR" "x - a = x mod SECTOR - a mod SECTOR"
    "x < a + length ys \<longleftrightarrow> x mod SECTOR < a mod SECTOR + length ys"
    by linarith+
  then show ?thesis using assms True by (simp add: dev_byte_def nth_overlay)
next
  case False
  have "\<not> (a \<le> x \<and> x < a + length ys)"
  proof
    assume x: "a \<le> x \<and> x < a + length ys"
    then have "(a + (x - a)) div SECTOR = a div SECTOR" using assms(3) by (intro sector_of_chunk) linarith
    then show False using x False by simp
  qed
  then show ?thesis using False assms(4,5) by (auto simp: dev_byte_def sector_index_eq)
qed

lemma overlay_full: "length xs = length ys \<Longrightarrow> length zs = length ys \<Longrightarrow> overlay xs 0 ys = overlay zs 0 ys"
  by (simp add: overlay_def)

text \<open>The read-modify-write of one sector, whichever buffer it starts from.\<close>

lemma write_chunk:
  assumes "d (of_nat (unat pos div SECTOR)) = Some b" "length b = SECTOR" "length old = SECTOR" "buf \<noteq> []"
    and "c = min (SECTOR - unat pos mod SECTOR) (length buf)"
    and "sb = overlay b (unat pos mod SECTOR) (take c buf)"
  shows "bdev_write_loop old pos buf d =
    (let (n, d2) = bdev_write_loop sb (pos + of_nat c) (drop c buf) (d(of_nat (unat pos div SECTOR) \<mapsto> sb))
     in (c + n, d2))"
proof -
  have "overlay old (unat pos mod SECTOR) (take c buf) = sb"
    if "unat pos mod SECTOR = 0" "\<not> length buf < SECTOR"
    using that assms by (simp add: overlay_full[of b _ old])
  then show ?thesis
    using assms by (subst bdev_write_loop.simps)
      (auto simp: pos_split dev_read_def dev_write_def Let_def simp del: length_overlay)
qed

lemma bdev_write_loop_bytes:
  assumes "disk_wf d" "dev_range d (unat pos) (length buf)" "length old = SECTOR"
    and "bdev_write_loop old pos buf d = (n, d')"
  shows "n = length buf \<and> disk_wf d' \<and> (\<forall>s. d' s = None \<longleftrightarrow> d s = None) \<and>
    (\<forall>x < 2 ^ 64. dev_byte d' x =
       (if unat pos \<le> x \<and> x < unat pos + length buf then buf ! (x - unat pos) else dev_byte d x))"
  using assms
proof (induction "length buf" arbitrary: old pos buf d n rule: less_induct)
  case less
  show ?case
  proof (cases "buf = []")
    case True
    then have "n = 0" "d' = d" using less.prems(4) by (simp_all add: bdev_write_loop.simps)
    then show ?thesis using True less.prems(1) by auto
  next
    case False
    let ?a = "unat pos"
    define c where "c = min (SECTOR - ?a mod SECTOR) (length buf)"
    obtain b where b: "d (of_nat (?a div SECTOR)) = Some b"
      using less.prems(2) False by (auto simp: dev_range_def)
    have lb: "length b = SECTOR" using less.prems(1) b by (auto simp: disk_wf_def)
    define sb where "sb = overlay b (?a mod SECTOR) (take c buf)"
    let ?d1 = "d(of_nat (?a div SECTOR) \<mapsto> sb)"
    have c: "0 < c" "c \<le> length buf" "?a mod SECTOR + c \<le> SECTOR" using False by (auto simp: c_def)
    have lsb: "length sb = SECTOR" using c lb by (simp add: sb_def)
    obtain m where m: "bdev_write_loop sb (pos + of_nat c) (drop c buf) ?d1 = (m, d')" "n = c + m"
      using write_chunk[of d pos b old buf c sb, OF b lb less.prems(3) False c_def sb_def] less.prems(4)
      by (auto split: prod.splits)
    have wf1: "disk_wf ?d1" using less.prems(1) lsb by (auto simp: disk_wf_def)
    have a64: "?a < 2 ^ 64" using unsigned_less[of pos] by simp
    have byte1: "dev_byte ?d1 x = (if ?a \<le> x \<and> x < ?a + c then buf ! (x - ?a) else dev_byte d x)"
      if "x < 2 ^ 64" for x
      using dev_byte_update[of d ?a b "take c buf" x, OF b lb] c a64 that by (auto simp: sb_def)
    have r1: "dev_range ?d1 ?a (length buf)" using less.prems(2) by (auto simp: dev_range_def)
    have rest: "m = length buf - c \<and> disk_wf d' \<and> (\<forall>s. d' s = None \<longleftrightarrow> ?d1 s = None) \<and>
      (\<forall>x < 2 ^ 64. dev_byte d' x =
         (if ?a + c \<le> x \<and> x < ?a + length buf then buf ! (x - ?a) else dev_byte ?d1 x))"
    proof (cases "length buf = c")
      case True
      then have "m = 0" "d' = ?d1" using m(1) by (simp_all add: bdev_write_loop.simps)
      then show ?thesis using True wf1 by auto
    next
      case False
      then have p: "unat (pos + of_nat c) = ?a + c" "dev_range ?d1 (?a + c) (length (drop c buf))"
        using range_tail[OF r1 c(2), of pos] by simp_all
      have "length (drop c buf) < length buf" using c by simp
      from less.hyps[OF this wf1 _ lsb m(1)] p c(2) show ?thesis
        by (simp add: less_diff_conv2 le_diff_conv2 add.commute add.left_commute)
    qed
    then show ?thesis using byte1 b m(2) c(2) by (auto split: if_splits)
  qed
qed

section \<open>Properties\<close>

definition demo_disk :: disk where
  "demo_disk s = (if s < 3 then Some (replicate SECTOR 0) else None)"

lemma demo_disk_wf: "disk_wf demo_disk"
  by (auto simp: disk_wf_def demo_disk_def split: if_splits)

lemma demo_disk_range: "a + n \<le> 1536 \<Longrightarrow> dev_range demo_disk a n"
  by (auto simp: dev_range_def demo_disk_def word_less_nat_alt unat_of_nat_less)

lemma bdev_read_disjoint:
  assumes "disk_wf d" "disk_wf d'" "dev_range d (unat p) m" "\<forall>s. d' s = None \<longleftrightarrow> d s = None"
    and "\<forall>i < m. dev_byte d' (unat p + i) = dev_byte d (unat p + i)"
  shows "bdev_read d' p m = bdev_read d p m"
proof -
  have "dev_range d' (unat p) m" using assms(3,4) by (simp add: dev_range_def)
  then show ?thesis using assms by (simp add: bdev_read_def bdev_read_loop_bytes)
qed

text \<open>C21: Writing a buffer to the raw device node at any byte offset, aligned or not, and
  reading the same range back returns the buffer: the read-modify-write of the partial
  first and last sectors changes the addressed bytes only, so every disjoint range reads
  as before, and the write reports its full length.\<close>

theorem bdev_write_read:
  assumes "disk_wf d" "dev_range d (unat offset) (length buf)"
    and "bdev_write offset buf d = (n, d')"
  shows "n = length buf \<and> bdev_read d' offset (length buf) = buf \<and>
    (\<forall>p m. dev_range d (unat p) m \<and> (unat p + m \<le> unat offset \<or> unat offset + length buf \<le> unat p)
       \<longrightarrow> bdev_read d' p m = bdev_read d p m)"
proof -
  have w: "n = length buf" "disk_wf d'" "\<forall>s. d' s = None \<longleftrightarrow> d s = None"
    "\<forall>x < 2 ^ 64. dev_byte d' x =
       (if unat offset \<le> x \<and> x < unat offset + length buf then buf ! (x - unat offset) else dev_byte d x)"
    using bdev_write_loop_bytes[OF assms(1,2) _ assms(3)[unfolded bdev_write_def]] by simp_all
  have r: "dev_range d' (unat offset) (length buf)" using assms(2) w(3) by (simp add: dev_range_def)
  have "bdev_read d' offset (length buf) = buf"
    using w(2,4) r by (intro nth_equalityI) (auto simp: bdev_read_def bdev_read_loop_bytes dev_range_def)
  moreover have "bdev_read d' p m = bdev_read d p m"
    if "dev_range d (unat p) m" "unat p + m \<le> unat offset \<or> unat offset + length buf \<le> unat p" for p m
    using that w(4) by (intro bdev_read_disjoint[OF assms(1) w(2) that(1) w(3)]) (auto simp: dev_range_def)
  ultimately show ?thesis using w(1) by blast
qed

theorem bdev_write_read_witness:
  "fst (bdev_write 510 [1, 2, 3, 4] demo_disk) = length [1, 2, 3, 4 :: u8] \<and>
   bdev_read (snd (bdev_write 510 [1, 2, 3, 4] demo_disk)) 510 (length [1, 2, 3, 4 :: u8]) = [1, 2, 3, 4]"
  using bdev_write_read[OF demo_disk_wf, of 510 "[1, 2, 3, 4]"] demo_disk_range[of 510 "Suc (Suc (Suc (Suc 0)))"]
  by (cases "bdev_write 510 [1, 2, 3, 4] demo_disk") simp

lemma fs_register_distinct:
  "distinct (map drv_name reg) \<Longrightarrow> distinct (map drv_name (fs_register drv reg))"
  by (auto simp: fs_register_def distinct_map_filter)

text \<open>The driver registry keeps one driver per name, in registration order: a registered
  driver replaces any driver of the same name, an unregistered one is never probed again,
  and mounting uses the first registered driver whose probe accepts the device and no
  later one, even if that driver's mount then fails.\<close>

lemma registry_first_match:
  "(distinct (map drv_name reg) \<longrightarrow> distinct (map drv_name (fs_register drv reg))) \<and>
   (\<forall>d \<in> set (fs_register drv reg). drv_name d = drv_name drv \<longrightarrow> d = drv) \<and>
   (\<forall>d \<in> set (fs_unregister name reg). drv_name d \<noteq> name \<and> d \<in> set reg) \<and>
   (\<forall>pre d post. reg = pre @ d # post \<and> (\<forall>e \<in> set pre. \<not> drv_probe e dev) \<and> drv_probe d dev
      \<longrightarrow> probe_and_mount reg dev = drv_mount d dev) \<and>
   ((\<forall>d \<in> set reg. \<not> drv_probe d dev) \<longrightarrow> probe_and_mount reg dev = Some None)"
proof -
  have "probe_and_mount (pre @ d # post) dev = drv_mount d dev"
    if "\<forall>e \<in> set pre. \<not> drv_probe e dev" "drv_probe d dev" for pre post d
    using that by (induction pre) auto
  moreover have "probe_and_mount ds dev = Some None" if "\<forall>d \<in> set ds. \<not> drv_probe d dev" for ds
    using that by (induction ds) auto
  ultimately show ?thesis by (auto simp: fs_register_distinct fs_unregister_def) (auto simp: fs_register_def)
qed

end
