(* ===== verification/Ext2_Disk.thy ===== *)
theory Ext2_Disk
  imports Block_Dev
begin

text \<open>
  fs/src/ext2/superblock.rs and bgdt.rs: the superblock, the geometry derived from it,
  whole-block input and output, and the block group descriptor table.

  Sizes and indices of type \<open>usize\<close> that are bounded by the width of the on-disk fields
  are naturals; block and sector numbers are words. A division by zero and an
  out-of-range slice are \<open>None\<close>. Failure of the heap allocator is not modelled.
\<close>

section \<open>Superblock\<close>

record Superblock =
  sb_inodes_count :: u32
  sb_blocks_count :: u32
  sb_free_blocks :: u32
  sb_free_inodes :: u32
  sb_first_data_block :: u32
  sb_log_block_size :: u32
  sb_blocks_per_group :: u32
  sb_inodes_per_group :: u32
  sb_magic :: u16
  sb_inode_size :: u16
  sb_first_ino :: u32

abbreviation EXT2_MAGIC :: u16 where "EXT2_MAGIC \<equiv> 0xEF53"
abbreviation SUPERBLOCK_SECTOR :: u64 where "SUPERBLOCK_SECTOR \<equiv> 2"

text \<open>The 1024-byte view of sectors 2 and 3 is parsed by \<open>sb_parse\<close>.\<close>

definition sb_parse :: "bytes \<Rightarrow> Superblock" where
  "sb_parse raw =
     \<lparr> sb_inodes_count = of_le (take 4 raw),
       sb_blocks_count = of_le (take 4 (drop 4 raw)),
       sb_free_blocks = of_le (take 4 (drop 12 raw)),
       sb_free_inodes = of_le (take 4 (drop 16 raw)),
       sb_first_data_block = of_le (take 4 (drop 20 raw)),
       sb_log_block_size = of_le (take 4 (drop 24 raw)),
       sb_blocks_per_group = of_le (take 4 (drop 32 raw)),
       sb_inodes_per_group = of_le (take 4 (drop 40 raw)),
       sb_magic = of_le (take 2 (drop 56 raw)),
       sb_inode_size = of_le (take 2 (drop 88 raw)),
       sb_first_ino = of_le (take 4 (drop 84 raw)) \<rparr>"

definition sb_read :: "disk \<Rightarrow> Superblock option" where
  "sb_read dev =
     do { s2 \<leftarrow> dev_read dev SUPERBLOCK_SECTOR;
          s3 \<leftarrow> dev_read dev (SUPERBLOCK_SECTOR + 1);
          let raw = s2 @ s3;
          if of_le (take 2 (drop 56 raw)) \<noteq> EXT2_MAGIC then None else Some (sb_parse raw) }"

definition write_free_counts :: "Superblock \<Rightarrow> disk \<Rightarrow> disk" where
  "write_free_counts sb dev =
     (case (dev_read dev SUPERBLOCK_SECTOR, dev_read dev (SUPERBLOCK_SECTOR + 1)) of
        (Some s2, Some s3) \<Rightarrow>
          (let raw = overlay (overlay (s2 @ s3) 12 (to_le 4 (sb_free_blocks sb))) 16 (to_le 4 (sb_free_inodes sb));
               dev1 = snd (dev_write dev SUPERBLOCK_SECTOR (take SECTOR raw))
           in snd (dev_write dev1 (SUPERBLOCK_SECTOR + 1) (drop SECTOR raw)))
      | _ \<Rightarrow> dev)"

text \<open>\<open>1024 << log\<close> on a 64-bit \<open>usize\<close>: the shift amount is masked to six bits.\<close>

definition block_size :: "Superblock \<Rightarrow> nat" where
  "block_size sb = unat (push_bit (unat (sb_log_block_size sb) mod 64) (1024 :: u64))"

definition sectors_per_block :: "Superblock \<Rightarrow> nat" where
  "sectors_per_block sb = block_size sb div 512"

definition block_to_sector :: "Superblock \<Rightarrow> u64 \<Rightarrow> u64" where
  "block_to_sector sb block = block * of_nat (sectors_per_block sb)"

definition num_block_groups :: "Superblock \<Rightarrow> nat option" where
  "num_block_groups sb =
     do { n \<leftarrow> udiv (unat (sb_blocks_count sb) + unat (sb_blocks_per_group sb) - 1) (unat (sb_blocks_per_group sb));
          Some (max n 1) }"

definition bgdt_block :: "Superblock \<Rightarrow> u64" where
  "bgdt_block sb = ucast (sb_first_data_block sb + 1)"

definition inode_block_group :: "Superblock \<Rightarrow> u32 \<Rightarrow> nat option" where
  "inode_block_group sb ino = map_option unat (wdiv (ino - 1) (sb_inodes_per_group sb))"

definition inode_local_index :: "Superblock \<Rightarrow> u32 \<Rightarrow> nat option" where
  "inode_local_index sb ino = map_option unat (wmod (ino - 1) (sb_inodes_per_group sb))"

section \<open>Whole blocks\<close>

text \<open>\<open>n\<close> consecutive sectors from \<open>base\<close>.\<close>

definition read_sectors :: "disk \<Rightarrow> u64 \<Rightarrow> nat \<Rightarrow> bytes" where
  "read_sectors dev base n = concat (map (\<lambda>s. read_or_zero dev (base + of_nat s)) [0..<n])"

definition write_sectors :: "disk \<Rightarrow> u64 \<Rightarrow> nat \<Rightarrow> bytes \<Rightarrow> disk" where
  "write_sectors dev base n data =
     fold (\<lambda>s d. snd (dev_write d (base + of_nat s) (take SECTOR (drop (s * SECTOR) data)))) [0..<n] dev"

definition read_block_bytes :: "disk \<Rightarrow> Superblock \<Rightarrow> u32 \<Rightarrow> bytes" where
  "read_block_bytes dev sb block =
     read_sectors dev (block_to_sector sb (ucast block)) (sectors_per_block sb)"

definition write_block_bytes :: "disk \<Rightarrow> Superblock \<Rightarrow> u32 \<Rightarrow> bytes \<Rightarrow> disk option" where
  "write_block_bytes dev sb block data =
     (if sectors_per_block sb * SECTOR \<le> length data
      then Some (write_sectors dev (block_to_sector sb (ucast block)) (sectors_per_block sb) data)
      else None)"

section \<open>Block group descriptors\<close>

record BgDesc =
  bg_block_bitmap :: u32
  bg_inode_bitmap :: u32
  bg_inode_table :: u32
  bg_free_blocks :: u16
  bg_free_inodes :: u16
  bg_used_dirs :: u16

type_synonym BgDescTable = "BgDesc list"

definition bg_parse :: "bytes \<Rightarrow> BgDesc" where
  "bg_parse e =
     \<lparr> bg_block_bitmap = of_le (take 4 e),
       bg_inode_bitmap = of_le (take 4 (drop 4 e)),
       bg_inode_table = of_le (take 4 (drop 8 e)),
       bg_free_blocks = of_le (take 2 (drop 12 e)),
       bg_free_inodes = of_le (take 2 (drop 14 e)),
       bg_used_dirs = of_le (take 2 (drop 16 e)) \<rparr>"

definition bg_fields :: "BgDesc \<Rightarrow> bytes" where
  "bg_fields e = to_le 4 (bg_block_bitmap e) @ to_le 4 (bg_inode_bitmap e) @ to_le 4 (bg_inode_table e)
     @ to_le 2 (bg_free_blocks e) @ to_le 2 (bg_free_inodes e) @ to_le 2 (bg_used_dirs e)"

definition bgdt_read :: "disk \<Rightarrow> Superblock \<Rightarrow> BgDescTable option" where
  "bgdt_read dev sb =
     do { n \<leftarrow> num_block_groups sb;
          let bsz = block_size sb;
          let spb = sectors_per_block sb;
          let bgdt_start_sector = block_to_sector sb (bgdt_block sb);
          buf_blocks \<leftarrow> udiv (n * 32 + bsz - 1) bsz;
          let raw = concat (map (\<lambda>blk. read_sectors dev (bgdt_start_sector + of_nat blk * of_nat spb) spb) [0..<buf_blocks]);
          those (map (\<lambda>i. map_option bg_parse (slice raw (i * 32) (i * 32 + 32))) [0..<n]) }"

definition bgdt_get :: "BgDescTable \<Rightarrow> nat \<Rightarrow> BgDesc option" where
  "bgdt_get bgdt grp = index_at bgdt grp"

definition write_entry :: "BgDescTable \<Rightarrow> disk \<Rightarrow> Superblock \<Rightarrow> nat \<Rightarrow> disk option" where
  "write_entry bgdt dev sb grp =
     do { let bgdt_start_sector = block_to_sector sb (bgdt_block sb);
          let spb = sectors_per_block sb;
          let bsz = block_size sb;
          block_idx \<leftarrow> udiv (grp * 32) bsz;
          let off_in_blk = grp * 32 mod bsz;
          let sector_base = bgdt_start_sector + of_nat block_idx * of_nat spb;
          let blk_buf = read_sectors dev sector_base spb;
          e \<leftarrow> index_at bgdt grp;
          dst \<leftarrow> slice blk_buf off_in_blk (off_in_blk + 32);
          let blk_buf = overlay blk_buf off_in_blk (overlay dst 0 (bg_fields e));
          Some (write_sectors dev sector_base spb blk_buf) }"

section \<open>Geometry\<close>

text \<open>Block sizes from 1 KiB to 64 KiB, the range ext2 defines.\<close>

definition geom_ok :: "Superblock \<Rightarrow> bool" where
  "geom_ok sb \<longleftrightarrow> unat (sb_log_block_size sb) \<le> 6"

lemma log_cases:
  assumes "(n::nat) \<le> 6"
  shows "n = 0 \<or> n = 1 \<or> n = 2 \<or> n = 3 \<or> n = 4 \<or> n = 5 \<or> n = 6"
  using assms by linarith

lemma block_size_pow: "geom_ok sb \<Longrightarrow> block_size sb = 1024 * 2 ^ unat (sb_log_block_size sb)"
  using log_cases[of "unat (sb_log_block_size sb)"]
  by (auto simp: block_size_def geom_ok_def push_bit_eq_mult)

lemma spb_pow: "geom_ok sb \<Longrightarrow> sectors_per_block sb = 2 * 2 ^ unat (sb_log_block_size sb)"
  by (simp add: sectors_per_block_def block_size_pow)

lemma block_size_spb: "geom_ok sb \<Longrightarrow> block_size sb = sectors_per_block sb * SECTOR"
  by (simp add: block_size_pow spb_pow)

lemma spb_bounds:
  assumes "geom_ok sb"
  shows "2 \<le> sectors_per_block sb" "sectors_per_block sb \<le> 128" "0 < sectors_per_block sb"
  using assms log_cases[of "unat (sb_log_block_size sb)"] by (auto simp: spb_pow geom_ok_def)

lemma block_size_bounds:
  assumes "geom_ok sb"
  shows "1024 \<le> block_size sb" "block_size sb \<le> 65536" "0 < block_size sb"
  using spb_bounds[OF assms] by (simp_all add: block_size_spb[OF assms])

lemma block_size_dvd: "geom_ok sb \<Longrightarrow> 1024 dvd block_size sb"
  by (simp add: block_size_pow)

section \<open>Sectors and blocks\<close>

lemma length_concat_const: "(\<And>x. x \<in> set xs \<Longrightarrow> length (f x) = c) \<Longrightarrow> length (concat (map f xs)) = length xs * c"
  by (induction xs) auto

lemma length_read_sectors: "disk_wf d \<Longrightarrow> length (read_sectors d base n) = n * SECTOR"
  by (simp add: read_sectors_def length_concat_const)

lemma length_read_block [simp]:
  "disk_wf d \<Longrightarrow> geom_ok sb \<Longrightarrow> length (read_block_bytes d sb k) = block_size sb"
  by (simp add: read_block_bytes_def length_read_sectors block_size_spb)

lemma offset_eq_of_nat:
  fixes s base :: u64
  assumes "n < 2 ^ 64"
  shows "s = base + of_nat n \<longleftrightarrow> unat (s - base) = n"
proof
  assume "unat (s - base) = n"
  then have "s - base = of_nat n" by auto
  then show "s = base + of_nat n" by (simp add: algebra_simps)
qed (use assms in \<open>simp add: unat_of_nat_less\<close>)

lemma write_sectors_apply:
  assumes "n \<le> 2 ^ 64"
  shows "write_sectors d base n data s =
    (if unat (s - base) < n \<and> d s \<noteq> None
     then Some (take SECTOR (drop (unat (s - base) * SECTOR) data)) else d s)"
  using assms
proof (induction n)
  case (Suc n)
  have "write_sectors d base (Suc n) data s =
      snd (dev_write (write_sectors d base n data) (base + of_nat n) (take SECTOR (drop (n * SECTOR) data))) s"
    by (simp add: write_sectors_def)
  moreover have "s = base + of_nat n \<longleftrightarrow> unat (s - base) = n"
    using Suc.prems by (intro offset_eq_of_nat) simp
  ultimately show ?case using Suc by (cases "d s") (auto simp: dev_write_def less_Suc_eq split: if_splits)
qed (simp add: write_sectors_def)

lemma write_sectors_None [simp]:
  "n \<le> 2 ^ 64 \<Longrightarrow> write_sectors d base n data s = None \<longleftrightarrow> d s = None"
  by (simp add: write_sectors_apply)

lemma write_sectors_wf:
  assumes "disk_wf d" "n * SECTOR \<le> length data" "n \<le> 2 ^ 64"
  shows "disk_wf (write_sectors d base n data)"
  using assms by (auto simp: disk_wf_def write_sectors_apply split: if_splits) 

lemma read_sectors_nth_eq:
  assumes "\<And>i. i < n \<Longrightarrow> d (base + of_nat i) = d' (base' + of_nat i)"
  shows "read_sectors d base n = read_sectors d' base' n"
proof -
  have "read_or_zero d (base + of_nat i) = read_or_zero d' (base' + of_nat i)" if "i < n" for i
    using assms[OF that] by (simp add: read_or_zero_def dev_read_def)
  then show ?thesis by (auto simp: read_sectors_def intro!: arg_cong[where f = concat] map_cong)
qed

lemma concat_chunks:
  "n * c \<le> length xs \<Longrightarrow> concat (map (\<lambda>i. take c (drop (i * c) xs)) [0..<n]) = take (n * c) xs"
proof (induction n)
  case (Suc n)
  then show ?case using take_add[of "n * c" c xs] by (simp add: add.commute)
qed simp

lemma read_write_sectors:
  assumes "n < 2 ^ 64" "n * SECTOR \<le> length data" "\<And>i. i < n \<Longrightarrow> d (base + of_nat i) \<noteq> None"
  shows "read_sectors (write_sectors d base n data) base n = take (n * SECTOR) data"
proof -
  have "read_or_zero (write_sectors d base n data) (base + of_nat i) = take SECTOR (drop (i * SECTOR) data)"
    if "i < n" for i
    using assms that by (simp add: read_or_zero_def dev_read_def write_sectors_apply unat_of_nat_less)
  then have "read_sectors (write_sectors d base n data) base n =
      concat (map (\<lambda>i. take SECTOR (drop (i * SECTOR) data)) [0..<n])"
    by (auto simp: read_sectors_def intro!: arg_cong[where f = concat] map_cong)
  then show ?thesis using concat_chunks[OF assms(2)] by simp
qed

subsection \<open>Block view\<close>

definition has_block :: "disk \<Rightarrow> Superblock \<Rightarrow> u32 \<Rightarrow> bool" where
  "has_block d sb k \<longleftrightarrow> (\<forall>i < sectors_per_block sb. d (block_to_sector sb (ucast k) + of_nat i) \<noteq> None)"

lemma block_sector_unat:
  assumes "geom_ok sb" "i < sectors_per_block sb"
  shows "unat (block_to_sector sb (ucast (k :: u32)) + of_nat i) = unat k * sectors_per_block sb + i"
proof -
  let ?n = "unat k * sectors_per_block sb + i"
  have "unat k * sectors_per_block sb \<le> (2 ^ 32 - 1) * 128"
    using spb_bounds[OF assms(1)] unat_u32_less[of k] by (intro mult_le_mono) auto
  then have "?n < 2 ^ 64" using assms(2) spb_bounds[OF assms(1)] by simp
  moreover have "block_to_sector sb (ucast k) + of_nat i = of_nat ?n"
    by (simp add: block_to_sector_def)
  moreover have "unat (of_nat ?n :: u64) = ?n" if "?n < 2 ^ 64"
    using that by (intro unat_of_nat_less) simp
  ultimately show ?thesis by metis
qed

lemma block_sector_inj:
  assumes "geom_ok sb" "i < sectors_per_block sb" "j < sectors_per_block sb"
    and "block_to_sector sb (ucast (k :: u32)) + of_nat i = block_to_sector sb (ucast l) + of_nat j"
  shows "k = l \<and> i = j"
proof -
  let ?n = "sectors_per_block sb"
  have eq: "unat k * ?n + i = unat l * ?n + j"
    using assms(4) block_sector_unat[OF assms(1,2)] block_sector_unat[OF assms(1,3)] by metis
  then have "(unat k * ?n + i) div ?n = (unat l * ?n + j) div ?n" "(unat k * ?n + i) mod ?n = (unat l * ?n + j) mod ?n"
    by simp_all
  then show ?thesis using assms(2,3) by (simp add: word_unat_eq_iff)
qed

lemma write_block_Some:
  "geom_ok sb \<Longrightarrow> length data = block_size sb \<Longrightarrow>
   write_block_bytes d sb k data =
     Some (write_sectors d (block_to_sector sb (ucast k)) (sectors_per_block sb) data)"
  by (simp add: write_block_bytes_def block_size_spb)

lemma read_write_block:
  assumes "geom_ok sb" "length data = block_size sb" "write_block_bytes d sb k data = Some d'" "has_block d sb k"
  shows "read_block_bytes d' sb k = data"
proof -
  have "d' = write_sectors d (block_to_sector sb (ucast k)) (sectors_per_block sb) data"
    using assms(1-3) by (simp add: write_block_Some)
  then show ?thesis
    using assms spb_bounds[OF assms(1)]
    by (simp add: read_block_bytes_def has_block_def read_write_sectors block_size_spb)
qed

lemma write_block_other_sector:
  assumes "geom_ok sb" "length data = block_size sb" "write_block_bytes d sb k data = Some d'"
    "\<And>i. i < sectors_per_block sb \<Longrightarrow> s \<noteq> block_to_sector sb (ucast k) + of_nat i"
  shows "d' s = d s"
proof -
  let ?b = "block_to_sector sb (ucast k)"
  have "\<not> unat (s - ?b) < sectors_per_block sb"
    using assms(4)[of "unat (s - ?b)"] by auto
  then show ?thesis
    using assms(1-3) spb_bounds[OF assms(1)] by (auto simp: write_block_Some write_sectors_apply)
qed

lemma write_block_other:
  assumes "geom_ok sb" "length data = block_size sb" "write_block_bytes d sb k data = Some d'" "j \<noteq> k"
  shows "read_block_bytes d' sb j = read_block_bytes d sb j"
  unfolding read_block_bytes_def
  using assms block_sector_inj[OF assms(1)]
  by (intro read_sectors_nth_eq write_block_other_sector[OF assms(1-3)]) blast

lemma write_block_dom:
  assumes "geom_ok sb" "length data = block_size sb" "write_block_bytes d sb k data = Some d'"
  shows "d' s = None \<longleftrightarrow> d s = None"
proof -
  have "sectors_per_block sb \<le> 2 ^ 64" using spb_bounds[OF assms(1)] by simp
  then show ?thesis using assms by (auto simp: write_block_Some)
qed

lemma write_block_wf:
  assumes "geom_ok sb" "length data = block_size sb" "write_block_bytes d sb k data = Some d'" "disk_wf d"
  shows "disk_wf d'"
proof -
  have "sectors_per_block sb \<le> 2 ^ 64" using spb_bounds[OF assms(1)] by simp
  then show ?thesis using assms by (auto simp: write_block_Some block_size_spb intro: write_sectors_wf)
qed

section \<open>The superblock on disk\<close>

definition sb_blk :: "Superblock \<Rightarrow> u32" where
  "sb_blk sb = (if sb_log_block_size sb = 0 then 1 else 0)"

lemma sb_sector_block:
  assumes "geom_ok sb" "i < sectors_per_block sb" "j \<noteq> sb_blk sb"
  shows "block_to_sector sb (ucast j) + of_nat i \<noteq> 2" "block_to_sector sb (ucast j) + of_nat i \<noteq> 3"
proof -
  let ?n = "sectors_per_block sb"
  have u: "unat (block_to_sector sb (ucast j) + of_nat i) = unat j * ?n + i"
    by (rule block_sector_unat[OF assms(1,2)])
  have n: "?n = 2 \<and> sb_blk sb = 1 \<or> 4 \<le> ?n \<and> sb_blk sb = 0"
  proof (cases "sb_log_block_size sb = 0")
    case False
    then have "1 \<le> unat (sb_log_block_size sb)" by (simp add: Suc_le_eq unat_gt_0)
    then have "(2 :: nat) ^ 1 \<le> 2 ^ unat (sb_log_block_size sb)" by (intro power_increasing) auto
    then show ?thesis using False by (simp add: spb_pow[OF assms(1)] sb_blk_def)
  qed (simp add: spb_pow[OF assms(1)] sb_blk_def)
  have ne: "unat j * ?n + i \<noteq> 2 \<and> unat j * ?n + i \<noteq> 3"
  proof (cases "?n = 2")
    case True
    then have "unat j \<noteq> 1" using n assms(3) by (auto simp: word_unat_eq_iff)
    then show ?thesis using True assms(2) by auto
  next
    case False
    then have "j \<noteq> 0" "4 \<le> ?n" using n assms(3) by auto
    then have "1 * 4 \<le> unat j * ?n" by (intro mult_le_mono) (auto simp: Suc_le_eq unat_gt_0)
    then show ?thesis by linarith
  qed
  show "block_to_sector sb (ucast j) + of_nat i \<noteq> 2"
    using u ne by (auto simp: word_unat_eq_iff)
  show "block_to_sector sb (ucast j) + of_nat i \<noteq> 3"
    using u ne by (auto simp: word_unat_eq_iff)
qed

text \<open>Superblocks that differ in the two free counters only.\<close>

definition sb_static_eq :: "Superblock \<Rightarrow> Superblock \<Rightarrow> bool" where
  "sb_static_eq a b \<longleftrightarrow>
     b\<lparr>sb_free_blocks := 0, sb_free_inodes := 0\<rparr> = a\<lparr>sb_free_blocks := 0, sb_free_inodes := 0\<rparr>"

lemma sb_static_refl [simp]: "sb_static_eq a a"
  by (simp add: sb_static_eq_def)

lemma sb_static_free_blocks [simp]: "sb_static_eq a (b\<lparr>sb_free_blocks := x\<rparr>) = sb_static_eq a b"
  by (cases a, cases b) (simp add: sb_static_eq_def)

lemma sb_static_free_inodes [simp]: "sb_static_eq a (b\<lparr>sb_free_inodes := x\<rparr>) = sb_static_eq a b"
  by (cases a, cases b) (simp add: sb_static_eq_def)

lemma sb_static_trans: "sb_static_eq a b \<Longrightarrow> sb_static_eq b c \<Longrightarrow> sb_static_eq a c"
  by (simp add: sb_static_eq_def)

lemma sb_static_geometry:
  assumes "sb_static_eq a b"
  shows "sb_log_block_size b = sb_log_block_size a" "sb_first_data_block b = sb_first_data_block a"
    "sb_blocks_per_group b = sb_blocks_per_group a" "sb_inodes_per_group b = sb_inodes_per_group a"
    "sb_inode_size b = sb_inode_size a" "sb_blocks_count b = sb_blocks_count a"
    "block_size b = block_size a" "sectors_per_block b = sectors_per_block a" "bgdt_block b = bgdt_block a"
    "num_block_groups b = num_block_groups a" "geom_ok b = geom_ok a" "sb_blk b = sb_blk a"
    "block_to_sector b = block_to_sector a" "read_block_bytes d b = read_block_bytes d a"
    "write_block_bytes d b = write_block_bytes d a" "has_block d b = has_block d a"
    "inode_block_group b = inode_block_group a" "inode_local_index b = inode_local_index a"
  using assms
  by (cases a, cases b, simp add: sb_static_eq_def block_size_def sectors_per_block_def bgdt_block_def
      num_block_groups_def geom_ok_def sb_blk_def block_to_sector_def read_block_bytes_def write_block_bytes_def
      has_block_def inode_block_group_def inode_local_index_def fun_eq_iff)+

lemma write_free_counts_dom [simp]: "write_free_counts sb d s = None \<longleftrightarrow> d s = None"
  by (simp add: write_free_counts_def dev_read_def Let_def split: option.splits)

lemma write_free_counts_other: "s \<noteq> 2 \<Longrightarrow> s \<noteq> 3 \<Longrightarrow> write_free_counts sb d s = d s"
  by (simp add: write_free_counts_def dev_read_def Let_def split: option.splits)

lemma write_free_counts_raw:
  assumes "d 2 = Some s2" "d 3 = Some s3" "length s2 = SECTOR"
  shows "write_free_counts sb d 2 = Some (overlay (overlay s2 12 (to_le 4 (sb_free_blocks sb))) 16 (to_le 4 (sb_free_inodes sb)))"
    "write_free_counts sb d 3 = Some s3"
  using assms by (simp_all add: write_free_counts_def dev_read_def dev_write_def Let_def overlay_def)

lemma write_free_counts_wf: "disk_wf d \<Longrightarrow> disk_wf (write_free_counts sb d)"
proof (cases "d 2 = None \<or> d 3 = None")
  case True
  then show "disk_wf d \<Longrightarrow> ?thesis" by (auto simp: write_free_counts_def dev_read_def split: option.splits)
next
  case False
  assume wf: "disk_wf d"
  obtain s2 s3 where s: "d 2 = Some s2" "d 3 = Some s3" using False by auto
  then have l: "length s2 = SECTOR" "length s3 = SECTOR" using wf by (auto simp: disk_wf_def)
  have "length b = SECTOR" if "write_free_counts sb d t = Some b" for t b
    using that write_free_counts_raw[OF s l(1), of sb] l wf write_free_counts_other[of t sb d]
    by (cases "t = 2"; cases "t = 3") (auto simp: disk_wf_def)
  then show ?thesis by (simp add: disk_wf_def)
qed

lemma write_free_counts_block:
  assumes "geom_ok sb'" "j \<noteq> sb_blk sb'"
  shows "read_block_bytes (write_free_counts sb d) sb' j = read_block_bytes d sb' j"
  unfolding read_block_bytes_def
  using sb_sector_block[OF assms(1) _ assms(2)]
  by (intro read_sectors_nth_eq write_free_counts_other) blast+

lemma sb_read_cong: "d' 2 = d 2 \<Longrightarrow> d' 3 = d 3 \<Longrightarrow> sb_read d' = sb_read d"
  by (simp add: sb_read_def dev_read_def)

lemma sb_read_free_counts:
  assumes "disk_wf d" "sb_read d = Some sb0" "sb_static_eq sb0 sb"
  shows "sb_read (write_free_counts sb d) = Some sb"
proof -
  obtain s2 s3 where s: "d 2 = Some s2" "d 3 = Some s3"
    and m: "of_le (take 2 (drop 56 (s2 @ s3))) = EXT2_MAGIC" "sb0 = sb_parse (s2 @ s3)"
    using assms(2) by (auto simp: sb_read_def dev_read_def Let_def bind_eq_Some_conv split: if_splits)
  have l: "length s2 = SECTOR" using s(1) assms(1) by (auto simp: disk_wf_def)
  define raw where
    "raw = overlay (overlay s2 12 (to_le 4 (sb_free_blocks sb))) 16 (to_le 4 (sb_free_inodes sb))"
  have lr: "length raw = SECTOR" using l by (simp add: raw_def)
  have app: "take n (drop a (xs @ s3)) = take n (drop a xs)" if "a + n \<le> SECTOR" "length xs = SECTOR" for a n and xs :: bytes
    using that by simp
  have f: "take n (drop a (raw @ s3)) = take n (drop a (s2 @ s3))" if "a + n \<le> 12 \<or> 20 \<le> a \<and> a + n \<le> SECTOR" for a n
  proof -
    have "take n (drop a raw) = take n (drop a s2)"
      unfolding raw_def using that l by (subst take_drop_overlay_other, simp, force, force)+ simp
    moreover have "a + n \<le> SECTOR" using that by linarith
    ultimately show ?thesis using l lr by (simp only: app)
  qed
  have g: "take 4 (drop 12 (raw @ s3)) = to_le 4 (sb_free_blocks sb)"
    "take 4 (drop 16 (raw @ s3)) = to_le 4 (sb_free_inodes sb)"
    using l lr by (simp_all only: app) (simp_all add: raw_def take_drop_overlay_other)
  have "take 4 (raw @ s3) = take 4 (s2 @ s3)" using f[of 0 4] by simp
  then have "sb_parse (raw @ s3) =
      (sb_parse (s2 @ s3))\<lparr>sb_free_blocks := sb_free_blocks sb, sb_free_inodes := sb_free_inodes sb\<rparr>"
    unfolding sb_parse_def g using f[of 4 4] f[of 20 4] f[of 24 4] f[of 32 4] f[of 40 4] f[of 56 2] f[of 88 2] f[of 84 4]
    by (simp del: drop_append take_append)
  moreover have "(sb_parse (s2 @ s3))\<lparr>sb_free_blocks := sb_free_blocks sb, sb_free_inodes := sb_free_inodes sb\<rparr> = sb"
    using assms(3) unfolding m(2)[symmetric] by (cases sb, cases sb0) (simp add: sb_static_eq_def)
  ultimately show ?thesis
    using write_free_counts_raw[OF s l, of sb] m(1) f[of 56 2]
    by (simp add: sb_read_def dev_read_def Let_def flip: raw_def del: drop_append take_append)
qed

section \<open>The descriptor table on disk\<close>

text \<open>\<open>bg_home\<close> is the block that holds descriptor \<open>g\<close>; \<open>bgdt_fits\<close> says that the table's block
  numbers do not wrap.\<close>

definition bg_home :: "Superblock \<Rightarrow> nat \<Rightarrow> u32" where
  "bg_home sb g = sb_first_data_block sb + 1 + of_nat (g * 32 div block_size sb)"

definition bgdt_fits :: "Superblock \<Rightarrow> nat \<Rightarrow> bool" where
  "bgdt_fits sb n \<longleftrightarrow> unat (sb_first_data_block sb) + 1 + n < 2 ^ 32"

lemma bg_home_sector:
  assumes "bgdt_fits sb n" "b < n"
  shows "block_to_sector sb (bgdt_block sb) + of_nat b * of_nat (sectors_per_block sb) =
    block_to_sector sb (ucast (sb_first_data_block sb + 1 + of_nat b))"
proof -
  let ?f = "sb_first_data_block sb"
  have "unat (?f + 1) = unat ?f + 1" using assms by (simp add: bgdt_fits_def unat_word_ariths)
  moreover have "unat (?f + 1 + of_nat b) = unat ?f + 1 + b"
    using assms by (simp add: bgdt_fits_def unat_word_ariths unat_of_nat_less)
  ultimately have "(ucast (?f + 1 + of_nat b) :: u64) = ucast (?f + 1) + of_nat b"
    by (metis of_nat_add of_nat_unat)
  then show ?thesis by (simp add: block_to_sector_def bgdt_block_def algebra_simps)
qed

lemma nth_concat_const:
  assumes "\<And>x. x \<in> set xs \<Longrightarrow> length (f x) = c" "i < length xs * c" "0 < c"
  shows "concat (map f xs) ! i = f (xs ! (i div c)) ! (i mod c)"
  using assms
proof (induction xs arbitrary: i)
  case (Cons x xs)
  show ?case
  proof (cases "i < c")
    case False
    then have "i div c = Suc ((i - c) div c)" "i mod c = (i - c) mod c"
      using Cons.prems(3) by (simp_all add: le_div_geq le_mod_geq)
    then show ?thesis using False Cons by (simp add: nth_append)
  qed (use Cons in \<open>simp add: nth_append\<close>)
qed simp

lemma slice_concat_const:
  assumes "\<And>x. x \<in> set xs \<Longrightarrow> length (f x) = c" "a div c < length xs" "a mod c + n \<le> c" "0 < c"
  shows "take n (drop a (concat (map f xs))) = take n (drop (a mod c) (f (xs ! (a div c))))"
proof (rule nth_equalityI)
  have len: "length (concat (map f xs)) = length xs * c" using assms(1) by (rule length_concat_const)
  have fit: "a + n \<le> length xs * c"
  proof -
    have "a div c * c + a mod c = a" "Suc (a div c) * c = a div c * c + c" by simp_all
    then have "a + n \<le> Suc (a div c) * c" using assms(3) by linarith
    also have "\<dots> \<le> length xs * c" using assms(2) by (intro mult_le_mono) auto
    finally show ?thesis .
  qed
  have lf: "length (f (xs ! (a div c))) = c" using assms(1,2) by simp
  show "length (take n (drop a (concat (map f xs)))) = length (take n (drop (a mod c) (f (xs ! (a div c)))))"
    using fit assms(3) by (simp add: len lf)
  fix i assume "i < length (take n (drop a (concat (map f xs))))"
  then have i: "i < n" by simp
  have "(a + i) div c = a div c" "(a + i) mod c = a mod c + i"
  proof -
    have "a + i = (a mod c + i) + a div c * c" by simp
    moreover have "a mod c + i < c" using i assms(3) by linarith
    ultimately show "(a + i) div c = a div c" "(a + i) mod c = a mod c + i"
      by (simp_all only: div_mult_self1 mod_mult_self1 div_less mod_less)
  qed
  moreover have "concat (map f xs) ! (a + i) = f (xs ! ((a + i) div c)) ! ((a + i) mod c)"
    by (rule nth_concat_const[OF assms(1)]) (use i fit assms(4) in simp_all)
  ultimately show "take n (drop a (concat (map f xs))) ! i = take n (drop (a mod c) (f (xs ! (a div c)))) ! i"
    using i fit assms(3) len lf by simp
qed

lemma desc_offset:
  assumes "geom_ok sb"
  shows "g * 32 mod block_size sb + 32 \<le> block_size sb"
proof -
  obtain k where k: "block_size sb = 32 * k" "0 < k"
    using block_size_pow[OF assms] by (intro that[of "32 * 2 ^ unat (sb_log_block_size sb)"]) auto
  have "g mod k + 1 \<le> k" using k(2) by (simp add: Suc_le_eq)
  moreover have "g * 32 mod (32 * k) = 32 * (g mod k)" by (simp add: mult.commute mod_mult_mult1)
  ultimately show ?thesis using k(1) by simp
qed

text \<open>The table as the list of descriptors at their home blocks.\<close>

definition bg_at :: "disk \<Rightarrow> Superblock \<Rightarrow> nat \<Rightarrow> BgDesc" where
  "bg_at d sb g = bg_parse (take 32 (drop (g * 32 mod block_size sb) (read_block_bytes d sb (bg_home sb g))))"

lemma those_map_Some: "(\<And>x. x \<in> set xs \<Longrightarrow> f x = Some (g x)) \<Longrightarrow> those (map f xs) = Some (map g xs)"
  by (induction xs) auto

lemma bgdt_read_eq:
  assumes "disk_wf d" "geom_ok sb" "num_block_groups sb = Some n" "bgdt_fits sb (Suc n)"
  shows "bgdt_read d sb = Some (map (bg_at d sb) [0..<n])"
proof -
  let ?bsz = "block_size sb" and ?spb = "sectors_per_block sb"
  let ?k = "(n * 32 + ?bsz - 1) div ?bsz"
  let ?f = "\<lambda>blk. read_sectors d (block_to_sector sb (bgdt_block sb) + of_nat blk * of_nat ?spb) ?spb"
  have b0: "0 < ?bsz" "1024 \<le> ?bsz" using block_size_bounds[OF assms(2)] by simp_all
  have lf: "length (?f x) = ?bsz" for x by (simp add: length_read_sectors[OF assms(1)] block_size_spb[OF assms(2)])
  have kn: "?k \<le> n + 1"
  proof -
    have "n * 32 \<le> n * ?bsz" using b0 by (intro mult_le_mono) auto
    then have "?k \<le> (n * ?bsz + ?bsz) div ?bsz" by (intro div_le_mono) linarith
    then show ?thesis using b0 by simp
  qed
  have "slice (concat (map ?f [0..<?k])) (i * 32) (i * 32 + 32) =
      Some (take 32 (drop (i * 32 mod ?bsz) (read_block_bytes d sb (bg_home sb i))))" if i: "i < n" for i
  proof -
    have "i * 32 + ?bsz \<le> n * 32 + ?bsz - 1" using i b0 by linarith
    then have "(i * 32 + ?bsz) div ?bsz \<le> ?k" by (rule div_le_mono)
    moreover have "(i * 32 + ?bsz) div ?bsz = Suc (i * 32 div ?bsz)" using b0 by (simp add: div_add_self2)
    ultimately have blk: "i * 32 div ?bsz < ?k" by linarith
    have d: "i * 32 div ?bsz * ?bsz + i * 32 mod ?bsz = i * 32" by simp
    have "Suc (i * 32 div ?bsz) * ?bsz \<le> ?k * ?bsz" using blk by (intro mult_le_mono) auto
    moreover have "Suc (i * 32 div ?bsz) * ?bsz = ?bsz + i * 32 div ?bsz * ?bsz" by (rule mult_Suc)
    ultimately have "i * 32 + 32 \<le> ?k * ?bsz" using d desc_offset[OF assms(2), of i] by linarith
    then have "slice (concat (map ?f [0..<?k])) (i * 32) (i * 32 + 32) = Some (take 32 (drop (i * 32) (concat (map ?f [0..<?k]))))"
      using length_concat_const[of "[0..<?k]" ?f ?bsz] lf by (simp add: slice_def)
    also have "\<dots> = Some (take 32 (drop (i * 32 mod ?bsz) (?f ([0..<?k] ! (i * 32 div ?bsz)))))"
      using slice_concat_const[of "[0..<?k]" ?f ?bsz "i * 32" 32] lf blk desc_offset[OF assms(2)] b0 by simp
    also have "?f ([0..<?k] ! (i * 32 div ?bsz)) = read_block_bytes d sb (bg_home sb i)"
      using blk kn bg_home_sector[OF assms(4), of "i * 32 div ?bsz"] by (simp add: read_block_bytes_def bg_home_def)
    finally show ?thesis .
  qed
  then have "those (map (\<lambda>i. map_option bg_parse (slice (concat (map ?f [0..<?k])) (i * 32) (i * 32 + 32))) [0..<n]) =
      Some (map (bg_at d sb) [0..<n])"
    by (intro those_map_Some) (simp add: bg_at_def)
  then show ?thesis
    using assms(3) b0 by (simp add: bgdt_read_def udiv_def Let_def)
qed

lemma length_bg_fields [simp]: "length (bg_fields e) = 18"
  by (simp add: bg_fields_def)

lemma bg_parse_fields: "bg_parse (overlay dst 0 (bg_fields e)) = e"
  by (simp add: bg_parse_def overlay_def bg_fields_def drop_Cons' take_Cons')

text \<open>Writing one descriptor is writing its home block; every other descriptor keeps its bytes.\<close>

lemma write_entry_block:
  assumes "geom_ok sb" "disk_wf d" "g < length bgdt" "bgdt_fits sb n" "g < n"
  obtains data where "length data = block_size sb"
    "write_entry bgdt d sb g = write_block_bytes d sb (bg_home sb g) data"
    "data = overlay (read_block_bytes d sb (bg_home sb g)) (g * 32 mod block_size sb)
       (overlay (take 32 (drop (g * 32 mod block_size sb) (read_block_bytes d sb (bg_home sb g)))) 0 (bg_fields (bgdt ! g)))"
proof -
  let ?bsz = "block_size sb" and ?o = "g * 32 mod block_size sb"
  let ?blk = "read_block_bytes d sb (bg_home sb g)"
  have b0: "0 < ?bsz" "1024 \<le> ?bsz" using block_size_bounds[OF assms(1)] by simp_all
  have "g * 32 div ?bsz \<le> g * 32 div 32" using b0 by (intro div_le_mono2) auto
  then have "g * 32 div ?bsz < n" using assms(5) by simp
  then have sec: "block_to_sector sb (bgdt_block sb) + of_nat (g * 32 div ?bsz) * of_nat (sectors_per_block sb) =
      block_to_sector sb (ucast (bg_home sb g))"
    using bg_home_sector[OF assms(4)] by (simp add: bg_home_def)
  have lb: "length ?blk = ?bsz" using assms by simp
  let ?data = "overlay ?blk ?o (overlay (take 32 (drop ?o ?blk)) 0 (bg_fields (bgdt ! g)))"
  have l1: "length (overlay (take 32 (drop ?o ?blk)) 0 (bg_fields (bgdt ! g))) = 32"
    using desc_offset[OF assms(1), of g] lb by simp
  have ld: "length ?data = ?bsz" using desc_offset[OF assms(1), of g] lb l1 by simp
  have "write_entry bgdt d sb g = write_block_bytes d sb (bg_home sb g) ?data"
    using b0 assms(3) sec desc_offset[OF assms(1), of g] lb ld
    by (simp add: write_entry_def udiv_def Let_def index_at_Some slice_def write_block_Some[OF assms(1)]
        read_block_bytes_def)
  then show ?thesis using ld that by blast
qed

lemma desc_disjoint:
  assumes "geom_ok sb" "bgdt_fits sb n" "g < n" "h < n" "h \<noteq> g" "bg_home sb h = bg_home sb g"
  shows "h * 32 mod block_size sb + 32 \<le> g * 32 mod block_size sb \<or>
    g * 32 mod block_size sb + 32 \<le> h * 32 mod block_size sb"
proof -
  let ?bsz = "block_size sb"
  have small: "x * 32 div ?bsz < 2 ^ LENGTH(32)" if "x < n" for x
  proof -
    have "x * 32 div ?bsz \<le> x * 32 div 32"
      using block_size_bounds[OF assms(1)] by (intro div_le_mono2) auto
    then show ?thesis using that assms(2) by (simp add: bgdt_fits_def)
  qed
  have "(of_nat (h * 32 div ?bsz) :: u32) = of_nat (g * 32 div ?bsz)" using assms(6) by (simp add: bg_home_def)
  then have "unat (of_nat (h * 32 div ?bsz) :: u32) = unat (of_nat (g * 32 div ?bsz) :: u32)" by (rule arg_cong)
  then have q: "h * 32 div ?bsz = g * 32 div ?bsz"
    by (simp only: unat_of_nat_less[OF small[OF assms(3)]] unat_of_nat_less[OF small[OF assms(4)]])
  have "h * 32 div ?bsz * ?bsz + h * 32 mod ?bsz = h * 32" by (rule div_mult_mod_eq)
  moreover have "g * 32 div ?bsz * ?bsz + g * 32 mod ?bsz = g * 32" by (rule div_mult_mod_eq)
  ultimately show ?thesis using assms(5) unfolding q by linarith
qed

lemma write_entry_read:
  assumes "geom_ok sb" "disk_wf d" "g < length bgdt" "bgdt_fits sb n" "g < n" "has_block d sb (bg_home sb g)"
    and "write_entry bgdt d sb g = Some d'" "h < n"
  shows "bg_at d' sb h = (if h = g then bgdt ! g else bg_at d sb h)"
proof -
  let ?bsz = "block_size sb" and ?o = "\<lambda>g. g * 32 mod block_size sb"
  let ?blk = "read_block_bytes d sb (bg_home sb g)"
  obtain data where data: "length data = ?bsz" "write_block_bytes d sb (bg_home sb g) data = Some d'"
    "data = overlay ?blk (?o g) (overlay (take 32 (drop (?o g) ?blk)) 0 (bg_fields (bgdt ! g)))"
    using write_entry_block[OF assms(1-5)] assms(7) by metis
  have lb: "length ?blk = ?bsz" using assms by simp
  have l1: "length (overlay (take 32 (drop (?o g) ?blk)) 0 (bg_fields (bgdt ! g))) = 32"
    using desc_offset[OF assms(1), of g] lb by simp
  have rd: "read_block_bytes d' sb (bg_home sb g) = data"
    by (rule read_write_block[OF assms(1) data(1,2) assms(6)])
  consider "h = g" | "h \<noteq> g" "bg_home sb h = bg_home sb g" | "bg_home sb h \<noteq> bg_home sb g" by blast
  then show ?thesis
  proof cases
    case 1
    have "take 32 (drop (?o g) data) = overlay (take 32 (drop (?o g) ?blk)) 0 (bg_fields (bgdt ! g))"
      unfolding data(3) using l1 lb desc_offset[OF assms(1), of g] by (intro take_drop_overlay_same) simp_all
    then show ?thesis using 1 rd by (simp add: bg_at_def bg_parse_fields)
  next
    case 2
    have "?o h + 32 \<le> ?o g \<or> ?o g + 32 \<le> ?o h" using desc_disjoint[OF assms(1,4,5,8)] 2 by blast
    then have "take 32 (drop (?o h) data) = take 32 (drop (?o h) ?blk)"
      unfolding data(3) using l1 lb desc_offset[OF assms(1), of h] desc_offset[OF assms(1), of g]
      by (intro take_drop_overlay_other) simp_all
    then show ?thesis using 2 rd by (simp add: bg_at_def)
  next
    case 3
    then show ?thesis using write_block_other[OF assms(1) data(1,2), of "bg_home sb h"] by (auto simp: bg_at_def)
  qed
qed

end
