(* ===== verification/Ext2_Alloc.thy ===== *)
theory Ext2_Alloc
  imports Ext2_Disk
begin

text \<open>
  fs/src/ext2/bitmap_alloc.rs: the block and inode bitmaps. Each operation updates the
  bitmap block, the group descriptor and the superblock counters in memory and on disk.
\<close>

section \<open>Bitmaps\<close>

fun find_free_from :: "nat \<Rightarrow> bytes \<Rightarrow> nat option" where
  "find_free_from byte_idx [] = None"
| "find_free_from byte_idx (byte # bitmap) =
     (if byte \<noteq> 0xFF
      then case find (\<lambda>b. byte AND push_bit b 1 = 0) [0..<8] of
             Some b \<Rightarrow> Some (byte_idx * 8 + b)
           | None \<Rightarrow> find_free_from (byte_idx + 1) bitmap
      else find_free_from (byte_idx + 1) bitmap)"

definition find_free_bit :: "bytes \<Rightarrow> nat option" where
  "find_free_bit bitmap = find_free_from 0 bitmap"

definition bm_set_bit :: "bytes \<Rightarrow> nat \<Rightarrow> bytes option" where
  "bm_set_bit bitmap idx =
     do { b \<leftarrow> index_at bitmap (idx div 8); store_at bitmap (idx div 8) (b OR push_bit (idx mod 8) 1) }"

definition bm_clear_bit :: "bytes \<Rightarrow> nat \<Rightarrow> bytes option" where
  "bm_clear_bit bitmap idx =
     do { b \<leftarrow> index_at bitmap (idx div 8); store_at bitmap (idx div 8) (b AND NOT (push_bit (idx mod 8) 1)) }"

definition bm_read_block :: "disk \<Rightarrow> Superblock \<Rightarrow> u32 \<Rightarrow> bytes" where
  "bm_read_block dev sb blk = read_sectors dev (block_to_sector sb (ucast blk)) (sectors_per_block sb)"

definition bm_write_block :: "disk \<Rightarrow> Superblock \<Rightarrow> u32 \<Rightarrow> bytes \<Rightarrow> disk option" where
  "bm_write_block dev sb blk data =
     (if sectors_per_block sb * SECTOR \<le> length data
      then Some (write_sectors dev (block_to_sector sb (ucast blk)) (sectors_per_block sb) data)
      else None)"

section \<open>Allocation\<close>

record Ext2State =
  e_dev :: disk
  e_sb :: Superblock
  e_bgdt :: BgDescTable

text \<open>The tail shared by the four operations: the bitmap block, the descriptor of group \<open>g\<close> and
  the superblock counters are written, in this order.\<close>

definition bm_flush :: "Ext2State \<Rightarrow> u32 \<Rightarrow> bytes \<Rightarrow> nat \<Rightarrow> BgDesc \<Rightarrow> Superblock \<Rightarrow> Ext2State option" where
  "bm_flush e bitmap_blk bitmap g bg sb =
     do { dev \<leftarrow> bm_write_block (e_dev e) (e_sb e) bitmap_blk bitmap;
          bgdt \<leftarrow> store_at (e_bgdt e) g bg;
          dev \<leftarrow> write_entry bgdt dev (e_sb e) g;
          Some \<lparr> e_dev = write_free_counts sb dev, e_sb = sb, e_bgdt = bgdt \<rparr> }"

fun alloc_block_groups :: "nat list \<Rightarrow> Ext2State \<Rightarrow> (u32 option \<times> Ext2State) option" where
  "alloc_block_groups [] e = Some (None, e)"
| "alloc_block_groups (g # gs) e =
     do { bg \<leftarrow> bgdt_get (e_bgdt e) g;
          if bg_free_blocks bg = 0 then alloc_block_groups gs e
          else let bitmap = bm_read_block (e_dev e) (e_sb e) (bg_block_bitmap bg)
               in case find_free_bit bitmap of
                    None \<Rightarrow> alloc_block_groups gs e
                  | Some b \<Rightarrow>
                      do { bitmap \<leftarrow> bm_set_bit bitmap b;
                           let sb = e_sb e;
                           e' \<leftarrow> bm_flush e (bg_block_bitmap bg) bitmap g
                                  (bg\<lparr>bg_free_blocks := bg_free_blocks bg - 1\<rparr>)
                                  (sb\<lparr>sb_free_blocks := (if sb_free_blocks sb = 0 then 0 else sb_free_blocks sb - 1)\<rparr>);
                           Some (Some (of_nat g * sb_blocks_per_group sb + of_nat b), e') } }"

definition alloc_block :: "Ext2State \<Rightarrow> (u32 option \<times> Ext2State) option" where
  "alloc_block e = do { n \<leftarrow> num_block_groups (e_sb e); alloc_block_groups [0..<n] e }"

definition free_block :: "Ext2State \<Rightarrow> u32 \<Rightarrow> Ext2State option" where
  "free_block e block =
     do { let sb = e_sb e;
          g \<leftarrow> map_option unat (wdiv block (sb_blocks_per_group sb));
          bit_idx \<leftarrow> map_option unat (wmod block (sb_blocks_per_group sb));
          bg \<leftarrow> bgdt_get (e_bgdt e) g;
          bitmap \<leftarrow> bm_clear_bit (bm_read_block (e_dev e) sb (bg_block_bitmap bg)) bit_idx;
          bm_flush e (bg_block_bitmap bg) bitmap g
            (bg\<lparr>bg_free_blocks := bg_free_blocks bg + 1\<rparr>) (sb\<lparr>sb_free_blocks := sb_free_blocks sb + 1\<rparr>) }"

fun alloc_inode_groups :: "nat list \<Rightarrow> Ext2State \<Rightarrow> (u32 option \<times> Ext2State) option" where
  "alloc_inode_groups [] e = Some (None, e)"
| "alloc_inode_groups (g # gs) e =
     do { bg \<leftarrow> bgdt_get (e_bgdt e) g;
          if bg_free_inodes bg = 0 then alloc_inode_groups gs e
          else let bitmap = bm_read_block (e_dev e) (e_sb e) (bg_inode_bitmap bg)
               in case find_free_bit bitmap of
                    None \<Rightarrow> alloc_inode_groups gs e
                  | Some b \<Rightarrow>
                      do { bitmap \<leftarrow> bm_set_bit bitmap b;
                           let sb = e_sb e;
                           e' \<leftarrow> bm_flush e (bg_inode_bitmap bg) bitmap g
                                  (bg\<lparr>bg_free_inodes := bg_free_inodes bg - 1\<rparr>)
                                  (sb\<lparr>sb_free_inodes := (if sb_free_inodes sb = 0 then 0 else sb_free_inodes sb - 1)\<rparr>);
                           Some (Some (of_nat g * sb_inodes_per_group sb + of_nat b + 1), e') } }"

definition alloc_inode :: "Ext2State \<Rightarrow> (u32 option \<times> Ext2State) option" where
  "alloc_inode e = do { n \<leftarrow> num_block_groups (e_sb e); alloc_inode_groups [0..<n] e }"

definition free_inode :: "Ext2State \<Rightarrow> u32 \<Rightarrow> Ext2State option" where
  "free_inode e ino =
     do { let sb = e_sb e;
          g \<leftarrow> inode_block_group sb ino;
          bit_idx \<leftarrow> inode_local_index sb ino;
          bg \<leftarrow> bgdt_get (e_bgdt e) g;
          bitmap \<leftarrow> bm_clear_bit (bm_read_block (e_dev e) sb (bg_inode_bitmap bg)) bit_idx;
          bm_flush e (bg_inode_bitmap bg) bitmap g
            (bg\<lparr>bg_free_inodes := bg_free_inodes bg + 1\<rparr>) (sb\<lparr>sb_free_inodes := sb_free_inodes sb + 1\<rparr>) }"

lemma bm_read_block_eq [simp]: "bm_read_block = read_block_bytes"
  by (simp add: fun_eq_iff bm_read_block_def read_block_bytes_def)

lemma bm_write_block_eq [simp]: "bm_write_block = write_block_bytes"
  by (simp add: fun_eq_iff bm_write_block_def write_block_bytes_def)

section \<open>Bits\<close>

definition bm_bit :: "bytes \<Rightarrow> nat \<Rightarrow> bool" where
  "bm_bit bitmap i = bit (bitmap ! (i div 8)) (i mod 8)"

lemma byte_full: "(byte :: u8) = 0xFF \<longleftrightarrow> (\<forall>k < 8. bit byte k)"
proof -
  have m: "(0xFF :: u8) = mask 8" by (simp add: mask_eq_exp_minus_1)
  show ?thesis
  proof
    assume "\<forall>k < 8. bit byte k"
    then show "byte = 0xFF" unfolding m by (intro bit_word_eqI) (simp add: bit_mask_iff)
  qed (unfold m, simp add: bit_mask_iff)
qed

lemma find_append: "find P (xs @ ys) = (case find P xs of None \<Rightarrow> find P ys | Some x \<Rightarrow> Some x)"
  by (induction xs) auto

lemma find_map: "find P (map f xs) = map_option f (find (P \<circ> f) xs)"
  by (induction xs) auto

lemma find_cong_list: "(\<And>x. x \<in> set xs \<Longrightarrow> P x = Q x) \<Longrightarrow> find P xs = find Q xs"
  by (induction xs) auto

lemma find_free_from_eq:
  "find_free_from k bm = map_option (\<lambda>i. k * 8 + i) (find (\<lambda>i. \<not> bm_bit bm i) [0..<8 * length bm])"
proof (induction bm arbitrary: k)
  case (Cons b bm)
  have upt: "[0..<8 * length (b # bm)] = [0..<8] @ map (\<lambda>i. 8 + i) [0..<8 * length bm]"
    using upt_add_eq_append[of 0 8 "8 * length bm"] by (simp add: map_add_upt add.commute)
  have first: "find (\<lambda>i. \<not> bm_bit (b # bm) i) [0..<8] = find (\<lambda>i. b AND push_bit i 1 = 0) [0..<8]"
    by (rule find_cong_list) (simp add: bm_bit_def and_exp_eq_0_iff_not_bit)
  have rest: "find (\<lambda>i. \<not> bm_bit (b # bm) i) (map (\<lambda>i. 8 + i) [0..<8 * length bm]) =
      map_option (\<lambda>i. 8 + i) (find (\<lambda>i. \<not> bm_bit bm i) [0..<8 * length bm])"
    by (simp add: find_map comp_def bm_bit_def div_add_self1)
  have full: "find (\<lambda>i. b AND push_bit i 1 = 0) [0..<8] = None \<longleftrightarrow> b = 0xFF"
    by (simp add: find_None_iff and_exp_eq_0_iff_not_bit byte_full)
  show ?case
    unfolding upt find_append first rest
    using full Cons.IH[of "k + 1"]
    by (auto simp: option.map_comp comp_def ac_simps split: option.splits)
qed simp

text \<open>C28: The byte-wise scan of \<open>find_free_bit\<close>, which skips full bytes, finds the same bit as a
  plain scan of the bitmap from bit 0: the first clear bit, or none when all bits are set.\<close>

theorem find_free_bit_first_clear:
  "find_free_bit bm = find (\<lambda>i. \<not> bm_bit bm i) [0..<8 * length bm]"
  by (simp add: find_free_bit_def find_free_from_eq option.map_ident)

lemma find_free_bit_eq: "find_free_bit bm = find (\<lambda>i. \<not> bm_bit bm i) [0..<8 * length bm]"
  by (simp add: find_free_bit_def find_free_from_eq option.map_ident)

lemma find_free_bit_Some:
  "find_free_bit bm = Some i \<Longrightarrow> i < 8 * length bm \<and> \<not> bm_bit bm i \<and> (\<forall>j < i. bm_bit bm j)"
  by (auto simp: find_free_bit_eq find_Some_iff)

lemma bm_set_bit_Some:
  assumes "i < 8 * length bm"
  obtains bm' where "bm_set_bit bm i = Some bm'" "length bm' = length bm"
    "\<And>j. j < 8 * length bm \<Longrightarrow> bm_bit bm' j \<longleftrightarrow> j = i \<or> bm_bit bm j"
proof
  let ?bm = "bm[i div 8 := bm ! (i div 8) OR push_bit (i mod 8) 1]"
  have "i div 8 < length bm" using assms by simp
  then show "bm_set_bit bm i = Some ?bm" by (simp add: bm_set_bit_def index_at_def store_at_def)
  show "bm_bit ?bm j \<longleftrightarrow> j = i \<or> bm_bit bm j" if "j < 8 * length bm" for j
  proof (cases "j div 8 = i div 8")
    case True
    then have "j = i \<longleftrightarrow> j mod 8 = i mod 8" by (metis div_mult_mod_eq)
    then show ?thesis using True assms by (auto simp: bm_bit_def bit_simps)
  qed (auto simp: bm_bit_def)
qed simp

lemma bm_clear_bit_Some:
  assumes "i < 8 * length bm"
  obtains bm' where "bm_clear_bit bm i = Some bm'" "length bm' = length bm"
    "\<And>j. j < 8 * length bm \<Longrightarrow> bm_bit bm' j \<longleftrightarrow> j \<noteq> i \<and> bm_bit bm j"
proof
  let ?bm = "bm[i div 8 := bm ! (i div 8) AND NOT (push_bit (i mod 8) 1)]"
  have "i div 8 < length bm" using assms by simp
  then show "bm_clear_bit bm i = Some ?bm" by (simp add: bm_clear_bit_def index_at_def store_at_def)
  show "bm_bit ?bm j \<longleftrightarrow> j \<noteq> i \<and> bm_bit bm j" if "j < 8 * length bm" for j
  proof (cases "j div 8 = i div 8")
    case True
    then have "j = i \<longleftrightarrow> j mod 8 = i mod 8" by (metis div_mult_mod_eq)
    then show ?thesis using True assms by (auto simp: bm_bit_def bit_simps)
  qed (auto simp: bm_bit_def)
qed simp

section \<open>Layout\<close>

text \<open>
  A consistent volume: the superblock's block number agrees with the block size, the
  descriptor table does not wrap, and the bitmap blocks are distinct readable blocks
  outside the superblock and the descriptor table.
\<close>

definition meta_blocks :: "Ext2State \<Rightarrow> u32 set" where
  "meta_blocks e = insert (sb_blk (e_sb e)) (bg_home (e_sb e) ` {..<length (e_bgdt e)})"

definition bitmap_blocks :: "BgDescTable \<Rightarrow> u32 list" where
  "bitmap_blocks bgdt = map bg_block_bitmap bgdt @ map bg_inode_bitmap bgdt"

definition layout_ok :: "Ext2State \<Rightarrow> bool" where
  "layout_ok e \<longleftrightarrow>
     disk_wf (e_dev e) \<and> geom_ok (e_sb e) \<and> sb_first_data_block (e_sb e) = sb_blk (e_sb e) \<and>
     num_block_groups (e_sb e) = Some (length (e_bgdt e)) \<and> bgdt_fits (e_sb e) (Suc (length (e_bgdt e))) \<and>
     e_dev e 2 \<noteq> None \<and> e_dev e 3 \<noteq> None \<and>
     (\<forall>g < length (e_bgdt e). has_block (e_dev e) (e_sb e) (bg_home (e_sb e) g)) \<and>
     (\<forall>b \<in> set (bitmap_blocks (e_bgdt e)). has_block (e_dev e) (e_sb e) b) \<and>
     distinct (bitmap_blocks (e_bgdt e)) \<and> set (bitmap_blocks (e_bgdt e)) \<inter> meta_blocks e = {}"

definition synced :: "Ext2State \<Rightarrow> bool" where
  "synced e \<longleftrightarrow> sb_read (e_dev e) = Some (e_sb e) \<and> bgdt_read (e_dev e) (e_sb e) = Some (e_bgdt e)"

lemma layout_okD:
  assumes "layout_ok e"
  shows "disk_wf (e_dev e)" "geom_ok (e_sb e)" "sb_first_data_block (e_sb e) = sb_blk (e_sb e)"
    "num_block_groups (e_sb e) = Some (length (e_bgdt e))" "bgdt_fits (e_sb e) (Suc (length (e_bgdt e)))"
    "\<And>g. g < length (e_bgdt e) \<Longrightarrow> has_block (e_dev e) (e_sb e) (bg_home (e_sb e) g)"
    "\<And>b. b \<in> set (bitmap_blocks (e_bgdt e)) \<Longrightarrow> has_block (e_dev e) (e_sb e) b"
    "\<And>b. b \<in> set (bitmap_blocks (e_bgdt e)) \<Longrightarrow> b \<notin> meta_blocks e"
    "distinct (bitmap_blocks (e_bgdt e))"
  using assms unfolding layout_ok_def by blast+

lemma bg_home_not_sb:
  assumes "layout_ok e" "g < length (e_bgdt e)"
  shows "bg_home (e_sb e) g \<noteq> sb_blk (e_sb e)"
proof -
  let ?sb = "e_sb e" and ?q = "g * 32 div block_size (e_sb e)"
  have "?q \<le> g * 32 div 32"
    using assms(1) block_size_bounds[of ?sb] by (intro div_le_mono2) (auto simp: layout_ok_def)
  moreover have "unat (sb_first_data_block ?sb) + 1 + Suc (length (e_bgdt e)) < 2 ^ 32"
    using assms(1) unfolding layout_ok_def bgdt_fits_def by blast
  ultimately have "unat (sb_first_data_block ?sb) + 1 + ?q < 2 ^ 32" using assms(2) by simp
  then have "unat (bg_home ?sb g) = unat (sb_first_data_block ?sb) + 1 + ?q"
    by (simp add: bg_home_def unat_word_ariths unat_of_nat_less)
  moreover have "sb_first_data_block ?sb = sb_blk ?sb" using assms(1) by (simp add: layout_ok_def)
  ultimately show ?thesis by auto
qed

lemma bgdt_read_cong:
  assumes "disk_wf d" "disk_wf d'" "geom_ok sb" "num_block_groups sb = Some n" "bgdt_fits sb (Suc n)"
    "\<And>g. g < n \<Longrightarrow> bg_at d' sb g = bg_at d sb g"
  shows "bgdt_read d' sb = bgdt_read d sb"
  using assms by (simp add: bgdt_read_eq)

lemma bg_at_static: "sb_static_eq sb sb' \<Longrightarrow> bg_at d sb' = bg_at d sb" "sb_static_eq sb sb' \<Longrightarrow> bg_home sb' = bg_home sb"
  by (simp_all add: fun_eq_iff bg_at_def bg_home_def sb_static_geometry)

lemma bgdt_read_static: "sb_static_eq sb sb' \<Longrightarrow> bgdt_read d sb' = bgdt_read d sb"
  by (simp add: bgdt_read_def sb_static_geometry)

lemma has_block_cong: "(\<And>s. d' s = None \<longleftrightarrow> d s = None) \<Longrightarrow> has_block d' sb b = has_block d sb b"
  by (simp add: has_block_def)

text \<open>A write outside the metadata blocks leaves the superblock and the descriptors as they are.\<close>

lemma write_block_synced:
  assumes "layout_ok e" "length data = block_size (e_sb e)" "k \<notin> meta_blocks e"
    and "write_block_bytes (e_dev e) (e_sb e) k data = Some d'"
  shows "sb_read d' = sb_read (e_dev e)" "bgdt_read d' (e_sb e) = bgdt_read (e_dev e) (e_sb e)"
    "disk_wf d'" "\<And>s. d' s = None \<longleftrightarrow> e_dev e s = None"
    "\<And>g. g < length (e_bgdt e) \<Longrightarrow> bg_at d' (e_sb e) g = bg_at (e_dev e) (e_sb e) g"
proof -
  note L = layout_okD[OF assms(1)]
  have k: "k \<noteq> sb_blk (e_sb e)" "\<And>g. g < length (e_bgdt e) \<Longrightarrow> bg_home (e_sb e) g \<noteq> k"
    using assms(3) by (auto simp: meta_blocks_def)
  show wf: "disk_wf d'" by (rule write_block_wf[OF L(2) assms(2,4) L(1)])
  show "d' s = None \<longleftrightarrow> e_dev e s = None" for s by (rule write_block_dom[OF L(2) assms(2,4)])
  have "d' 2 = e_dev e 2" "d' 3 = e_dev e 3"
    by (rule write_block_other_sector[OF L(2) assms(2,4)], use sb_sector_block[OF L(2) _ k(1)] in metis)+
  then show "sb_read d' = sb_read (e_dev e)" by (rule sb_read_cong)
  show bg: "bg_at d' (e_sb e) g = bg_at (e_dev e) (e_sb e) g" if "g < length (e_bgdt e)" for g
    using write_block_other[OF L(2) assms(2,4) k(2)[OF that]] by (simp add: bg_at_def)
  show "bgdt_read d' (e_sb e) = bgdt_read (e_dev e) (e_sb e)"
    using bg by (intro bgdt_read_cong[OF L(1) wf L(2,4,5)])
qed

lemma layout_ok_update:
  assumes "layout_ok e" "disk_wf d" "\<And>s. d s = None \<longleftrightarrow> e_dev e s = None" "sb_static_eq (e_sb e) sb"
    and "length bgdt = length (e_bgdt e)" "bitmap_blocks bgdt = bitmap_blocks (e_bgdt e)"
  shows "layout_ok \<lparr>e_dev = d, e_sb = sb, e_bgdt = bgdt\<rparr>"
proof -
  have "bgdt_fits sb n = bgdt_fits (e_sb e) n" for n
    by (simp add: bgdt_fits_def sb_static_geometry[OF assms(4)])
  then show ?thesis
    using assms(1-3,5,6) unfolding layout_ok_def
    by (simp add: sb_static_geometry[OF assms(4)] bg_at_static[OF assms(4)] meta_blocks_def
        has_block_cong[of d "e_dev e"])
qed

lemma bitmap_blocks_update:
  assumes "bg_block_bitmap bg = bg_block_bitmap (bgdt ! g)" "bg_inode_bitmap bg = bg_inode_bitmap (bgdt ! g)"
  shows "bitmap_blocks (bgdt[g := bg]) = bitmap_blocks bgdt"
proof (cases "g < length bgdt")
  case True
  then show ?thesis unfolding bitmap_blocks_def map_update assms by (metis length_map list_update_id nth_map)
qed (simp add: list_update_beyond)

lemma bm_flush_ok:
  assumes "layout_ok e" "synced e" "g < length (e_bgdt e)" "k \<in> set (bitmap_blocks (e_bgdt e))"
    and "length bitmap = block_size (e_sb e)"
    and "bg_block_bitmap bg = bg_block_bitmap (e_bgdt e ! g)" "bg_inode_bitmap bg = bg_inode_bitmap (e_bgdt e ! g)"
    and "sb_static_eq (e_sb e) sb"
  obtains e' where "bm_flush e k bitmap g bg sb = Some e'" "layout_ok e'" "synced e'" "e_sb e' = sb"
    "e_bgdt e' = (e_bgdt e)[g := bg]" "\<And>s. e_dev e' s = None \<longleftrightarrow> e_dev e s = None"
    "\<And>j. j \<notin> meta_blocks e \<Longrightarrow>
       read_block_bytes (e_dev e') sb j = (if j = k then bitmap else read_block_bytes (e_dev e) (e_sb e) j)"
proof -
  note L = layout_okD[OF assms(1)]
  let ?sb = "e_sb e" and ?bgdt = "(e_bgdt e)[g := bg]" and ?n = "length (e_bgdt e)"
  have km: "k \<notin> meta_blocks e" by (rule L(8)[OF assms(4)])
  obtain d1 where d1: "write_block_bytes (e_dev e) ?sb k bitmap = Some d1"
    using write_block_Some[OF L(2) assms(5)] by blast
  note W = write_block_synced[OF assms(1,5) km d1]
  have g: "g < length ?bgdt" "g < Suc ?n" using assms(3) by simp_all
  have hb: "has_block d1 ?sb (bg_home ?sb g)"
    using L(6)[OF assms(3)] has_block_cong[of d1 "e_dev e" ?sb "bg_home ?sb g"] W(4) by simp
  obtain data where data: "length data = block_size ?sb"
    "write_entry ?bgdt d1 ?sb g = write_block_bytes d1 ?sb (bg_home ?sb g) data"
    using write_entry_block[OF L(2) W(3) g(1) L(5) g(2)] by metis
  obtain d2 where d2: "write_block_bytes d1 ?sb (bg_home ?sb g) data = Some d2"
    using write_block_Some[OF L(2) data(1)] by blast
  let ?d3 = "write_free_counts sb d2"
  have wf2: "disk_wf d2" by (rule write_block_wf[OF L(2) data(1) d2 W(3)])
  have wf3: "disk_wf ?d3" by (rule write_free_counts_wf[OF wf2])
  have "d2 2 = d1 2" "d2 3 = d1 3"
    by (rule write_block_other_sector[OF L(2) data(1) d2],
        use sb_sector_block[OF L(2) _ bg_home_not_sb[OF assms(1,3)]] in metis)+
  then have sb2: "sb_read d2 = Some ?sb"
    using sb_read_cong[of d2 d1] W(1) assms(2) by (simp add: synced_def)
  have bgdt0: "e_bgdt e = map (bg_at (e_dev e) ?sb) [0..<?n]"
    using assms(2) bgdt_read_eq[OF L(1,2,4,5)] by (simp add: synced_def)
  have "bg_at ?d3 ?sb h = ?bgdt ! h" if h: "h < ?n" for h
  proof -
    have "bg_at ?d3 ?sb h = bg_at d2 ?sb h"
      using write_free_counts_block[OF L(2) bg_home_not_sb[OF assms(1) h]] by (simp add: bg_at_def)
    also have "\<dots> = (if h = g then ?bgdt ! g else bg_at d1 ?sb h)"
      using h by (intro write_entry_read[OF L(2) W(3) g(1) L(5) g(2) hb]) (simp_all add: data(2) d2)
    also have "\<dots> = ?bgdt ! h"
      using W(5)[OF h] h arg_cong[OF bgdt0, of "\<lambda>t. t ! h"] by (simp add: nth_list_update)
    finally show ?thesis .
  qed
  then have bgdt3: "bgdt_read ?d3 ?sb = Some ?bgdt"
    unfolding bgdt_read_eq[OF wf3 L(2,4,5)] by (auto intro!: nth_equalityI)
  let ?e = "\<lparr>e_dev = ?d3, e_sb = sb, e_bgdt = ?bgdt\<rparr>"
  show thesis
  proof (rule that[of ?e])
    show "bm_flush e k bitmap g bg sb = Some ?e"
      using assms(3) d1 data(2) d2 by (simp add: bm_flush_def store_at_def)
    show dom: "e_dev ?e s = None \<longleftrightarrow> e_dev e s = None" for s
      using write_block_dom[OF L(2) data(1) d2, of s] W(4)[of s] by simp
    show "layout_ok ?e"
      using dom wf3 assms(8) bitmap_blocks_update[OF assms(6,7)]
      by (intro layout_ok_update[OF assms(1)]) simp_all
    show "synced ?e"
      using sb_read_free_counts[OF wf2 sb2 assms(8)] bgdt3 by (simp add: synced_def bgdt_read_static[OF assms(8)])
    show "read_block_bytes (e_dev ?e) sb j = (if j = k then bitmap else read_block_bytes (e_dev e) (e_sb e) j)"
      if "j \<notin> meta_blocks e" for j
    proof -
      have j: "j \<noteq> sb_blk ?sb" "j \<noteq> bg_home ?sb g" using that assms(3) by (auto simp: meta_blocks_def)
      have "read_block_bytes ?d3 ?sb j = read_block_bytes d1 ?sb j"
        using write_free_counts_block[OF L(2) j(1)] write_block_other[OF L(2) data(1) d2 j(2)] by simp
      then show ?thesis
        using read_write_block[OF L(2) assms(5) d1 L(7)[OF assms(4)]] write_block_other[OF L(2) assms(5) d1, of j]
        by (simp add: sb_static_geometry[OF assms(8)])
    qed
  qed simp_all
qed

section \<open>Slots in use\<close>

text \<open>
  Slot \<open>k\<close> of a bitmap kind (\<open>sel\<close> is the block or the inode bitmap of a descriptor) with \<open>per\<close>
  slots per group. The bits past the end of a group are set, as \<open>mke2fs\<close> writes them.
\<close>

definition slot_bitmap :: "(BgDesc \<Rightarrow> u32) \<Rightarrow> Ext2State \<Rightarrow> nat \<Rightarrow> bytes" where
  "slot_bitmap sel e g = read_block_bytes (e_dev e) (e_sb e) (sel (e_bgdt e ! g))"

definition slot_used :: "(BgDesc \<Rightarrow> u32) \<Rightarrow> nat \<Rightarrow> Ext2State \<Rightarrow> nat \<Rightarrow> bool" where
  "slot_used sel per e k \<longleftrightarrow>
     k div per < length (e_bgdt e) \<and> bm_bit (slot_bitmap sel e (k div per)) (k mod per)"

definition padded :: "(BgDesc \<Rightarrow> u32) \<Rightarrow> nat \<Rightarrow> Ext2State \<Rightarrow> bool" where
  "padded sel per e \<longleftrightarrow>
     0 < per \<and> per \<le> 8 * block_size (e_sb e) \<and> length (e_bgdt e) * per < 2 ^ 32 \<and>
     (\<forall>g < length (e_bgdt e). \<forall>i. per \<le> i \<and> i < 8 * block_size (e_sb e) \<longrightarrow> bm_bit (slot_bitmap sel e g) i)"

definition volume_ok :: "Ext2State \<Rightarrow> bool" where
  "volume_ok e \<longleftrightarrow> layout_ok e \<and> synced e \<and>
     padded bg_block_bitmap (unat (sb_blocks_per_group (e_sb e))) e \<and>
     padded bg_inode_bitmap (unat (sb_inodes_per_group (e_sb e))) e"

definition used_blocks :: "Ext2State \<Rightarrow> u32 set" where
  "used_blocks e = {b. slot_used bg_block_bitmap (unat (sb_blocks_per_group (e_sb e))) e (unat b)}"

definition used_inodes :: "Ext2State \<Rightarrow> u32 set" where
  "used_inodes e = {i. slot_used bg_inode_bitmap (unat (sb_inodes_per_group (e_sb e))) e (unat (i - 1))}"

lemma sel_cases:
  assumes "sel \<in> {bg_block_bitmap, bg_inode_bitmap}"
  obtains "sel = bg_block_bitmap" | "sel = bg_inode_bitmap"
  using assms by blast

lemma sel_neq [simp]:
  "bg_inode_bitmap \<noteq> (bg_block_bitmap :: BgDesc \<Rightarrow> u32)" "bg_block_bitmap \<noteq> (bg_inode_bitmap :: BgDesc \<Rightarrow> u32)"
proof -
  let ?bg = "\<lparr>bg_block_bitmap = 0, bg_inode_bitmap = 1, bg_inode_table = 0, bg_free_blocks = 0, bg_free_inodes = 0, bg_used_dirs = 0\<rparr>"
  have "bg_inode_bitmap ?bg \<noteq> bg_block_bitmap ?bg" by simp
  then show "bg_inode_bitmap \<noteq> (bg_block_bitmap :: BgDesc \<Rightarrow> u32)" "bg_block_bitmap \<noteq> (bg_inode_bitmap :: BgDesc \<Rightarrow> u32)"
    by metis+
qed

lemma sel_in_bitmaps:
  "sel \<in> {bg_block_bitmap, bg_inode_bitmap} \<Longrightarrow> g < length bgdt \<Longrightarrow> sel (bgdt ! g) \<in> set (bitmap_blocks bgdt)"
  by (auto simp: bitmap_blocks_def)

lemma sel_distinct:
  assumes "distinct (bitmap_blocks bgdt)" "sel \<in> {bg_block_bitmap, bg_inode_bitmap}"
    "sel' \<in> {bg_block_bitmap, bg_inode_bitmap}" "g < length bgdt" "h < length bgdt" "sel (bgdt ! g) = sel' (bgdt ! h)"
  shows "sel = sel' \<and> g = h"
proof -
  have d: "distinct (map bg_block_bitmap bgdt)" "distinct (map bg_inode_bitmap bgdt)"
    "set (map bg_block_bitmap bgdt) \<inter> set (map bg_inode_bitmap bgdt) = {}"
    using assms(1) by (simp_all add: bitmap_blocks_def)
  have ne: "bg_block_bitmap (bgdt ! a) \<noteq> bg_inode_bitmap (bgdt ! b)" if "a < length bgdt" "b < length bgdt" for a b
    using d(3) that by (metis disjoint_iff imageI list.set_map nth_mem)
  have inj: "a = b" if "bg_block_bitmap (bgdt ! a) = bg_block_bitmap (bgdt ! b) \<or> bg_inode_bitmap (bgdt ! a) = bg_inode_bitmap (bgdt ! b)"
    "a < length bgdt" "b < length bgdt" for a b
    using that d(1,2) by (auto simp: distinct_conv_nth)
  show ?thesis using assms(2-6) ne[OF assms(4,5)] ne[OF assms(5,4)] inj[OF _ assms(4,5)] by auto
qed

lemma bm_flush_slots:
  assumes "layout_ok e" "synced e" "g < length (e_bgdt e)" "sel \<in> {bg_block_bitmap, bg_inode_bitmap}"
    and "length bitmap = block_size (e_sb e)"
    and "bg_block_bitmap bg = bg_block_bitmap (e_bgdt e ! g)" "bg_inode_bitmap bg = bg_inode_bitmap (e_bgdt e ! g)"
    and "sb_static_eq (e_sb e) sb"
  obtains e' where "bm_flush e (sel (e_bgdt e ! g)) bitmap g bg sb = Some e'" "layout_ok e'" "synced e'"
    "e_sb e' = sb" "length (e_bgdt e') = length (e_bgdt e)"
    "\<And>s. e_dev e' s = None \<longleftrightarrow> e_dev e s = None"
    "\<And>j. j \<notin> meta_blocks e \<Longrightarrow> j \<notin> set (bitmap_blocks (e_bgdt e)) \<Longrightarrow>
       read_block_bytes (e_dev e') sb j = read_block_bytes (e_dev e) (e_sb e) j"
    "\<And>sel' h. sel' \<in> {bg_block_bitmap, bg_inode_bitmap} \<Longrightarrow> h < length (e_bgdt e) \<Longrightarrow>
       slot_bitmap sel' e' h = (if sel' = sel \<and> h = g then bitmap else slot_bitmap sel' e h)"
    "e_bgdt e' = (e_bgdt e)[g := bg]"
proof -
  note L = layout_okD[OF assms(1)]
  have k: "sel (e_bgdt e ! g) \<in> set (bitmap_blocks (e_bgdt e))" by (rule sel_in_bitmaps[OF assms(4,3)])
  obtain e' where e': "bm_flush e (sel (e_bgdt e ! g)) bitmap g bg sb = Some e'" "layout_ok e'" "synced e'"
    "e_sb e' = sb" "e_bgdt e' = (e_bgdt e)[g := bg]" "\<And>s. e_dev e' s = None \<longleftrightarrow> e_dev e s = None"
    and rd: "\<And>j. j \<notin> meta_blocks e \<Longrightarrow> read_block_bytes (e_dev e') sb j =
       (if j = sel (e_bgdt e ! g) then bitmap else read_block_bytes (e_dev e) (e_sb e) j)"
    using bm_flush_ok[OF assms(1-3) k assms(5-8)] by blast
  have "slot_bitmap sel' e' h = (if sel' = sel \<and> h = g then bitmap else slot_bitmap sel' e h)"
    if "sel' \<in> {bg_block_bitmap, bg_inode_bitmap}" "h < length (e_bgdt e)" for sel' h
  proof -
    have "sel' (e_bgdt e' ! h) = sel' (e_bgdt e ! h)"
      using that assms(3,6,7) e'(5) by (cases "h = g") auto
    moreover have "sel' (e_bgdt e ! h) \<notin> meta_blocks e" by (rule L(8)[OF sel_in_bitmaps[OF that]])
    ultimately show ?thesis
      using rd sel_distinct[OF L(9) that(1) assms(4) that(2) assms(3)] e'(4) by (auto simp: slot_bitmap_def)
  qed
  moreover have "read_block_bytes (e_dev e') sb j = read_block_bytes (e_dev e) (e_sb e) j"
    if "j \<notin> meta_blocks e" "j \<notin> set (bitmap_blocks (e_bgdt e))" for j
    using rd[OF that(1)] k that(2) by auto
  ultimately show thesis using that[of e'] e' by simp
qed

lemma slot_split:
  assumes "i < per" "k = g * per + (i :: nat)"
  shows "k div per = g" "k mod per = i"
  using assms by simp_all

text \<open>The common effect of the four operations on the slots in use.\<close>

lemma flush_used:
  assumes "volume_ok e" "g < length (e_bgdt e)" "sel \<in> {bg_block_bitmap, bg_inode_bitmap}"
    and "per = unat (if sel = bg_block_bitmap then sb_blocks_per_group (e_sb e) else sb_inodes_per_group (e_sb e))"
    and "length bitmap = block_size (e_sb e)" "i < per"
    and "\<And>j. j < 8 * block_size (e_sb e) \<Longrightarrow> bm_bit bitmap j \<longleftrightarrow> (if j = i then v else bm_bit (slot_bitmap sel e g) j)"
    and "bg_block_bitmap bg = bg_block_bitmap (e_bgdt e ! g)" "bg_inode_bitmap bg = bg_inode_bitmap (e_bgdt e ! g)"
    and "sb_static_eq (e_sb e) sb"
  obtains e' where "bm_flush e (sel (e_bgdt e ! g)) bitmap g bg sb = Some e'" "volume_ok e'" "e_sb e' = sb"
    "length (e_bgdt e') = length (e_bgdt e)"
    "\<And>k. slot_used sel per e' k = (if k = g * per + i then v else slot_used sel per e k)"
    "\<And>sel' p k. sel' \<in> {bg_block_bitmap, bg_inode_bitmap} \<Longrightarrow> sel' \<noteq> sel \<Longrightarrow> slot_used sel' p e' k = slot_used sel' p e k"
    "\<And>j. j \<notin> meta_blocks e \<Longrightarrow> j \<notin> set (bitmap_blocks (e_bgdt e)) \<Longrightarrow>
       read_block_bytes (e_dev e') sb j = read_block_bytes (e_dev e) (e_sb e) j"
    "\<And>s. e_dev e' s = None \<longleftrightarrow> e_dev e s = None" "e_bgdt e' = (e_bgdt e)[g := bg]"
proof -
  have V: "layout_ok e" "synced e" "padded bg_block_bitmap (unat (sb_blocks_per_group (e_sb e))) e"
    "padded bg_inode_bitmap (unat (sb_inodes_per_group (e_sb e))) e" using assms(1) by (simp_all add: volume_ok_def)
  have P: "padded sel per e" using V assms(3,4) by auto
  obtain e' where e': "bm_flush e (sel (e_bgdt e ! g)) bitmap g bg sb = Some e'" "layout_ok e'" "synced e'"
    "e_sb e' = sb" "length (e_bgdt e') = length (e_bgdt e)" "\<And>s. e_dev e' s = None \<longleftrightarrow> e_dev e s = None"
    "\<And>j. j \<notin> meta_blocks e \<Longrightarrow> j \<notin> set (bitmap_blocks (e_bgdt e)) \<Longrightarrow>
       read_block_bytes (e_dev e') sb j = read_block_bytes (e_dev e) (e_sb e) j"
    "e_bgdt e' = (e_bgdt e)[g := bg]"
    and bm: "\<And>sel' h. sel' \<in> {bg_block_bitmap, bg_inode_bitmap} \<Longrightarrow> h < length (e_bgdt e) \<Longrightarrow>
       slot_bitmap sel' e' h = (if sel' = sel \<and> h = g then bitmap else slot_bitmap sel' e h)"
    using bm_flush_slots[OF V(1,2) assms(2,3,5,8,9,10)] by blast
  have per: "0 < per" "per \<le> 8 * block_size (e_sb e)" using P by (simp_all add: padded_def)
  have own: "slot_used sel per e' k = (if k = g * per + i then v else slot_used sel per e k)" for k
  proof (cases "k div per = g")
    case True
    have "k mod per < 8 * block_size (e_sb e)" using per by (meson mod_less_divisor order_less_le_trans)
    moreover have "k mod per = i \<longleftrightarrow> k = g * per + i"
      using slot_split(2)[OF assms(6)] True div_mult_mod_eq[of k per] by metis
    ultimately show ?thesis using True bm[OF assms(3,2)] assms(2,7) e'(5) by (simp add: slot_used_def)
  next
    case False
    then have "k \<noteq> g * per + i" using slot_split[OF assms(6)] by blast
    then show ?thesis using False bm[OF assms(3)] e'(5) by (auto simp: slot_used_def)
  qed
  have other: "slot_used sel' p e' k = slot_used sel' p e k"
    if "sel' \<in> {bg_block_bitmap, bg_inode_bitmap}" "sel' \<noteq> sel" for sel' p k
    using bm[OF that(1)] that(2) e'(5) by (auto simp: slot_used_def)
  have pad: "padded sel' p e'" if "sel' \<in> {bg_block_bitmap, bg_inode_bitmap}" "padded sel' p e" "sel' = sel \<Longrightarrow> p = per" for sel' p
    using that bm[OF that(1)] e'(4,5) assms(6,7) sb_static_geometry(7)[OF assms(10)] by (auto simp: padded_def)
  have "volume_ok e'"
    using e'(2-4) pad[of bg_block_bitmap] pad[of bg_inode_bitmap] V(3,4) assms(4)
    by (auto simp: volume_ok_def sb_static_geometry[OF assms(10)])
  then show thesis using that e' own other by blast
qed

section \<open>The allocator contract\<close>

text \<open>
  What a client of an allocator relies on: it never panics on a consistent state, hands
  out only names that are not in use, and \<open>free\<close> releases exactly the given name.
\<close>

locale slot_allocator =
  fixes ok :: "'s \<Rightarrow> bool" and used :: "'s \<Rightarrow> 'k set"
    and alloc :: "'s \<Rightarrow> ('k option \<times> 's) option" and free :: "'s \<Rightarrow> 'k \<Rightarrow> 's option"
  assumes alloc_total: "ok s \<Longrightarrow> alloc s \<noteq> None"
    and alloc_fresh: "ok s \<Longrightarrow> alloc s = Some (Some k, s') \<Longrightarrow> k \<notin> used s \<and> used s' = insert k (used s) \<and> ok s'"
    and alloc_fail: "ok s \<Longrightarrow> alloc s = Some (None, s') \<Longrightarrow> s' = s"
    and free_used: "ok s \<Longrightarrow> k \<in> used s \<Longrightarrow> \<exists>s'. free s k = Some s' \<and> used s' = used s - {k} \<and> ok s'"
begin

lemma alloc_then_free:
  assumes "ok s" "alloc s = Some (Some k, s')"
  shows "\<exists>s''. free s' k = Some s'' \<and> used s'' = used s \<and> ok s''"
  using alloc_fresh[OF assms] free_used[of s' k] by auto

lemma alloc_disjoint:
  assumes "ok s" "alloc s = Some (Some k, s1)" "alloc s1 = Some (Some k', s2)"
  shows "k \<noteq> k' \<and> k \<in> used s2 \<and> k' \<in> used s2"
  using alloc_fresh[OF assms(1,2)] alloc_fresh[of s1 k' s2] assms(3) by auto

end

text \<open>\<open>alloc_many\<close> takes up to \<open>n\<close> names.\<close>

primrec alloc_many :: "('s \<Rightarrow> ('k option \<times> 's) option) \<Rightarrow> nat \<Rightarrow> 's \<Rightarrow> ('k list \<times> 's) option" where
  "alloc_many al 0 s = Some ([], s)"
| "alloc_many al (Suc n) s =
     (case al s of
        Some (Some k, s') \<Rightarrow> map_option (\<lambda>(ks, s''). (k # ks, s'')) (alloc_many al n s')
      | Some (None, s') \<Rightarrow> Some ([], s')
      | None \<Rightarrow> None)"

context slot_allocator
begin

lemma alloc_many_distinct:
  assumes "ok s"
  shows "\<exists>ks s'. alloc_many alloc n s = Some (ks, s') \<and> distinct ks \<and> set ks \<inter> used s = {} \<and>
    used s' = set ks \<union> used s \<and> ok s'"
  using assms
proof (induction n arbitrary: s)
  case (Suc n)
  obtain r s1 where r: "alloc s = Some (r, s1)" using alloc_total[OF Suc.prems] by auto
  show ?case
  proof (cases r)
    case None
    then show ?thesis using alloc_fail[OF Suc.prems, of s1] r Suc.prems by auto
  next
    case (Some k)
    then have k: "k \<notin> used s" "used s1 = insert k (used s)" "ok s1"
      using alloc_fresh[OF Suc.prems] r by auto
    then obtain ks s' where "alloc_many alloc n s1 = Some (ks, s')" "distinct ks" "set ks \<inter> used s1 = {}"
      "used s' = set ks \<union> used s1" "ok s'" using Suc.IH[OF k(3)] by auto
    then show ?thesis using Some r k by auto
  qed
qed simp

end

section \<open>The bitmaps implement the contract\<close>

lemma group_slot_unat:
  assumes "padded sel (unat (per :: u32)) e" "g < length (e_bgdt e)" "i < unat per"
  shows "unat (of_nat g * per + of_nat i) = g * unat per + i"
proof -
  have "Suc g * unat per \<le> length (e_bgdt e) * unat per" using assms(2) by (intro mult_le_mono) auto
  then have "g * unat per + i < 2 ^ LENGTH(32)" using assms by (simp add: padded_def)
  then have "unat (of_nat (g * unat per + i) :: u32) = g * unat per + i" by (rule unat_of_nat_less)
  then show ?thesis by simp
qed

text \<open>One group of an allocation: the bit found is free, in range, and the flush sets it.\<close>

lemma alloc_group:
  assumes "volume_ok e" "g < length (e_bgdt e)" "sel \<in> {bg_block_bitmap, bg_inode_bitmap}"
    and "per = (if sel = bg_block_bitmap then sb_blocks_per_group (e_sb e) else sb_inodes_per_group (e_sb e))"
    and "find_free_bit (slot_bitmap sel e g) = Some i"
    and "bg_block_bitmap bg = bg_block_bitmap (e_bgdt e ! g)" "bg_inode_bitmap bg = bg_inode_bitmap (e_bgdt e ! g)"
    and "sb_static_eq (e_sb e) sb"
  obtains bm e' where "bm_set_bit (slot_bitmap sel e g) i = Some bm"
    "bm_flush e (sel (e_bgdt e ! g)) bm g bg sb = Some e'" "volume_ok e'" "e_sb e' = sb"
    "unat (of_nat g * per + of_nat i) = g * unat per + i" "unat (of_nat g * per + of_nat i) < 2 ^ 32 - 1"
    "\<not> slot_used sel (unat per) e (g * unat per + i)"
    "\<And>k. slot_used sel (unat per) e' k \<longleftrightarrow> k = g * unat per + i \<or> slot_used sel (unat per) e k"
    "\<And>sel' p k. sel' \<in> {bg_block_bitmap, bg_inode_bitmap} \<Longrightarrow> sel' \<noteq> sel \<Longrightarrow> slot_used sel' p e' k = slot_used sel' p e k"
    "\<And>j. j \<notin> meta_blocks e \<Longrightarrow> j \<notin> set (bitmap_blocks (e_bgdt e)) \<Longrightarrow>
       read_block_bytes (e_dev e') sb j = read_block_bytes (e_dev e) (e_sb e) j"
    "\<And>s. e_dev e' s = None \<longleftrightarrow> e_dev e s = None" "e_bgdt e' = (e_bgdt e)[g := bg]"
proof -
  have V: "layout_ok e" "padded sel (unat per) e" using assms(1,3,4) by (auto simp: volume_ok_def)
  have len: "length (slot_bitmap sel e g) = block_size (e_sb e)"
    using layout_okD(1,2)[OF V(1)] by (simp add: slot_bitmap_def)
  note F = find_free_bit_Some[OF assms(5), unfolded len]
  have i: "i < unat per" using F V(2) assms(2) unfolding padded_def by (meson not_less)
  obtain bm where bm: "bm_set_bit (slot_bitmap sel e g) i = Some bm" "length bm = block_size (e_sb e)"
    "\<And>j. j < 8 * block_size (e_sb e) \<Longrightarrow> bm_bit bm j \<longleftrightarrow> j = i \<or> bm_bit (slot_bitmap sel e g) j"
    using bm_set_bit_Some[of i "slot_bitmap sel e g"] F len by metis
  have eq: "\<And>j. j < 8 * block_size (e_sb e) \<Longrightarrow> bm_bit bm j \<longleftrightarrow> (if j = i then True else bm_bit (slot_bitmap sel e g) j)"
    using bm(3) by simp
  have fresh: "\<not> slot_used sel (unat per) e (g * unat per + i)"
    using F i by (simp add: slot_used_def)
  have num: "unat (of_nat g * per + of_nat i) = g * unat per + i" by (rule group_slot_unat[OF V(2) assms(2) i])
  have "Suc g * unat per \<le> length (e_bgdt e) * unat per" using assms(2) by (intro mult_le_mono) auto
  then have lim: "g * unat per + i < 2 ^ 32 - 1" using i V(2) by (simp add: padded_def)
  have perw: "unat per = unat (if sel = bg_block_bitmap then sb_blocks_per_group (e_sb e) else sb_inodes_per_group (e_sb e))"
    by (simp add: assms(4))
  show thesis
    by (rule flush_used[OF assms(1-3) perw bm(2) i eq assms(6-8)], blast, erule that[OF bm(1)])
      (auto simp: fresh num lim[simplified])
qed

definition alloc_post :: "Ext2State \<Rightarrow> u32 option \<Rightarrow> Ext2State \<Rightarrow> (Ext2State \<Rightarrow> u32 set) \<Rightarrow> (Ext2State \<Rightarrow> u32 set) \<Rightarrow> bool" where
  "alloc_post e r e' mine others \<longleftrightarrow>
     (case r of
        None \<Rightarrow> e' = e
      | Some k \<Rightarrow> k \<notin> mine e \<and> mine e' = insert k (mine e) \<and> others e' = others e \<and> volume_ok e' \<and>
          sb_static_eq (e_sb e) (e_sb e') \<and> (\<forall>s. e_dev e' s = None \<longleftrightarrow> e_dev e s = None) \<and>
          map bg_inode_table (e_bgdt e') = map bg_inode_table (e_bgdt e) \<and>
          bitmap_blocks (e_bgdt e') = bitmap_blocks (e_bgdt e) \<and>
          (\<forall>g < length (e_bgdt e). unat (bg_free_blocks (e_bgdt e ! g)) \<le> Suc (unat (bg_free_blocks (e_bgdt e' ! g)))) \<and>
          (\<forall>j. j \<notin> meta_blocks e \<longrightarrow> j \<notin> set (bitmap_blocks (e_bgdt e)) \<longrightarrow>
             read_block_bytes (e_dev e') (e_sb e) j = read_block_bytes (e_dev e) (e_sb e) j))"

lemma alloc_post_slots:
  assumes "volume_ok e'" "e_sb e' = sb" "sb_static_eq (e_sb e) sb" "\<And>s. e_dev e' s = None \<longleftrightarrow> e_dev e s = None"
    and "\<And>j. j \<notin> meta_blocks e \<Longrightarrow> j \<notin> set (bitmap_blocks (e_bgdt e)) \<Longrightarrow>
       read_block_bytes (e_dev e') sb j = read_block_bytes (e_dev e) (e_sb e) j"
    and "e_bgdt e' = (e_bgdt e)[g := bg]" "bg_block_bitmap bg = bg_block_bitmap (e_bgdt e ! g)"
    "bg_inode_bitmap bg = bg_inode_bitmap (e_bgdt e ! g)" "bg_inode_table bg = bg_inode_table (e_bgdt e ! g)"
    and "unat (bg_free_blocks (e_bgdt e ! g)) \<le> Suc (unat (bg_free_blocks bg))"
    and "k \<notin> mine e" "mine e' = insert k (mine e)" "others e' = others e"
  shows "alloc_post e (Some k) e' mine others"
proof -
  have "map bg_inode_table (e_bgdt e') = map bg_inode_table (e_bgdt e)"
    using assms(6,9) by (metis list_update_beyond list_update_id map_update not_less nth_map length_map)
  moreover have "unat (bg_free_blocks (e_bgdt e ! h)) \<le> Suc (unat (bg_free_blocks (e_bgdt e' ! h)))"
    if "h < length (e_bgdt e)" for h
    using that assms(6,10) by (cases "h = g") simp_all
  ultimately show ?thesis
    using assms bitmap_blocks_update[OF assms(7,8)] by (simp add: alloc_post_def sb_static_geometry[OF assms(3)])
qed

lemma unat_dec: "(w :: u16) \<noteq> 0 \<Longrightarrow> unat w = Suc (unat (w - 1))"
  by (simp add: unat_minus_one unat_gt_0)

lemma alloc_block_groups_ok:
  assumes "volume_ok e" "set gs \<subseteq> {..<length (e_bgdt e)}"
  shows "\<exists>r e'. alloc_block_groups gs e = Some (r, e') \<and> alloc_post e r e' used_blocks used_inodes"
  using assms(2)
proof (induction gs)
  case Nil
  then show ?case by (simp add: alloc_post_def)
next
  case (Cons g gs)
  let ?bg = "e_bgdt e ! g" and ?sb = "e_sb e"
  have g: "g < length (e_bgdt e)" using Cons.prems by simp
  have IH: "\<exists>r e'. alloc_block_groups gs e = Some (r, e') \<and> alloc_post e r e' used_blocks used_inodes"
    using Cons by simp
  show ?case
  proof (cases "bg_free_blocks ?bg = 0 \<or> find_free_bit (slot_bitmap bg_block_bitmap e g) = None")
    case True
    then have "alloc_block_groups (g # gs) e = alloc_block_groups gs e"
      using g by (auto simp: bgdt_get_def index_at_def slot_bitmap_def)
    then show ?thesis using IH by simp
  next
    case False
    then obtain i where i: "find_free_bit (slot_bitmap bg_block_bitmap e g) = Some i" by auto
    let ?bg' = "?bg\<lparr>bg_free_blocks := bg_free_blocks ?bg - 1\<rparr>"
    let ?sb' = "?sb\<lparr>sb_free_blocks := (if sb_free_blocks ?sb = 0 then 0 else sb_free_blocks ?sb - 1)\<rparr>"
    let ?per = "sb_blocks_per_group ?sb"
    let ?k = "of_nat g * ?per + of_nat i :: u32"
    obtain bm e' where *: "bm_set_bit (slot_bitmap bg_block_bitmap e g) i = Some bm"
        "bm_flush e (bg_block_bitmap ?bg) bm g ?bg' ?sb' = Some e'"
      and v: "volume_ok e'" "e_sb e' = ?sb'" and k: "unat ?k = g * unat ?per + i"
        "\<not> slot_used bg_block_bitmap (unat ?per) e (g * unat ?per + i)"
        "\<And>k. slot_used bg_block_bitmap (unat ?per) e' k \<longleftrightarrow> k = g * unat ?per + i \<or> slot_used bg_block_bitmap (unat ?per) e k"
      and o: "\<And>p k. slot_used bg_inode_bitmap p e' k = slot_used bg_inode_bitmap p e k"
      and rest: "\<And>j. j \<notin> meta_blocks e \<Longrightarrow> j \<notin> set (bitmap_blocks (e_bgdt e)) \<Longrightarrow>
         read_block_bytes (e_dev e') ?sb' j = read_block_bytes (e_dev e) ?sb j"
        "\<And>s. e_dev e' s = None \<longleftrightarrow> e_dev e s = None" "e_bgdt e' = (e_bgdt e)[g := ?bg']"
      by (rule alloc_group[OF assms(1) g, of bg_block_bitmap ?per i ?bg' ?sb', OF _ _ i]) auto
    have "alloc_block_groups (g # gs) e = Some (Some ?k, e')"
      using False g i * by (simp add: bgdt_get_def index_at_def slot_bitmap_def)
    moreover have "alloc_post e (Some ?k) e' used_blocks used_inodes"
    proof (rule alloc_post_slots[OF v(1,2) _ rest(2,1,3)])
      show "?k \<notin> used_blocks e" using k(1,2) by (simp add: used_blocks_def)
      show "used_blocks e' = insert ?k (used_blocks e)"
        using k v(2) by (auto simp: used_blocks_def word_unat_eq_iff)
      show "used_inodes e' = used_inodes e" using o v(2) by (simp add: used_inodes_def)
      show "unat (bg_free_blocks ?bg) \<le> Suc (unat (bg_free_blocks ?bg'))"
        using False unat_dec[of "bg_free_blocks ?bg"] by simp
    qed simp_all
    ultimately show ?thesis by blast
  qed
qed

lemma alloc_inode_groups_ok:
  assumes "volume_ok e" "set gs \<subseteq> {..<length (e_bgdt e)}"
  shows "\<exists>r e'. alloc_inode_groups gs e = Some (r, e') \<and> alloc_post e r e' used_inodes used_blocks"
  using assms(2)
proof (induction gs)
  case Nil
  then show ?case by (simp add: alloc_post_def)
next
  case (Cons g gs)
  let ?bg = "e_bgdt e ! g" and ?sb = "e_sb e"
  have g: "g < length (e_bgdt e)" using Cons.prems by simp
  have IH: "\<exists>r e'. alloc_inode_groups gs e = Some (r, e') \<and> alloc_post e r e' used_inodes used_blocks"
    using Cons by simp
  show ?case
  proof (cases "bg_free_inodes ?bg = 0 \<or> find_free_bit (slot_bitmap bg_inode_bitmap e g) = None")
    case True
    then have "alloc_inode_groups (g # gs) e = alloc_inode_groups gs e"
      using g by (auto simp: bgdt_get_def index_at_def slot_bitmap_def)
    then show ?thesis using IH by simp
  next
    case False
    then obtain i where i: "find_free_bit (slot_bitmap bg_inode_bitmap e g) = Some i" by auto
    let ?bg' = "?bg\<lparr>bg_free_inodes := bg_free_inodes ?bg - 1\<rparr>"
    let ?sb' = "?sb\<lparr>sb_free_inodes := (if sb_free_inodes ?sb = 0 then 0 else sb_free_inodes ?sb - 1)\<rparr>"
    let ?per = "sb_inodes_per_group ?sb"
    let ?m = "of_nat g * ?per + of_nat i :: u32"
    let ?k = "?m + 1"
    obtain bm e' where *: "bm_set_bit (slot_bitmap bg_inode_bitmap e g) i = Some bm"
        "bm_flush e (bg_inode_bitmap ?bg) bm g ?bg' ?sb' = Some e'"
      and v: "volume_ok e'" "e_sb e' = ?sb'" and k: "unat ?m = g * unat ?per + i"
        "\<not> slot_used bg_inode_bitmap (unat ?per) e (g * unat ?per + i)"
        "\<And>k. slot_used bg_inode_bitmap (unat ?per) e' k \<longleftrightarrow> k = g * unat ?per + i \<or> slot_used bg_inode_bitmap (unat ?per) e k"
      and o: "\<And>p k. slot_used bg_block_bitmap p e' k = slot_used bg_block_bitmap p e k"
      and rest: "\<And>j. j \<notin> meta_blocks e \<Longrightarrow> j \<notin> set (bitmap_blocks (e_bgdt e)) \<Longrightarrow>
         read_block_bytes (e_dev e') ?sb' j = read_block_bytes (e_dev e) ?sb j"
        "\<And>s. e_dev e' s = None \<longleftrightarrow> e_dev e s = None" "e_bgdt e' = (e_bgdt e)[g := ?bg']"
      by (rule alloc_group[OF assms(1) g, of bg_inode_bitmap ?per i ?bg' ?sb', OF _ _ i]) auto
    have "alloc_inode_groups (g # gs) e = Some (Some ?k, e')"
      using False g i * by (simp add: bgdt_get_def index_at_def slot_bitmap_def)
    moreover have "alloc_post e (Some ?k) e' used_inodes used_blocks"
    proof (rule alloc_post_slots[OF v(1,2) _ rest(2,1,3)])
      show "?k \<notin> used_inodes e" using k(1,2) by (simp add: used_inodes_def)
      have "x = ?k \<longleftrightarrow> unat (x - 1) = unat ?m" for x by (metis add_diff_cancel_right' diff_add_cancel unsigned_word_eqI)
      then show "used_inodes e' = insert ?k (used_inodes e)"
        using k v(2) by (auto simp: used_inodes_def)
      show "used_blocks e' = used_blocks e" using o v(2) by (simp add: used_blocks_def)
    qed simp_all
    ultimately show ?thesis by blast
  qed
qed

lemma alloc_block_ok:
  assumes "volume_ok e"
  shows "\<exists>r e'. alloc_block e = Some (r, e') \<and> alloc_post e r e' used_blocks used_inodes"
  using alloc_block_groups_ok[OF assms, of "[0..<length (e_bgdt e)]"] assms
  by (auto simp: alloc_block_def volume_ok_def layout_okD(4) atLeast0LessThan)

lemma alloc_inode_ok:
  assumes "volume_ok e"
  shows "\<exists>r e'. alloc_inode e = Some (r, e') \<and> alloc_post e r e' used_inodes used_blocks"
  using alloc_inode_groups_ok[OF assms, of "[0..<length (e_bgdt e)]"] assms
  by (auto simp: alloc_inode_def volume_ok_def layout_okD(4) atLeast0LessThan)

text \<open>Clearing the bit of a slot in use.\<close>

lemma free_group:
  assumes "volume_ok e" "sel \<in> {bg_block_bitmap, bg_inode_bitmap}"
    and "per = unat (if sel = bg_block_bitmap then sb_blocks_per_group (e_sb e) else sb_inodes_per_group (e_sb e))"
    and "slot_used sel per e k" "g = k div per"
    and "bg_block_bitmap bg = bg_block_bitmap (e_bgdt e ! g)" "bg_inode_bitmap bg = bg_inode_bitmap (e_bgdt e ! g)"
    and "sb_static_eq (e_sb e) sb"
  obtains bm e' where "bm_clear_bit (slot_bitmap sel e g) (k mod per) = Some bm"
    "bm_flush e (sel (e_bgdt e ! g)) bm g bg sb = Some e'" "volume_ok e'" "e_sb e' = sb"
    "\<And>j. slot_used sel per e' j \<longleftrightarrow> j \<noteq> k \<and> slot_used sel per e j"
    "\<And>sel' p k. sel' \<in> {bg_block_bitmap, bg_inode_bitmap} \<Longrightarrow> sel' \<noteq> sel \<Longrightarrow> slot_used sel' p e' k = slot_used sel' p e k"
proof -
  have V: "layout_ok e" "padded sel per e" using assms(1-3) by (auto simp: volume_ok_def)
  have g: "g < length (e_bgdt e)" using assms(4,5) by (simp add: slot_used_def)
  have len: "length (slot_bitmap sel e g) = block_size (e_sb e)"
    using layout_okD(1,2)[OF V(1)] by (simp add: slot_bitmap_def)
  have i: "k mod per < per" "k mod per < 8 * block_size (e_sb e)"
    using V(2) by (auto simp: padded_def intro: order_less_le_trans[OF mod_less_divisor])
  obtain bm where bm: "bm_clear_bit (slot_bitmap sel e g) (k mod per) = Some bm" "length bm = block_size (e_sb e)"
    "\<And>j. j < 8 * block_size (e_sb e) \<Longrightarrow> bm_bit bm j \<longleftrightarrow> j \<noteq> k mod per \<and> bm_bit (slot_bitmap sel e g) j"
    using bm_clear_bit_Some[of "k mod per" "slot_bitmap sel e g"] i len by metis
  have eq: "\<And>j. j < 8 * block_size (e_sb e) \<Longrightarrow> bm_bit bm j \<longleftrightarrow> (if j = k mod per then False else bm_bit (slot_bitmap sel e g) j)"
    using bm(3) by simp
  have k: "g * per + k mod per = k" using assms(5) by simp
  show thesis
    by (rule flush_used[OF assms(1) g assms(2,3) bm(2) i(1) eq assms(6-8)], blast, erule that[OF bm(1)]) (auto simp: k)
qed

lemma free_block_ok:
  assumes "volume_ok e" "b \<in> used_blocks e"
  shows "\<exists>e'. free_block e b = Some e' \<and> used_blocks e' = used_blocks e - {b} \<and> used_inodes e' = used_inodes e \<and> volume_ok e'"
proof -
  let ?sb = "e_sb e" and ?per = "sb_blocks_per_group (e_sb e)" and ?g = "unat b div unat (sb_blocks_per_group (e_sb e))"
  let ?bg = "e_bgdt e ! ?g"
  let ?bg' = "?bg\<lparr>bg_free_blocks := bg_free_blocks ?bg + 1\<rparr>" and ?sb' = "?sb\<lparr>sb_free_blocks := sb_free_blocks ?sb + 1\<rparr>"
  have u: "slot_used bg_block_bitmap (unat ?per) e (unat b)" using assms(2) by (simp add: used_blocks_def)
  have per: "?per \<noteq> 0" "?g < length (e_bgdt e)"
    using assms(1) u by (auto simp: volume_ok_def padded_def slot_used_def)
  obtain bm e' where *: "bm_clear_bit (slot_bitmap bg_block_bitmap e ?g) (unat b mod unat ?per) = Some bm"
      "bm_flush e (bg_block_bitmap ?bg) bm ?g ?bg' ?sb' = Some e'" "volume_ok e'" "e_sb e' = ?sb'"
      "\<And>j. slot_used bg_block_bitmap (unat ?per) e' j \<longleftrightarrow> j \<noteq> unat b \<and> slot_used bg_block_bitmap (unat ?per) e j"
      "\<And>p k. slot_used bg_inode_bitmap p e' k = slot_used bg_inode_bitmap p e k"
    by (rule free_group[OF assms(1), of bg_block_bitmap "unat ?per" "unat b" ?g ?bg' ?sb', OF _ _ u]) auto
  have "free_block e b = Some e'"
    using per *(1,2) by (simp add: free_block_def wdiv_def wmod_def Let_def unat_div unat_mod bgdt_get_def index_at_def slot_bitmap_def)
  then show ?thesis using *(3-6) by (auto simp: used_blocks_def used_inodes_def word_unat_eq_iff)
qed

lemma free_inode_ok:
  assumes "volume_ok e" "ino \<in> used_inodes e"
  shows "\<exists>e'. free_inode e ino = Some e' \<and> used_inodes e' = used_inodes e - {ino} \<and> used_blocks e' = used_blocks e \<and> volume_ok e'"
proof -
  let ?sb = "e_sb e" and ?per = "sb_inodes_per_group (e_sb e)" and ?g = "unat (ino - 1) div unat (sb_inodes_per_group (e_sb e))"
  let ?bg = "e_bgdt e ! ?g"
  let ?bg' = "?bg\<lparr>bg_free_inodes := bg_free_inodes ?bg + 1\<rparr>" and ?sb' = "?sb\<lparr>sb_free_inodes := sb_free_inodes ?sb + 1\<rparr>"
  have u: "slot_used bg_inode_bitmap (unat ?per) e (unat (ino - 1))" using assms(2) by (simp add: used_inodes_def)
  have per: "?per \<noteq> 0" "?g < length (e_bgdt e)"
    using assms(1) u by (auto simp: volume_ok_def padded_def slot_used_def)
  obtain bm e' where *: "bm_clear_bit (slot_bitmap bg_inode_bitmap e ?g) (unat (ino - 1) mod unat ?per) = Some bm"
      "bm_flush e (bg_inode_bitmap ?bg) bm ?g ?bg' ?sb' = Some e'" "volume_ok e'" "e_sb e' = ?sb'"
      "\<And>j. slot_used bg_inode_bitmap (unat ?per) e' j \<longleftrightarrow> j \<noteq> unat (ino - 1) \<and> slot_used bg_inode_bitmap (unat ?per) e j"
      "\<And>p k. slot_used bg_block_bitmap p e' k = slot_used bg_block_bitmap p e k"
    by (rule free_group[OF assms(1), of bg_inode_bitmap "unat ?per" "unat (ino - 1)" ?g ?bg' ?sb', OF _ _ u]) auto
  have "free_inode e ino = Some e'"
    using per *(1,2) by (simp add: free_inode_def inode_block_group_def inode_local_index_def wdiv_def wmod_def Let_def unat_div unat_mod bgdt_get_def index_at_def slot_bitmap_def)
  moreover have "unat (x - 1) = unat (ino - 1) \<longleftrightarrow> x = ino" for x
    by (metis diff_add_cancel unsigned_word_eqI)
  ultimately show ?thesis using *(3-6) by (auto simp: used_blocks_def used_inodes_def)
qed

interpretation blocks: slot_allocator volume_ok used_blocks alloc_block free_block
proof unfold_locales
  fix s s' k
  assume "volume_ok s"
  from alloc_block_ok[OF this] show "alloc_block s \<noteq> None"
    "alloc_block s = Some (Some k, s') \<Longrightarrow> k \<notin> used_blocks s \<and> used_blocks s' = insert k (used_blocks s) \<and> volume_ok s'"
    "alloc_block s = Some (None, s') \<Longrightarrow> s' = s" by (auto simp: alloc_post_def)
  show "k \<in> used_blocks s \<Longrightarrow> \<exists>s'. free_block s k = Some s' \<and> used_blocks s' = used_blocks s - {k} \<and> volume_ok s'"
    using free_block_ok[OF \<open>volume_ok s\<close>] by blast
qed

interpretation inodes: slot_allocator volume_ok used_inodes alloc_inode free_inode
proof unfold_locales
  fix s s' k
  assume "volume_ok s"
  from alloc_inode_ok[OF this] show "alloc_inode s \<noteq> None"
    "alloc_inode s = Some (Some k, s') \<Longrightarrow> k \<notin> used_inodes s \<and> used_inodes s' = insert k (used_inodes s) \<and> volume_ok s'"
    "alloc_inode s = Some (None, s') \<Longrightarrow> s' = s" by (auto simp: alloc_post_def)
  show "k \<in> used_inodes s \<Longrightarrow> \<exists>s'. free_inode s k = Some s' \<and> used_inodes s' = used_inodes s - {k} \<and> volume_ok s'"
    using free_inode_ok[OF \<open>volume_ok s\<close>] by blast
qed

subsection \<open>Free space\<close>

text \<open>\<open>avail k e\<close>: some group has \<open>k\<close> free blocks by its counter and by its bitmap, so at least \<open>k\<close>
  allocations succeed.\<close>

definition free_bits :: "Ext2State \<Rightarrow> nat \<Rightarrow> nat set" where
  "free_bits e g = {i. i < 8 * block_size (e_sb e) \<and> \<not> bm_bit (slot_bitmap bg_block_bitmap e g) i}"

definition avail :: "nat \<Rightarrow> Ext2State \<Rightarrow> bool" where
  "avail k e \<longleftrightarrow> (\<exists>g < length (e_bgdt e). k \<le> unat (bg_free_blocks (e_bgdt e ! g)) \<and> k \<le> card (free_bits e g))"

lemma alloc_block_groups_None:
  assumes "alloc_block_groups gs e = Some (None, e')" "g \<in> set gs" "g < length (e_bgdt e)"
  shows "bg_free_blocks (e_bgdt e ! g) = 0 \<or> find_free_bit (slot_bitmap bg_block_bitmap e g) = None"
  using assms
  by (induction gs) (auto simp: bgdt_get_def index_at_def slot_bitmap_def Let_def bind_eq_Some_conv
      split: if_splits option.splits)

lemma finite_free_bits [simp]: "finite (free_bits e g)"
  by (rule finite_subset[of _ "{..<8 * block_size (e_sb e)}"]) (auto simp: free_bits_def)

lemma free_bits_used:
  assumes "volume_ok e" "g < length (e_bgdt e)" "per = sb_blocks_per_group (e_sb e)"
  shows "free_bits e g = {i. i < unat per \<and> of_nat g * per + of_nat i \<notin> used_blocks e}"
proof -
  have P: "padded bg_block_bitmap (unat per) e" using assms(1,3) by (simp add: volume_ok_def)
  have u: "of_nat g * per + of_nat i \<in> used_blocks e \<longleftrightarrow> bm_bit (slot_bitmap bg_block_bitmap e g) i" if "i < unat per" for i
    using group_slot_unat[OF P assms(2) that] that assms(2,3) by (simp add: used_blocks_def slot_used_def)
  have "i < unat per" if "i \<in> free_bits e g" for i
    using that P assms(2) unfolding free_bits_def padded_def by (metis (mono_tags, lifting) mem_Collect_eq not_less)
  moreover have "i < 8 * block_size (e_sb e)" if "i < unat per" for i using that P by (simp add: padded_def)
  ultimately show ?thesis using u by (auto simp: free_bits_def)
qed

lemma alloc_block_avail:
  assumes "volume_ok e" "avail (Suc k) e"
  obtains b e' where "alloc_block e = Some (Some b, e')" "alloc_post e (Some b) e' used_blocks used_inodes" "avail k e'"
proof -
  obtain g where g: "g < length (e_bgdt e)" "Suc k \<le> unat (bg_free_blocks (e_bgdt e ! g))" "Suc k \<le> card (free_bits e g)"
    using assms(2) by (auto simp: avail_def)
  obtain r e' where r: "alloc_block e = Some (r, e')" "alloc_post e r e' used_blocks used_inodes"
    using alloc_block_ok[OF assms(1)] by blast
  have L: "layout_ok e" using assms(1) by (simp add: volume_ok_def)
  obtain b where b: "r = Some b"
  proof (cases r)
    case None
    then have "bg_free_blocks (e_bgdt e ! g) = 0 \<or> find_free_bit (slot_bitmap bg_block_bitmap e g) = None"
      using r(1) g(1) layout_okD(4)[OF L] by (intro alloc_block_groups_None) (auto simp: alloc_block_def)
    moreover have "length (slot_bitmap bg_block_bitmap e g) = block_size (e_sb e)"
      using layout_okD(1,2)[OF L] by (simp add: slot_bitmap_def)
    ultimately have "free_bits e g = {}" using g(2) by (auto simp: find_free_bit_eq find_None_iff free_bits_def)
    then show thesis using g(3) by simp
  qed
  have p: "volume_ok e'" "used_blocks e' = insert b (used_blocks e)" "sb_static_eq (e_sb e) (e_sb e')"
    "bitmap_blocks (e_bgdt e') = bitmap_blocks (e_bgdt e)"
    "unat (bg_free_blocks (e_bgdt e ! g)) \<le> Suc (unat (bg_free_blocks (e_bgdt e' ! g)))"
    using r(2) b g(1) by (simp_all add: alloc_post_def)
  have len: "length (e_bgdt e') = length (e_bgdt e)"
    using arg_cong[OF p(4), of length] by (simp add: bitmap_blocks_def)
  let ?per = "sb_blocks_per_group (e_sb e)"
  have inj: "i = j" if "of_nat g * ?per + of_nat i = b" "of_nat g * ?per + of_nat j = b" "i < unat ?per" "j < unat ?per" for i j
    using that group_slot_unat[of bg_block_bitmap ?per e g] assms(1) g(1) by (metis add_left_cancel volume_ok_def)
  have "\<exists>x. free_bits e g - {x} \<subseteq> free_bits e' g"
  proof (cases "\<exists>i < unat ?per. of_nat g * ?per + of_nat i = b")
    case True
    then obtain x where "x < unat ?per" "of_nat g * ?per + of_nat x = b" by blast
    then show ?thesis
      using free_bits_used[OF assms(1) g(1) refl] free_bits_used[OF p(1), of g] g(1) len p(2,3) inj
      by (intro exI[of _ x]) (auto simp: sb_static_geometry[OF p(3)])
  next
    case False
    then show ?thesis
      using free_bits_used[OF assms(1) g(1) refl] free_bits_used[OF p(1), of g] g(1) len p(2,3)
      by (auto simp: sb_static_geometry[OF p(3)])
  qed
  then obtain x where "free_bits e g - {x} \<subseteq> free_bits e' g" by blast
  then have "card (free_bits e g - {x}) \<le> card (free_bits e' g)" by (intro card_mono) simp_all
  then have "card (free_bits e g) \<le> Suc (card (free_bits e' g))" using card_Diff1_le[of "free_bits e g" x] by (auto simp: card_Diff_singleton_if split: if_splits)
  then have "avail k e'" using g p(5) len by (auto simp: avail_def intro!: exI[of _ g])
  then show thesis using that r b by blast
qed

section \<open>Sample volumes\<close>

text \<open>Volumes of one group: superblock in block \<open>first_data_block\<close>, descriptor in the next block, then the
  block bitmap (slots 0 to 9 in use), the inode bitmap (inodes 1 to 11 in use) and the inode
  table. \<open>demo_ext2\<close> has 4 KiB blocks, \<open>demo_small\<close> 1 KiB blocks, and \<open>demo_full\<close> no
  free block left.\<close>

definition vol_sb :: "u32 \<Rightarrow> u32 \<Rightarrow> Superblock" where
  "vol_sb lg per = \<lparr> sb_inodes_count = per, sb_blocks_count = per, sb_free_blocks = per - 10, sb_free_inodes = per - 11,
     sb_first_data_block = (if lg = 0 then 1 else 0), sb_log_block_size = lg, sb_blocks_per_group = per,
     sb_inodes_per_group = per, sb_magic = EXT2_MAGIC, sb_inode_size = 128, sb_first_ino = 11 \<rparr>"

definition vol_bg :: "u16 \<Rightarrow> Superblock \<Rightarrow> BgDesc" where
  "vol_bg fb sb = \<lparr> bg_block_bitmap = sb_first_data_block sb + 2, bg_inode_bitmap = sb_first_data_block sb + 3,
     bg_inode_table = sb_first_data_block sb + 4, bg_free_blocks = fb, bg_free_inodes = 5, bg_used_dirs = 1 \<rparr>"

definition sb_raw :: "Superblock \<Rightarrow> bytes" where
  "sb_raw sb = to_le 4 (sb_inodes_count sb) @ to_le 4 (sb_blocks_count sb) @ replicate 4 0 @ to_le 4 (sb_free_blocks sb)
     @ to_le 4 (sb_free_inodes sb) @ to_le 4 (sb_first_data_block sb) @ to_le 4 (sb_log_block_size sb) @ replicate 4 0
     @ to_le 4 (sb_blocks_per_group sb) @ replicate 4 0 @ to_le 4 (sb_inodes_per_group sb) @ replicate 12 0
     @ to_le 2 (sb_magic sb) @ replicate 26 0 @ to_le 4 (sb_first_ino sb) @ to_le 2 (sb_inode_size sb) @ replicate 422 0"

definition vol_dev :: "u16 \<Rightarrow> Superblock \<Rightarrow> disk" where
  "vol_dev fb sb s = Some
     (if s = 2 then sb_raw sb
      else if s = block_to_sector sb (bgdt_block sb) then bg_fields (vol_bg fb sb) @ replicate 494 0
      else if s = block_to_sector sb (ucast (bg_block_bitmap (vol_bg fb sb))) then [0xFF, 0x03] @ replicate 510 0
      else if s = block_to_sector sb (ucast (bg_inode_bitmap (vol_bg fb sb))) then [0xFF, 0x07] @ replicate 510 0
      else replicate 512 0)"

definition vol :: "u16 \<Rightarrow> Superblock \<Rightarrow> Ext2State" where
  "vol fb sb = \<lparr> e_dev = vol_dev fb sb, e_sb = sb, e_bgdt = [vol_bg fb sb] \<rparr>"

definition demo_ext2 :: Ext2State where
  "demo_ext2 = vol 5 (vol_sb 2 32768)"

definition demo_full :: Ext2State where
  "demo_full = vol 0 (vol_sb 2 32768)"

definition demo_small :: Ext2State where
  "demo_small = vol 5 (vol_sb 0 8192)"

lemma vol_dev_wf: "disk_wf (vol_dev fb sb)"
  by (auto simp: disk_wf_def vol_dev_def sb_raw_def)

lemma vol_sb_read: "sb_magic sb = EXT2_MAGIC \<Longrightarrow> block_to_sector sb (bgdt_block sb) \<noteq> 3 \<Longrightarrow> sb_read (vol_dev fb sb) = Some sb"
  by (cases sb) (simp add: sb_read_def dev_read_def vol_dev_def Let_def sb_parse_def sb_raw_def)

lemma vol_block_head:
  assumes "n \<le> SECTOR" "0 < sectors_per_block sb"
  shows "take n (read_block_bytes (vol_dev fb sb) sb k) = take n (the (vol_dev fb sb (block_to_sector sb (ucast k))))"
proof -
  let ?f = "\<lambda>s. the (vol_dev fb sb (block_to_sector sb (ucast k) + of_nat s))"
  have "read_block_bytes (vol_dev fb sb) sb k = concat (map ?f [0..<sectors_per_block sb])"
    by (simp add: read_block_bytes_def read_sectors_def read_or_zero_def dev_read_def vol_dev_def)
  also have "[0..<sectors_per_block sb] = 0 # [Suc 0..<sectors_per_block sb]" using assms(2) by (rule upt_conv_Cons)
  finally have "read_block_bytes (vol_dev fb sb) sb k = ?f 0 @ concat (map ?f [Suc 0..<sectors_per_block sb])" by simp
  moreover have "length (?f 0) = SECTOR" by (simp add: vol_dev_def sb_raw_def)
  ultimately show ?thesis using assms by simp
qed

lemma vol_bgdt_read:
  assumes "geom_ok sb" "num_block_groups sb = Some 1" "bgdt_fits sb 2" "block_to_sector sb (bgdt_block sb) \<noteq> 2"
  shows "bgdt_read (vol_dev fb sb) sb = Some [vol_bg fb sb]"
proof -
  have "take 32 (read_block_bytes (vol_dev fb sb) sb (bg_home sb 0)) = take 32 (bg_fields (vol_bg fb sb) @ replicate 494 0)"
    using assms(4) spb_bounds[OF assms(1)]
    by (subst vol_block_head) (simp_all add: vol_dev_def bg_home_def bgdt_block_def)
  then have "bg_at (vol_dev fb sb) sb 0 = bg_parse (overlay (replicate 32 0) 0 (bg_fields (vol_bg fb sb)))"
    by (simp add: bg_at_def overlay_def)
  then have "bg_at (vol_dev fb sb) sb 0 = vol_bg fb sb" by (simp add: bg_parse_fields)
  then show ?thesis
    using bgdt_read_eq[OF vol_dev_wf assms(1,2)] assms(3) by (simp add: numeral_2_eq_2)
qed

lemma vol_sb_geom:
  assumes "sb = vol_sb 2 32768 \<or> sb = vol_sb 0 8192"
  shows "geom_ok sb" "8 * block_size sb = unat (sb_blocks_per_group sb)" "sb_blk sb = sb_first_data_block sb"
    "num_block_groups sb = Some 1" "bgdt_fits sb 2" "bg_home sb 0 = sb_first_data_block sb + 1"
    "block_to_sector sb (bgdt_block sb) = 8 \<or> block_to_sector sb (bgdt_block sb) = 4"
    "sb_inodes_per_group sb = sb_blocks_per_group sb" "unat (sb_blocks_per_group sb) \<le> 32768"
    "sb_magic sb = EXT2_MAGIC" "sb_blocks_per_group sb \<noteq> 0"
  using assms
  by (auto simp: geom_ok_def vol_sb_def block_size_def sectors_per_block_def sb_blk_def num_block_groups_def
      udiv_def bgdt_fits_def bg_home_def push_bit_eq_mult block_to_sector_def bgdt_block_def)

lemma vol_ok:
  assumes "sb = vol_sb 2 32768 \<or> sb = vol_sb 0 8192"
  shows "volume_ok (vol fb sb)"
proof -
  note G = vol_sb_geom[OF assms]
  have hb: "has_block (vol_dev fb sb) sb k" for k by (simp add: has_block_def vol_dev_def)
  have "layout_ok (vol fb sb)"
    using vol_dev_wf[of fb sb] G(1,3,4,6) G(5)[unfolded numeral_2_eq_2] hb
    by (simp add: layout_ok_def vol_def meta_blocks_def bitmap_blocks_def vol_bg_def
        vol_dev_def[of fb sb 2] vol_dev_def[of fb sb 3] lessThan_Suc)
  moreover have "synced (vol fb sb)"
    using vol_sb_read[OF G(10)] vol_bgdt_read[OF G(1,4,5)] G(7) by (auto simp: synced_def vol_def)
  moreover have "padded sel (unat (sb_blocks_per_group sb)) (vol fb sb)" for sel
    using G(2,9,11) by (auto simp: padded_def vol_def unat_gt_0)
  ultimately show ?thesis using G(8) by (simp add: volume_ok_def vol_def)
qed

lemma demo_ext2_ok: "volume_ok demo_ext2" and demo_small_ok: "volume_ok demo_small"
  and demo_full_ok: "volume_ok demo_full"
  by (simp_all add: demo_ext2_def demo_small_def demo_full_def vol_ok)

section \<open>Properties\<close>

lemma vol_bitmap:
  assumes "sb = vol_sb 2 32768 \<or> sb = vol_sb 0 8192"
  shows "\<exists>rest. slot_bitmap bg_block_bitmap (vol fb sb) 0 = 0xFF # 3 # rest"
proof -
  have "take 2 (slot_bitmap bg_block_bitmap (vol fb sb) 0) = [0xFF, 3]"
    using assms vol_sb_geom(1)[OF assms, THEN spb_bounds(3)]
    by (auto simp: slot_bitmap_def vol_def vol_block_head vol_dev_def vol_bg_def vol_sb_def block_to_sector_def
        bgdt_block_def sectors_per_block_def block_size_def push_bit_eq_mult)
  then show ?thesis by (metis append_Cons append_Nil append_take_drop_id)
qed

lemma vol_alloc:
  assumes "sb = vol_sb 2 32768 \<or> sb = vol_sb 0 8192"
  shows "\<exists>e'. alloc_block (vol 5 sb) = Some (Some 10, e')"
proof -
  have "[0..<8] = [0, 1, 2, 3, 4, 5, 6, 7 :: nat]" by (simp add: upt_rec)
  moreover obtain rest where "slot_bitmap bg_block_bitmap (vol 5 sb) 0 = 0xFF # 3 # rest" using vol_bitmap[OF assms] by blast
  ultimately have f: "find_free_bit (slot_bitmap bg_block_bitmap (vol 5 sb) 0) = Some 10"
    by (simp add: find_free_bit_def)
  have "alloc_block (vol 5 sb) \<noteq> None" by (rule blocks.alloc_total[OF vol_ok[OF assms]])
  then show ?thesis
    using f by (auto simp: alloc_block_def vol_def vol_sb_geom(4)[OF assms] bgdt_get_def index_at_def slot_bitmap_def
        vol_bg_def Let_def bind_eq_Some_conv)
qed



text \<open>C18: Any number of successive inode allocations on a consistent volume succeeds or stops
  without a panic, and the inode numbers handed out are pairwise distinct, were all free
  before, and are the only ones marked in addition afterwards; the volume stays consistent.\<close>

theorem ext2_inodes_never_shared:
  assumes "volume_ok e"
  shows "\<exists>ks e'. alloc_many alloc_inode n e = Some (ks, e') \<and> distinct ks \<and> set ks \<inter> used_inodes e = {} \<and>
    used_inodes e' = set ks \<union> used_inodes e \<and> volume_ok e'"
  by (rule inodes.alloc_many_distinct[OF assms])

theorem ext2_inodes_never_shared_witness:
  "\<exists>ks e'. alloc_many alloc_inode 3 demo_ext2 = Some (ks, e') \<and> distinct ks \<and> volume_ok e'"
  using ext2_inodes_never_shared[OF demo_ext2_ok, of 3] by blast

lemma alloc_block_groups_first:
  assumes "alloc_block_groups gs e = Some (Some b, e')"
  shows "\<exists>g i. g \<in> set gs \<and> g < length (e_bgdt e) \<and> find_free_bit (slot_bitmap bg_block_bitmap e g) = Some i \<and>
    b = of_nat g * sb_blocks_per_group (e_sb e) + of_nat i"
  using assms
  by (induction gs) (auto simp: bgdt_get_def index_at_def slot_bitmap_def Let_def bind_eq_Some_conv
      split: if_splits option.splits)

text \<open>In the ext2 format bit \<open>i\<close> of group \<open>g\<close> stands for block \<open>first_data_block + g * blocks_per_group + i\<close>.\<close>

definition ext2_in_use :: "Ext2State \<Rightarrow> u32 \<Rightarrow> bool" where
  "ext2_in_use e b \<longleftrightarrow> unat (sb_first_data_block (e_sb e)) \<le> unat b \<and>
     slot_used bg_block_bitmap (unat (sb_blocks_per_group (e_sb e))) e (unat b - unat (sb_first_data_block (e_sb e)))"

text \<open>C39: With 1 KiB blocks the first data block is 1, but the allocator numbers blocks from 0:
  unless the bit found is the first of its group, the block it returns is one that the
  format already marks as in use, so a file write overwrites other data. (With larger
  blocks the two numberings agree.)\<close>

theorem ext2_small_blocks_double_use:
  assumes "volume_ok e" "sb_log_block_size (e_sb e) = 0" "alloc_block e = Some (Some b, e')"
    and "unat b mod unat (sb_blocks_per_group (e_sb e)) \<noteq> 0"
  shows "ext2_in_use e b"
proof -
  let ?per = "sb_blocks_per_group (e_sb e)"
  have V: "layout_ok e" "padded bg_block_bitmap (unat ?per) e" using assms(1) by (simp_all add: volume_ok_def)
  obtain n where "alloc_block_groups [0..<n] e = Some (Some b, e')"
    using assms(3) by (auto simp: alloc_block_def bind_eq_Some_conv)
  then obtain g i where gi: "g < length (e_bgdt e)" "find_free_bit (slot_bitmap bg_block_bitmap e g) = Some i"
    "b = of_nat g * ?per + of_nat i"
    using alloc_block_groups_first by blast
  have len: "length (slot_bitmap bg_block_bitmap e g) = block_size (e_sb e)"
    using layout_okD(1,2)[OF V(1)] by (simp add: slot_bitmap_def)
  note F = find_free_bit_Some[OF gi(2), unfolded len]
  have i: "i < unat ?per" using F V(2) gi(1) unfolding padded_def by (meson not_less)
  have b: "unat b = g * unat ?per + i" unfolding gi(3) by (rule group_slot_unat[OF V(2) gi(1) i])
  have "0 < i" using assms(4) b i by (cases i) simp_all
  then have d: "(unat b - 1) div unat ?per = g" "(unat b - 1) mod unat ?per = i - 1"
    using slot_split[of "i - 1" "unat ?per" "unat b - 1" g] b i by simp_all
  have fdb: "sb_first_data_block (e_sb e) = 1" using layout_okD(3)[OF V(1)] assms(2) by (simp add: sb_blk_def)
  have "slot_used bg_block_bitmap (unat ?per) e (unat b - 1)"
    unfolding slot_used_def d using F \<open>0 < i\<close> gi(1) by simp
  then show ?thesis using b \<open>0 < i\<close> by (simp add: ext2_in_use_def fdb)
qed

theorem ext2_small_blocks_double_use_witness:
  "\<exists>b e'. alloc_block demo_small = Some (Some b, e') \<and> ext2_in_use demo_small b"
proof -
  obtain e' where a: "alloc_block demo_small = Some (Some 10, e')"
    using vol_alloc[of "vol_sb 0 8192"] by (auto simp: demo_small_def)
  have "ext2_in_use demo_small 10"
    by (rule ext2_small_blocks_double_use[OF demo_small_ok _ a]) (simp_all add: demo_small_def vol_def vol_sb_def)
  then show ?thesis using a by blast
qed

end
