(* ===== verification/Ext2_Inode.thy ===== *)
theory Ext2_Inode
  imports Ext2_Alloc
begin

text \<open>
  fs/src/ext2/inode.rs: on-disk inodes and the map from the logical blocks of a file to
  physical blocks through direct and indirect pointers.
\<close>

section \<open>Inodes\<close>

abbreviation EXT2_S_IFREG :: u16 where "EXT2_S_IFREG \<equiv> 0x8000"
abbreviation EXT2_S_IFDIR :: u16 where "EXT2_S_IFDIR \<equiv> 0x4000"

record Inode =
  i_mode :: u16
  i_links_count :: u16
  i_size :: u32
  i_blocks :: u32
  i_block :: "u32 list"
  i_ino :: u32

definition is_dir :: "Inode \<Rightarrow> bool" where
  "is_dir i \<longleftrightarrow> i_mode i AND 0xF000 = EXT2_S_IFDIR"

definition is_file :: "Inode \<Rightarrow> bool" where
  "is_file i \<longleftrightarrow> i_mode i AND 0xF000 = EXT2_S_IFREG"

definition inode_size :: "Inode \<Rightarrow> nat" where
  "inode_size i = unat (i_size i)"

text \<open>The inode table block of an inode and the inode's offset in it.\<close>

definition inode_locate :: "Superblock \<Rightarrow> BgDescTable \<Rightarrow> u32 \<Rightarrow> (u32 \<times> nat) option" where
  "inode_locate sb bgdt ino =
     do { g \<leftarrow> inode_block_group sb ino;
          idx \<leftarrow> inode_local_index sb ino;
          let isz = unat (sb_inode_size sb);
          let bsz = block_size sb;
          bg \<leftarrow> bgdt_get bgdt g;
          block_idx \<leftarrow> udiv (idx * isz) bsz;
          let off_in_blk = idx * isz mod bsz;
          Some (of_nat (unat (bg_inode_table bg) + block_idx), off_in_blk) }"

definition inode_parse :: "u32 \<Rightarrow> bytes \<Rightarrow> Inode" where
  "inode_parse ino r =
     \<lparr> i_mode = of_le (take 2 r),
       i_links_count = of_le (take 2 (drop 26 r)),
       i_size = of_le (take 4 (drop 4 r)),
       i_blocks = of_le (take 4 (drop 28 r)),
       i_block = map (\<lambda>k. of_le (take 4 (drop (40 + k * 4) r))) [0..<15],
       i_ino = ino \<rparr>"

definition inode_patch :: "Inode \<Rightarrow> bytes \<Rightarrow> bytes" where
  "inode_patch i dst =
     (let dst = overlay dst 0 (to_le 2 (i_mode i));
          dst = overlay dst 26 (to_le 2 (i_links_count i));
          dst = overlay dst 4 (to_le 4 (i_size i));
          dst = overlay dst 28 (to_le 4 (i_blocks i))
      in fold (\<lambda>k dst. overlay dst (40 + k * 4) (to_le 4 (i_block i ! k))) [0..<15] dst)"

definition ext2_inode_read :: "disk \<Rightarrow> Superblock \<Rightarrow> BgDescTable \<Rightarrow> u32 \<Rightarrow> Inode option option" where
  "ext2_inode_read dev sb bgdt ino =
     do { (blk, off_in_blk) \<leftarrow> inode_locate sb bgdt ino;
          let blk_data = read_block_bytes dev sb blk;
          if length blk_data < off_in_blk + 128 then Some None
          else Some (Some (inode_parse ino (take 128 (drop off_in_blk blk_data)))) }"

definition ext2_inode_write :: "Inode \<Rightarrow> disk \<Rightarrow> Superblock \<Rightarrow> BgDescTable \<Rightarrow> disk option" where
  "ext2_inode_write i dev sb bgdt =
     do { (blk, off_in_blk) \<leftarrow> inode_locate sb bgdt (i_ino i);
          let blk_data = read_block_bytes dev sb blk;
          dst \<leftarrow> slice blk_data off_in_blk (off_in_blk + 128);
          write_block_bytes dev sb blk (overlay blk_data off_in_blk (inode_patch i dst)) }"

section \<open>The block map\<close>

definition u32_at :: "bytes \<Rightarrow> nat \<Rightarrow> u32 option" where
  "u32_at data idx = get_le 4 data (idx * 4)"

definition write_u32_at :: "bytes \<Rightarrow> nat \<Rightarrow> u32 \<Rightarrow> bytes option" where
  "write_u32_at data idx val = put_le 4 data (idx * 4) val"

definition nonzero :: "u32 \<Rightarrow> u32 option" where
  "nonzero b = (if b = 0 then None else Some b)"

text \<open>The outer option is a panic, the inner one the result: \<open>None\<close> for an unallocated block.\<close>

definition get_block :: "Inode \<Rightarrow> disk \<Rightarrow> Superblock \<Rightarrow> u32 \<Rightarrow> u32 option option" where
  "get_block i dev sb n =
     (let ptrs = of_nat (block_size sb div 4) in
      if n < 12 then do { b \<leftarrow> index_at (i_block i) (unat n); Some (nonzero b) }
      else let n1 = n - 12 in
      if n1 < ptrs then
        do { ib \<leftarrow> index_at (i_block i) 12;
             if ib = 0 then Some None
             else do { b \<leftarrow> u32_at (read_block_bytes dev sb ib) (unat n1); Some (nonzero b) } }
      else let n2 = n1 - ptrs in
      if n2 < ptrs * ptrs then
        do { dib \<leftarrow> index_at (i_block i) 13;
             if dib = 0 then Some None
             else do { q \<leftarrow> wdiv n2 ptrs;
                       ib \<leftarrow> u32_at (read_block_bytes dev sb dib) (unat q);
                       if ib = 0 then Some None
                       else do { r \<leftarrow> wmod n2 ptrs;
                                 b \<leftarrow> u32_at (read_block_bytes dev sb ib) (unat r);
                                 Some (nonzero b) } } }
      else let n3 = n2 - ptrs * ptrs in
        do { tib \<leftarrow> index_at (i_block i) 14;
             if tib = 0 then Some None
             else do { q2 \<leftarrow> wdiv n3 (ptrs * ptrs);
                       ib2 \<leftarrow> u32_at (read_block_bytes dev sb tib) (unat q2);
                       if ib2 = 0 then Some None
                       else do { q \<leftarrow> wdiv n3 ptrs;
                                 q' \<leftarrow> wmod q ptrs;
                                 ib \<leftarrow> u32_at (read_block_bytes dev sb ib2) (unat q');
                                 if ib = 0 then Some None
                                 else do { r \<leftarrow> wmod n3 ptrs;
                                           b \<leftarrow> u32_at (read_block_bytes dev sb ib) (unat r);
                                           Some (nonzero b) } } } })"

text \<open>
  The steps \<open>set_block\<close> repeats: \<open>alloc_block(..).unwrap_or(0)\<close>; a root pointer that is
  allocated and zero-filled on first use; a pointer inside an indirect block, likewise;
  and the store of the final pointer.
\<close>

definition alloc_or_zero :: "Ext2State \<Rightarrow> (u32 \<times> Ext2State) option" where
  "alloc_or_zero e = do { (r, e) \<leftarrow> alloc_block e; Some (case r of Some b \<Rightarrow> b | None \<Rightarrow> 0, e) }"

definition e_write :: "Ext2State \<Rightarrow> u32 \<Rightarrow> bytes \<Rightarrow> Ext2State option" where
  "e_write e blk data = do { d \<leftarrow> write_block_bytes (e_dev e) (e_sb e) blk data; Some (e\<lparr>e_dev := d\<rparr>) }"

abbreviation e_read :: "Ext2State \<Rightarrow> u32 \<Rightarrow> bytes" where
  "e_read e blk \<equiv> read_block_bytes (e_dev e) (e_sb e) blk"

definition zeros :: "Ext2State \<Rightarrow> bytes" where
  "zeros e = replicate (block_size (e_sb e)) 0"

definition root_indirect :: "Inode \<Rightarrow> Ext2State \<Rightarrow> nat \<Rightarrow> (Inode \<times> Ext2State) option" where
  "root_indirect i e slot =
     do { b \<leftarrow> index_at (i_block i) slot;
          if b = 0 then
            do { (ib, e) \<leftarrow> alloc_or_zero e;
                 e \<leftarrow> e_write e ib (zeros e);
                 Some (i\<lparr>i_block := (i_block i)[slot := ib]\<rparr>, e) }
          else Some (i, e) }"

definition child_indirect :: "Ext2State \<Rightarrow> u32 \<Rightarrow> nat \<Rightarrow> (u32 \<times> Ext2State) option" where
  "child_indirect e parent idx =
     do { let data = e_read e parent;
          ib \<leftarrow> u32_at data idx;
          if ib = 0 then
            do { (ib, e) \<leftarrow> alloc_or_zero e;
                 data \<leftarrow> write_u32_at data idx ib;
                 e \<leftarrow> e_write e parent data;
                 e \<leftarrow> e_write e ib (zeros e);
                 Some (ib, e) }
          else Some (ib, e) }"

definition leaf_store :: "Ext2State \<Rightarrow> u32 \<Rightarrow> nat \<Rightarrow> u32 \<Rightarrow> Ext2State option" where
  "leaf_store e ib idx phys = do { data \<leftarrow> write_u32_at (e_read e ib) idx phys; e_write e ib data }"

definition set_block :: "Inode \<Rightarrow> Ext2State \<Rightarrow> u32 \<Rightarrow> u32 \<Rightarrow> (Inode \<times> Ext2State) option" where
  "set_block i e n phys =
     (let ptrs = of_nat (block_size (e_sb e) div 4) in
      if n < 12 then do { bl \<leftarrow> store_at (i_block i) (unat n) phys; Some (i\<lparr>i_block := bl\<rparr>, e) }
      else let n1 = n - 12 in
      if n1 < ptrs then
        do { (i, e) \<leftarrow> root_indirect i e 12;
             e \<leftarrow> leaf_store e (i_block i ! 12) (unat n1) phys;
             Some (i, e) }
      else let n2 = n1 - ptrs in
      if n2 < ptrs * ptrs then
        do { (i, e) \<leftarrow> root_indirect i e 13;
             q \<leftarrow> wdiv n2 ptrs;
             (ib, e) \<leftarrow> child_indirect e (i_block i ! 13) (unat q);
             r \<leftarrow> wmod n2 ptrs;
             e \<leftarrow> leaf_store e ib (unat r) phys;
             Some (i, e) }
      else let n3 = n2 - ptrs * ptrs in
        do { (i, e) \<leftarrow> root_indirect i e 14;
             q2 \<leftarrow> wdiv n3 (ptrs * ptrs);
             (ib2, e) \<leftarrow> child_indirect e (i_block i ! 14) (unat q2);
             q \<leftarrow> wdiv n3 ptrs;
             q' \<leftarrow> wmod q ptrs;
             (ib, e) \<leftarrow> child_indirect e ib2 (unat q');
             r \<leftarrow> wmod n3 ptrs;
             e \<leftarrow> leaf_store e ib (unat r) phys;
             Some (i, e) })"

section \<open>Inode round trip\<close>

abbreviation patch_ptrs :: "u32 list \<Rightarrow> nat \<Rightarrow> bytes \<Rightarrow> bytes" where
  "patch_ptrs bl n dst \<equiv> fold (\<lambda>k dst. overlay dst (40 + k * 4) (to_le 4 (bl ! k))) [0..<n] dst"

lemma length_patch_ptrs: "n \<le> 15 \<Longrightarrow> 100 \<le> length dst \<Longrightarrow> length (patch_ptrs bl n dst) = length dst"
  by (induction n) simp_all

lemma patch_ptrs_low:
  assumes "n \<le> 15" "100 \<le> length dst" "a + m \<le> 40"
  shows "take m (drop a (patch_ptrs bl n dst)) = take m (drop a dst)"
  using assms(1)
proof (induction n)
  case (Suc n)
  then show ?case
    using assms(2,3) length_patch_ptrs[of n dst bl] by (simp add: take_drop_overlay_other)
qed simp

lemma patch_ptrs_nth:
  assumes "n \<le> 15" "100 \<le> length dst" "k < n"
  shows "take 4 (drop (40 + k * 4) (patch_ptrs bl n dst)) = to_le 4 (bl ! k)"
  using assms(1,3)
proof (induction n)
  case (Suc n)
  have l: "length (patch_ptrs bl n dst) = length dst" using Suc.prems assms(2) by (intro length_patch_ptrs) simp_all
  show ?case
  proof (cases "k = n")
    case True
    then show ?thesis using l Suc.prems assms(2) by simp
  next
    case False
    then show ?thesis using Suc l assms(2) by (simp add: take_drop_overlay_other)
  qed
qed simp

lemma length_inode_patch: "100 \<le> length dst \<Longrightarrow> length (inode_patch i dst) = length dst"
  by (simp add: inode_patch_def Let_def length_patch_ptrs)

lemma inode_parse_patch:
  assumes "length (i_block i) = 15" "100 \<le> length dst"
  shows "inode_parse (i_ino i) (inode_patch i dst) = i"
proof -
  let ?d = "overlay (overlay (overlay (overlay dst 0 (to_le 2 (i_mode i))) 26 (to_le 2 (i_links_count i)))
      4 (to_le 4 (i_size i))) 28 (to_le 4 (i_blocks i))"
  have l: "100 \<le> length ?d" using assms(2) by simp
  have p: "inode_patch i dst = patch_ptrs (i_block i) 15 ?d" by (simp add: inode_patch_def Let_def)
  have f: "take m (drop a (inode_patch i dst)) = take m (drop a ?d)" if "a + m \<le> 40" for a m
    unfolding p using l that by (intro patch_ptrs_low) simp_all
  have "take 2 ?d = to_le 2 (i_mode i)" using assms(2) by (simp add: overlay_def)
  then have "take 2 (inode_patch i dst) = to_le 2 (i_mode i)" using f[of 0 2] by simp
  moreover have "take 2 (drop 26 (inode_patch i dst)) = to_le 2 (i_links_count i)"
    "take 4 (drop 4 (inode_patch i dst)) = to_le 4 (i_size i)"
    "take 4 (drop 28 (inode_patch i dst)) = to_le 4 (i_blocks i)"
    using assms(2) by (simp_all add: f take_drop_overlay_other)
  moreover have "map (\<lambda>k. of_le (take 4 (drop (40 + k * 4) (inode_patch i dst)))) [0..<15] = i_block i"
    using assms(1) patch_ptrs_nth[OF order_refl l, of _ "i_block i"] unfolding p by (intro nth_equalityI) simp_all
  ultimately show ?thesis by (simp add: inode_parse_def)
qed

lemma inode_write_read:
  assumes "geom_ok sb" "disk_wf d" "inode_locate sb bgdt (i_ino i) = Some (blk, off)" "off + 128 \<le> block_size sb"
    and "has_block d sb blk" "length (i_block i) = 15"
  obtains d' data where "ext2_inode_write i d sb bgdt = Some d'" "write_block_bytes d sb blk data = Some d'"
    "length data = block_size sb" "ext2_inode_read d' sb bgdt (i_ino i) = Some (Some i)"
    "\<And>a m. a + m \<le> off \<or> off + 128 \<le> a \<Longrightarrow> a + m \<le> block_size sb \<Longrightarrow>
       take m (drop a data) = take m (drop a (read_block_bytes d sb blk))"
proof -
  let ?b = "read_block_bytes d sb blk"
  let ?dst = "take 128 (drop off ?b)"
  let ?data = "overlay ?b off (inode_patch i ?dst)"
  have lb: "length ?b = block_size sb" using assms(1,2) by simp
  have lp: "length (inode_patch i ?dst) = 128" using assms(4) lb by (simp add: length_inode_patch)
  have ld: "length ?data = block_size sb" using lb lp assms(4) by simp
  obtain d' where d': "write_block_bytes d sb blk ?data = Some d'" using write_block_Some[OF assms(1) ld] by blast
  have rd: "read_block_bytes d' sb blk = ?data" by (rule read_write_block[OF assms(1) ld d' assms(5)])
  have "take 128 (drop off ?data) = inode_patch i ?dst" using lb lp assms(4) by simp
  then have "ext2_inode_read d' sb bgdt (i_ino i) = Some (Some i)"
    using assms(3,4,6) rd ld lb by (simp add: ext2_inode_read_def Let_def inode_parse_patch)
  moreover have "ext2_inode_write i d sb bgdt = Some d'"
    using assms(3,4) d' lb by (simp add: ext2_inode_write_def Let_def slice_def)
  moreover have "take m (drop a ?data) = take m (drop a ?b)" if "a + m \<le> off \<or> off + 128 \<le> a" "a + m \<le> block_size sb" for a m
    using that lb lp assms(4) by (intro take_drop_overlay_other) simp_all
  ultimately show thesis using that d' ld by blast
qed

section \<open>Data writes\<close>

definition data_block :: "Ext2State \<Rightarrow> u32 \<Rightarrow> bool" where
  "data_block e b \<longleftrightarrow> b \<notin> meta_blocks e \<and> b \<notin> set (bitmap_blocks (e_bgdt e)) \<and> has_block (e_dev e) (e_sb e) b"

text \<open>Writing a data block keeps the volume consistent and the allocation state as it is.\<close>

lemma data_write:
  assumes "volume_ok e" "data_block e k" "length data = block_size (e_sb e)"
    and "write_block_bytes (e_dev e) (e_sb e) k data = Some d'"
  shows "volume_ok (e\<lparr>e_dev := d'\<rparr>)" "used_blocks (e\<lparr>e_dev := d'\<rparr>) = used_blocks e"
    "used_inodes (e\<lparr>e_dev := d'\<rparr>) = used_inodes e" "\<And>s. d' s = None \<longleftrightarrow> e_dev e s = None"
    "\<And>j. data_block (e\<lparr>e_dev := d'\<rparr>) j = data_block e j"
    "\<And>j. read_block_bytes d' (e_sb e) j = (if j = k then data else read_block_bytes (e_dev e) (e_sb e) j)"
proof -
  have L: "layout_ok e" "synced e" using assms(1) by (simp_all add: volume_ok_def)
  have k: "k \<notin> meta_blocks e" "k \<notin> set (bitmap_blocks (e_bgdt e))" "has_block (e_dev e) (e_sb e) k"
    using assms(2) by (simp_all add: data_block_def)
  note W = write_block_synced[OF L(1) assms(3) k(1) assms(4)]
  note G = layout_okD[OF L(1)]
  show dom: "d' s = None \<longleftrightarrow> e_dev e s = None" for s by (rule W(4))
  show rd: "read_block_bytes d' (e_sb e) j = (if j = k then data else read_block_bytes (e_dev e) (e_sb e) j)" for j
    using read_write_block[OF G(2) assms(3,4) k(3)] write_block_other[OF G(2) assms(3,4)] by simp
  have bm: "slot_bitmap sel (e\<lparr>e_dev := d'\<rparr>) g = slot_bitmap sel e g"
    if "sel \<in> {bg_block_bitmap, bg_inode_bitmap}" "g < length (e_bgdt e)" for sel g
    using rd sel_in_bitmaps[OF that] k(2) by (auto simp: slot_bitmap_def)
  have lay: "layout_ok (e\<lparr>e_dev := d'\<rparr>)"
    using layout_ok_update[OF L(1) W(3) W(4), of "e_sb e" "e_bgdt e"] by (cases e) simp
  have "padded sel p (e\<lparr>e_dev := d'\<rparr>)" if "padded sel p e" "sel \<in> {bg_block_bitmap, bg_inode_bitmap}" for sel p
    using that bm[OF that(2)] by (simp add: padded_def)
  then show "volume_ok (e\<lparr>e_dev := d'\<rparr>)"
    using assms(1) lay W(1,2) by (simp add: volume_ok_def synced_def)
  show "used_blocks (e\<lparr>e_dev := d'\<rparr>) = used_blocks e" "used_inodes (e\<lparr>e_dev := d'\<rparr>) = used_inodes e"
    using bm[of bg_block_bitmap] bm[of bg_inode_bitmap] by (auto simp: used_blocks_def used_inodes_def slot_used_def)
  show "data_block (e\<lparr>e_dev := d'\<rparr>) j = data_block e j" for j
    using has_block_cong[of d' "e_dev e" "e_sb e" j] dom by (simp add: data_block_def meta_blocks_def)
qed

text \<open>Two inodes of one group occupy disjoint ranges of their table.\<close>

lemma inode_locate_split:
  assumes "inode_locate sb bgdt ino = Some (blk, off)"
  obtains g idx bg where "inode_block_group sb ino = Some g" "idx = unat (ino - 1) mod unat (sb_inodes_per_group sb)"
    "g = unat (ino - 1) div unat (sb_inodes_per_group sb)"
    "bgdt_get bgdt g = Some bg" "block_size sb \<noteq> 0"
    "blk = of_nat (unat (bg_inode_table bg) + idx * unat (sb_inode_size sb) div block_size sb)"
    "off = idx * unat (sb_inode_size sb) mod block_size sb"
  using assms
  by (auto simp: inode_locate_def inode_block_group_def inode_local_index_def wdiv_def wmod_def udiv_def Let_def
      bind_eq_Some_conv unat_div unat_mod split: if_splits)

lemma inode_slots_disjoint:
  assumes "inode_locate sb bgdt a = Some (blk, off)" "inode_locate sb bgdt b = Some (blk, off')" "a \<noteq> b"
    and "inode_block_group sb a = inode_block_group sb b" "unat (sb_inode_size sb) dvd block_size sb"
    and "128 \<le> unat (sb_inode_size sb)" "geom_ok sb"
  shows "off + 128 \<le> off' \<or> off' + 128 \<le> off"
proof -
  let ?per = "unat (sb_inodes_per_group sb)" and ?isz = "unat (sb_inode_size sb)" and ?bsz = "block_size sb"
  let ?x = "unat (a - 1) mod ?per" and ?y = "unat (b - 1) mod ?per"
  obtain g bg where A: "g = unat (a - 1) div ?per" "bgdt_get bgdt g = Some bg" "inode_block_group sb a = Some g"
    "blk = of_nat (unat (bg_inode_table bg) + ?x * ?isz div ?bsz)" "off = ?x * ?isz mod ?bsz"
    by (rule inode_locate_split[OF assms(1)]) metis
  obtain h bh where B: "h = unat (b - 1) div ?per" "bgdt_get bgdt h = Some bh" "inode_block_group sb b = Some h"
    "blk = of_nat (unat (bg_inode_table bh) + ?y * ?isz div ?bsz)" "off' = ?y * ?isz mod ?bsz"
    by (rule inode_locate_split[OF assms(2)]) metis
  have gh: "g = h" "bg = bh" using assms(4) A(2,3) B(2,3) by auto
  have "?x \<noteq> ?y"
  proof
    assume "?x = ?y"
    then have "unat (a - 1) = unat (b - 1)" using A(1) B(1) gh(1) by (metis div_mult_mod_eq)
    then show False using assms(3) by (metis diff_add_cancel unsigned_word_eqI)
  qed
  have le: "?isz \<le> ?bsz" using assms(5) block_size_bounds(3)[OF assms(7)] by (intro dvd_imp_le)
  have small: "z * ?isz div ?bsz < 2 ^ LENGTH(32)" if "z < 2 ^ 32" for z
  proof -
    have "z * ?isz div ?bsz \<le> z * ?bsz div ?bsz" using le by (intro div_le_mono mult_le_mono) auto
    then show ?thesis using that block_size_bounds(3)[OF assms(7)] by simp
  qed
  have lim: "?x < 2 ^ 32" "?y < 2 ^ 32"
    using unat_u32_less[of "a - 1"] unat_u32_less[of "b - 1"] by (auto intro: order_le_less_trans[OF mod_less_eq_dividend])
  have "(of_nat (?x * ?isz div ?bsz) :: u32) = of_nat (?y * ?isz div ?bsz)"
    using A(4) B(4) gh(2) by simp
  then have "unat (of_nat (?x * ?isz div ?bsz) :: u32) = unat (of_nat (?y * ?isz div ?bsz) :: u32)" by (rule arg_cong)
  then have q: "?x * ?isz div ?bsz = ?y * ?isz div ?bsz"
    by (simp only: unat_of_nat_less[OF small[OF lim(1)]] unat_of_nat_less[OF small[OF lim(2)]])
  have "?x * ?isz div ?bsz * ?bsz + off = ?x * ?isz" "?x * ?isz div ?bsz * ?bsz + off' = ?y * ?isz"
    unfolding A(5) B(5) by (rule div_mult_mod_eq, unfold q, rule div_mult_mod_eq)
  moreover have "?x * ?isz + ?isz \<le> ?y * ?isz \<or> ?y * ?isz + ?isz \<le> ?x * ?isz"
  proof -
    have "Suc ?x * ?isz \<le> ?y * ?isz \<or> Suc ?y * ?isz \<le> ?x * ?isz"
      using \<open>?x \<noteq> ?y\<close> by (metis linorder_neqE_nat Suc_leI mult_le_mono1)
    then show ?thesis by (simp add: add.commute)
  qed
  ultimately show ?thesis using assms(6) by linarith
qed

lemma inode_off_fits:
  assumes "inode_locate sb bgdt ino = Some (blk, off)" "unat (sb_inode_size sb) dvd block_size sb"
    and "128 \<le> unat (sb_inode_size sb)" "geom_ok sb"
  shows "off + 128 \<le> block_size sb"
proof -
  let ?isz = "unat (sb_inode_size sb)"
  obtain k where k: "block_size sb = ?isz * k" using assms(2) by (elim dvdE)
  obtain idx where off: "off = idx * ?isz mod (?isz * k)" using inode_locate_split[OF assms(1)] k by metis
  then have "off = ?isz * (idx mod k)" by (simp add: mult.commute mod_mult_mult1)
  moreover have "0 < k" using k block_size_bounds(3)[OF assms(4)] by (cases k) auto
  then have "idx mod k + 1 \<le> k" by (simp add: Suc_le_eq)
  then have "?isz * (idx mod k + 1) \<le> ?isz * k" by (rule mult_le_mono2)
  ultimately show ?thesis using k assms(3) by simp
qed

text \<open>C20: Writing an inode and reading it back returns it, on every field and block pointer. The
  other inodes of its group keep their contents, and the write leaves the volume consistent
  with the same blocks and inodes in use.\<close>

theorem ext2_inode_round_trip:
  assumes "volume_ok e" "inode_locate (e_sb e) (e_bgdt e) (i_ino i) = Some (blk, off)" "data_block e blk"
    and "unat (sb_inode_size (e_sb e)) dvd block_size (e_sb e)" "128 \<le> unat (sb_inode_size (e_sb e))"
    and "length (i_block i) = 15"
  shows "\<exists>d'. ext2_inode_write i (e_dev e) (e_sb e) (e_bgdt e) = Some d' \<and>
    ext2_inode_read d' (e_sb e) (e_bgdt e) (i_ino i) = Some (Some i) \<and>
    volume_ok (e\<lparr>e_dev := d'\<rparr>) \<and> used_blocks (e\<lparr>e_dev := d'\<rparr>) = used_blocks e \<and>
    used_inodes (e\<lparr>e_dev := d'\<rparr>) = used_inodes e \<and>
    (\<forall>ino. ino \<noteq> i_ino i \<and> inode_block_group (e_sb e) ino = inode_block_group (e_sb e) (i_ino i)
       \<longrightarrow> ext2_inode_read d' (e_sb e) (e_bgdt e) ino = ext2_inode_read (e_dev e) (e_sb e) (e_bgdt e) ino)"
proof -
  let ?sb = "e_sb e" and ?bgdt = "e_bgdt e"
  have G: "geom_ok ?sb" "disk_wf (e_dev e)" using assms(1) layout_okD(1,2) by (auto simp: volume_ok_def)
  have fit: "off' + 128 \<le> block_size ?sb" if "inode_locate ?sb ?bgdt ino = Some (blk', off')" for ino blk' off'
    by (rule inode_off_fits[OF that assms(4,5) G(1)])
  obtain d' data where w: "ext2_inode_write i (e_dev e) ?sb ?bgdt = Some d'" "write_block_bytes (e_dev e) ?sb blk data = Some d'"
    "length data = block_size ?sb" "ext2_inode_read d' ?sb ?bgdt (i_ino i) = Some (Some i)"
    and keep: "\<And>a m. a + m \<le> off \<or> off + 128 \<le> a \<Longrightarrow> a + m \<le> block_size ?sb \<Longrightarrow>
       take m (drop a data) = take m (drop a (e_read e blk))"
    using inode_write_read[OF G assms(2) fit[OF assms(2)] _ assms(6)] assms(3) by (auto simp: data_block_def)
  note D = data_write[OF assms(1,3) w(3,2)]
  have "ext2_inode_read d' ?sb ?bgdt ino = ext2_inode_read (e_dev e) ?sb ?bgdt ino"
    if "ino \<noteq> i_ino i" "inode_block_group ?sb ino = inode_block_group ?sb (i_ino i)" for ino
  proof (cases "inode_locate ?sb ?bgdt ino")
    case (Some p)
    obtain blk' off' where p: "p = (blk', off')" by (cases p)
    have "take 128 (drop off' (read_block_bytes d' ?sb blk')) = take 128 (drop off' (e_read e blk'))"
    proof (cases "blk' = blk")
      case True
      then have "off + 128 \<le> off' \<or> off' + 128 \<le> off"
        using inode_slots_disjoint[OF assms(2) _ that(1)[symmetric] that(2)[symmetric] assms(4,5) G(1)] Some p by simp
      then show ?thesis using True D(6)[of blk] keep[of off' 128] fit Some p by auto
    qed (simp add: D(6))
    moreover have "length (read_block_bytes d' ?sb blk') = length (e_read e blk')" using D(6) w(3) G by simp
    ultimately show ?thesis using Some p by (simp add: ext2_inode_read_def Let_def)
  qed (simp add: ext2_inode_read_def)
  then show ?thesis using w(1,4) D(1-3) by blast
qed

section \<open>Block map round trip\<close>

text \<open>
  A mountable volume: consistent, with its metadata and block 0 marked in use and every
  numbered block on the device. \<open>own\<close> are the data blocks in use; \<open>steps e e' W\<close> says that \<open>e'\<close> is
  again mountable and differs from \<open>e\<close> on no owned block outside \<open>W\<close>.
\<close>

definition fs_ok :: "Ext2State \<Rightarrow> bool" where
  "fs_ok e \<longleftrightarrow> volume_ok e \<and> insert 0 (meta_blocks e) \<union> set (bitmap_blocks (e_bgdt e)) \<subseteq> used_blocks e \<and>
     (\<forall>b. unat b < length (e_bgdt e) * unat (sb_blocks_per_group (e_sb e)) \<longrightarrow> has_block (e_dev e) (e_sb e) b)"

definition own :: "Ext2State \<Rightarrow> u32 \<Rightarrow> bool" where
  "own e b \<longleftrightarrow> b \<in> used_blocks e \<and> data_block e b \<and> b \<noteq> 0"

definition steps :: "Ext2State \<Rightarrow> Ext2State \<Rightarrow> u32 set \<Rightarrow> bool" where
  "steps e e' W \<longleftrightarrow> fs_ok e' \<and> sb_static_eq (e_sb e) (e_sb e') \<and>
     map bg_inode_table (e_bgdt e') = map bg_inode_table (e_bgdt e) \<and>
     (\<forall>j. own e j \<longrightarrow> own e' j \<and> (j \<notin> W \<longrightarrow> e_read e' j = e_read e j))"

lemma steps_refl: "fs_ok e \<Longrightarrow> steps e e W"
  by (simp add: steps_def)

lemma steps_trans:
  assumes "steps e e1 W" "steps e1 e2 W'"
  shows "steps e e2 (W \<union> W')"
  using assms sb_static_trans[of "e_sb e" "e_sb e1" "e_sb e2"] by (simp add: steps_def)

lemma steps_mono: "steps e e' W \<Longrightarrow> (\<And>j. own e j \<Longrightarrow> j \<in> W \<Longrightarrow> j \<in> W') \<Longrightarrow> steps e e' W'"
  by (auto simp: steps_def)

lemma steps_D:
  assumes "steps e e' W"
  shows "fs_ok e'" "block_size (e_sb e') = block_size (e_sb e)" "own e j \<Longrightarrow> own e' j"
    "own e j \<Longrightarrow> j \<notin> W \<Longrightarrow> e_read e' j = e_read e j"
  using assms sb_static_geometry(7)[of "e_sb e" "e_sb e'"] by (simp_all add: steps_def)

lemma fs_geom:
  assumes "fs_ok e"
  shows "geom_ok (e_sb e)" "disk_wf (e_dev e)" "volume_ok e" "length (e_read e b) = block_size (e_sb e)"
  using assms layout_okD(1,2)[of e] by (auto simp: fs_ok_def volume_ok_def)

lemma zeros_length [simp]: "length (zeros e) = block_size (e_sb e)"
  by (simp add: zeros_def)

lemma alloc_fs:
  assumes "fs_ok e" "avail (Suc k) e"
  obtains b e' where "alloc_or_zero e = Some (b, e')" "steps e e' {}" "avail k e'" "own e' b" "\<not> own e b"
proof -
  have V: "volume_ok e" using assms(1) by (simp add: fs_ok_def)
  obtain b e' where a: "alloc_block e = Some (Some b, e')" "alloc_post e (Some b) e' used_blocks used_inodes" "avail k e'"
    using alloc_block_avail[OF V assms(2)] by blast
  have p: "b \<notin> used_blocks e" "used_blocks e' = insert b (used_blocks e)" "volume_ok e'" "sb_static_eq (e_sb e) (e_sb e')"
    "\<And>s. e_dev e' s = None \<longleftrightarrow> e_dev e s = None" "bitmap_blocks (e_bgdt e') = bitmap_blocks (e_bgdt e)"
    "\<And>j. j \<notin> meta_blocks e \<Longrightarrow> j \<notin> set (bitmap_blocks (e_bgdt e)) \<Longrightarrow>
       read_block_bytes (e_dev e') (e_sb e) j = e_read e j"
    "map bg_inode_table (e_bgdt e') = map bg_inode_table (e_bgdt e)"
    using a(2) by (simp_all add: alloc_post_def)
  note S = sb_static_geometry[OF p(4)]
  have len: "length (e_bgdt e') = length (e_bgdt e)"
    using arg_cong[OF p(6), of length] by (simp add: bitmap_blocks_def)
  have meta: "meta_blocks e' = meta_blocks e" by (simp add: meta_blocks_def S len bg_at_static(2)[OF p(4)])
  have hb: "has_block (e_dev e') (e_sb e') j = has_block (e_dev e) (e_sb e) j" for j
    using has_block_cong[of "e_dev e'" "e_dev e" "e_sb e" j] p(5) by (simp add: S)
  have ok: "fs_ok e'" using assms(1) p(2,3,6) hb by (auto simp: fs_ok_def meta len S)
  have db: "data_block e' j = data_block e j" for j by (simp add: data_block_def meta p(6) hb)
  have "steps e e' {}" using ok p(2,4,7,8) db by (simp add: steps_def own_def data_block_def S)
  moreover have "own e' b"
  proof -
    have "b \<in> used_blocks e'" using p(2) by simp
    then have "unat b div unat (sb_blocks_per_group (e_sb e)) < length (e_bgdt e)"
      by (simp add: used_blocks_def slot_used_def S len)
    then have "unat b < length (e_bgdt e) * unat (sb_blocks_per_group (e_sb e))"
      using V by (simp add: volume_ok_def padded_def div_less_iff_less_mult)
    then have "data_block e b" using assms(1) p(1) by (auto simp: data_block_def fs_ok_def)
    moreover have "b \<noteq> 0" using assms(1) p(1) by (auto simp: fs_ok_def)
    ultimately show ?thesis using p(2) db by (simp add: own_def)
  qed
  moreover have "\<not> own e b" using p(1) by (simp add: own_def)
  ultimately show thesis using that[of b e'] a(1,3) by (simp add: alloc_or_zero_def)
qed

lemma write_fs:
  assumes "fs_ok e" "own e k" "length data = block_size (e_sb e)"
  obtains e' where "e_write e k data = Some e'" "steps e e' {k}" "e_sb e' = e_sb e" "e_read e' k = data"
    "\<And>n. avail n e' = avail n e" "\<And>j. own e' j = own e j" "\<And>j. j \<noteq> k \<Longrightarrow> e_read e' j = e_read e j"
proof -
  have V: "volume_ok e" "data_block e k" using assms(1,2) by (simp_all add: fs_ok_def own_def)
  obtain d where d: "write_block_bytes (e_dev e) (e_sb e) k data = Some d"
    using write_block_Some[OF fs_geom(1)[OF assms(1)] assms(3)] by blast
  note D = data_write[OF V assms(3) d]
  let ?e = "e\<lparr>e_dev := d\<rparr>"
  have hb: "has_block d (e_sb e) b = has_block (e_dev e) (e_sb e) b" for b
    using has_block_cong[of d "e_dev e"] D(4) by blast
  have ok: "fs_ok ?e" using assms(1) D(1,2) hb by (simp add: fs_ok_def meta_blocks_def)
  have "free_bits ?e g = free_bits e g" if "g < length (e_bgdt e)" for g
    using free_bits_used[OF V(1) that refl] free_bits_used[OF D(1), of g] that D(2) by simp
  then have "avail n ?e = avail n e" for n by (auto simp: avail_def)
  moreover have ow: "own ?e j = own e j" for j using D(2,5) by (simp add: own_def)
  moreover have "steps e ?e {k}" using ok ow D(6) by (simp add: steps_def)
  ultimately show thesis using that[of ?e] d D(6) by (simp add: e_write_def)
qed

subsection \<open>Pointers and paths\<close>

abbreviation NPTR :: "Ext2State \<Rightarrow> nat" where
  "NPTR e \<equiv> block_size (e_sb e) div 4"

lemma u32_at_Some: "x * 4 + 4 \<le> length data \<Longrightarrow> u32_at data x = Some (of_le (take 4 (drop (x * 4) data)))"
  by (simp add: u32_at_def get_le_Some)

lemma write_u32_at_Some:
  assumes "x * 4 + 4 \<le> length data"
  obtains data' where "write_u32_at data x v = Some data'" "length data' = length data" "u32_at data' x = Some v"
    "\<And>y. y \<noteq> x \<Longrightarrow> u32_at data' y = u32_at data y"
proof -
  let ?d = "overlay data (x * 4) (to_le 4 v)"
  have "u32_at ?d y = u32_at data y" if "y \<noteq> x" for y
  proof (cases "y * 4 + 4 \<le> length data")
    case True
    then show ?thesis unfolding u32_at_def using assms that by (intro get_le_overlay_other) auto
  qed (use assms in \<open>simp add: u32_at_def get_le_def slice_def\<close>)
  then show thesis
    using assms that[of ?d] by (simp add: write_u32_at_def put_le_Some u32_at_def get_le_overlay_same)
qed

lemma nptr_fits: "x < n div 4 \<Longrightarrow> x * 4 + 4 \<le> (n :: nat)"
  by linarith

definition ptr :: "Ext2State \<Rightarrow> u32 \<Rightarrow> nat \<Rightarrow> u32" where
  "ptr e b x = the (u32_at (e_read e b) x)"

lemma ptr_Some: "fs_ok e \<Longrightarrow> x < NPTR e \<Longrightarrow> u32_at (e_read e b) x = Some (ptr e b x)"
  by (simp add: ptr_def u32_at_Some fs_geom(4) nptr_fits)

text \<open>\<open>path\<close> lists the indirect blocks a lookup visits; \<open>get_path\<close> and \<open>set_path\<close> follow a list of indices.\<close>

fun path :: "Ext2State \<Rightarrow> u32 \<Rightarrow> nat list \<Rightarrow> u32 list" where
  "path e b (x # y # ys) = b # (if ptr e b x = 0 then [] else path e (ptr e b x) (y # ys))"
| "path e b _ = [b]"

fun get_path :: "disk \<Rightarrow> Superblock \<Rightarrow> u32 \<Rightarrow> nat list \<Rightarrow> u32 option option" where
  "get_path dev sb b [] = Some (nonzero b)"
| "get_path dev sb b (x # xs) =
     (if b = 0 then Some None else do { c \<leftarrow> u32_at (read_block_bytes dev sb b) x; get_path dev sb c xs })"

fun set_path :: "Ext2State \<Rightarrow> u32 \<Rightarrow> nat list \<Rightarrow> u32 \<Rightarrow> Ext2State option" where
  "set_path e b (x # y # ys) phys = do { (c, e) \<leftarrow> child_indirect e b x; set_path e c (y # ys) phys }"
| "set_path e b [x] phys = leaf_store e b x phys"
| "set_path e b [] phys = Some e"

lemma leaf_fs:
  assumes "fs_ok e" "own e b" "x < NPTR e"
  obtains e' where "leaf_store e b x v = Some e'" "steps e e' {b}" "ptr e' b x = v" "e_sb e' = e_sb e"
    "\<And>n. avail n e' = avail n e" "\<And>j. own e' j = own e j" "\<And>j. j \<noteq> b \<Longrightarrow> e_read e' j = e_read e j"
proof -
  have "x * 4 + 4 \<le> length (e_read e b)" using assms(3) fs_geom(4)[OF assms(1)] by (simp add: nptr_fits)
  then obtain data where data: "write_u32_at (e_read e b) x v = Some data" "length data = block_size (e_sb e)"
    "u32_at data x = Some v"
    using write_u32_at_Some[of x "e_read e b" v] fs_geom(4)[OF assms(1)] by metis
  obtain e' where e': "e_write e b data = Some e'" "steps e e' {b}" "e_sb e' = e_sb e" "e_read e' b = data"
    "\<And>n. avail n e' = avail n e" "\<And>j. own e' j = own e j" "\<And>j. j \<noteq> b \<Longrightarrow> e_read e' j = e_read e j"
    using write_fs[OF assms(1,2) data(2)] by blast
  show thesis
    by (rule that[of e']) (use e' data in \<open>simp_all add: leaf_store_def ptr_def\<close>)
qed

lemma child_fs:
  assumes "fs_ok e" "avail (Suc k) e" "own e b" "x < NPTR e" "ptr e b x = 0 \<or> own e (ptr e b x) \<and> ptr e b x \<noteq> b"
  obtains c e' where "child_indirect e b x = Some (c, e')" "steps e e' {b}" "avail k e'" "own e' c" "c \<noteq> b"
    "ptr e' b x = c" "if ptr e b x = 0 then \<not> own e c \<and> e_read e' c = zeros e' else c = ptr e b x \<and> e' = e"
proof (cases "ptr e b x = 0")
  case False
  moreover have "child_indirect e b x = Some (ptr e b x, e)"
    using False ptr_Some[OF assms(1,4)] by (simp add: child_indirect_def)
  moreover have "avail k e" using assms(2) by (auto simp: avail_def intro: Suc_leD)
  ultimately show thesis using that[of "ptr e b x" e] assms(5) steps_refl[OF assms(1)] by simp
next
  case True
  obtain c e1 where a: "alloc_or_zero e = Some (c, e1)" "steps e e1 {}" "avail k e1" "own e1 c" "\<not> own e c"
    using alloc_fs[OF assms(1,2)] by blast
  have S: "fs_ok e1" "own e1 b" "e_read e1 b = e_read e b" "sb_static_eq (e_sb e) (e_sb e1)"
    using a(2) assms(3) by (simp_all add: steps_def)
  note G = sb_static_geometry[OF S(4)]
  have cb: "c \<noteq> b" using a(5) assms(3) by auto
  obtain e2 where e2: "leaf_store e1 b x c = Some e2" "steps e1 e2 {b}" "ptr e2 b x = c" "e_sb e2 = e_sb e1"
    "\<And>n. avail n e2 = avail n e1" "\<And>j. own e2 j = own e1 j"
    using leaf_fs[OF S(1,2), of x c] assms(4) G by auto
  have f2: "fs_ok e2" using e2(2) by (simp add: steps_def)
  obtain e3 where e3: "e_write e2 c (zeros e2) = Some e3" "steps e2 e3 {c}" "e_sb e3 = e_sb e2" "e_read e3 c = zeros e2"
    "\<And>n. avail n e3 = avail n e2" "\<And>j. own e3 j = own e2 j" "\<And>j. j \<noteq> c \<Longrightarrow> e_read e3 j = e_read e2 j"
    using write_fs[OF f2, of c "zeros e2"] a(4) e2(6) by auto
  have "child_indirect e b x = Some (c, e3)"
    using True ptr_Some[OF assms(1,4), of b] a(1) e2(1) e3(1) S(3)
    by (auto simp: child_indirect_def leaf_store_def Let_def G bind_eq_Some_conv)
  moreover have "steps e e3 {b}"
    using steps_trans[OF steps_trans[OF a(2) e2(2)] e3(2)] a(5) by (elim steps_mono) auto
  moreover have "ptr e3 b x = c" using e2(3) e3(7) cb by (simp add: ptr_def)
  ultimately show thesis
    using that[of c e3] True a cb e2(5,6) e3(3-6) by (simp add: zeros_def)
qed

lemma ptr_zeros: "e_read e c = zeros e \<Longrightarrow> x < NPTR e \<Longrightarrow> ptr e c x = 0"
proof -
  assume *: "e_read e c = zeros e" "x < NPTR e"
  have "take 4 (drop (x * 4) (zeros e)) = replicate 4 0"
    using nptr_fits[OF *(2)] by (simp add: zeros_def min_def)
  moreover have "of_le (replicate 4 0) = (0 :: u32)" by (simp add: numeral_eq_Suc)
  ultimately show ?thesis using * nptr_fits[OF *(2)] by (simp add: ptr_def u32_at_Some)
qed

lemma path_head: "b \<in> set (path e b xs)"
  by (induction e b xs rule: path.induct) auto

lemma path_cong:
  assumes "\<And>j. j \<in> set (path e b xs) \<Longrightarrow> e_read e' j = e_read e j"
  shows "path e' b xs = path e b xs"
  using assms
proof (induction e b xs rule: path.induct)
  case (1 e b x y ys)
  have "ptr e' b x = ptr e b x" using 1(2)[of b] by (simp add: ptr_def)
  then show ?case using 1 by auto
qed auto

lemma path_zeros: "e_read e b = zeros e \<Longrightarrow> \<forall>x \<in> set xs. x < NPTR e \<Longrightarrow> path e b xs = [b]"
  by (cases xs; cases "tl xs") (auto simp: ptr_zeros)

text \<open>The path below a child pointer: that of the old child, or the fresh block alone.\<close>

lemma child_path:
  assumes "own e1 c" "if ptr e b x = 0 then \<not> own e c \<and> e_read e1 c = zeros e1 else c = ptr e b x \<and> e1 = e"
    and "\<forall>z \<in> set (y # ys). z < NPTR e1"
  shows "path e1 c (y # ys) = (if ptr e b x = 0 then [c] else path e (ptr e b x) (y # ys))"
proof (cases "ptr e b x = 0")
  case True
  then have "ptr e1 c y = 0" using assms(2,3) by (simp add: ptr_zeros)
  then show ?thesis using True by (cases ys) simp_all
qed (use assms(2) in simp)

text \<open>Storing along a path and looking it up again, for any depth.\<close>

lemma set_path_get:
  assumes "fs_ok e" "avail (length xs) e" "xs \<noteq> []" "\<forall>x \<in> set xs. x < NPTR e"
    and "distinct (path e b xs)" "\<forall>j \<in> set (path e b xs). own e j"
  obtains e' where "set_path e b xs v = Some e'" "steps e e' (set (path e b xs))"
    "get_path (e_dev e') (e_sb e') b xs = Some (nonzero v)"
proof -
  have "\<exists>e'. set_path e b xs v = Some e' \<and> steps e e' (set (path e b xs)) \<and>
      get_path (e_dev e') (e_sb e') b xs = Some (nonzero v)"
    using assms
  proof (induction xs arbitrary: e b rule: induct_list012)
    case (2 x)
    have o: "own e b" "x < NPTR e" using 2(4,6) by simp_all
    obtain e' where e': "leaf_store e b x v = Some e'" "steps e e' {b}" "ptr e' b x = v" "e_sb e' = e_sb e"
      using leaf_fs[OF 2(1) o] by metis
    then have "u32_at (e_read e' b) x = Some v"
      using ptr_Some[of e' x b] o(2) by (simp add: steps_def)
    then show ?case using e' o(1) by (auto simp: own_def)
  next
    case (3 x y ys)
    have o: "own e b" "x < NPTR e" using 3(6,8) by simp_all
    have pc: "ptr e b x = 0 \<or> own e (ptr e b x) \<and> ptr e b x \<noteq> b"
      using 3(7,8) path_head[of "ptr e b x" e "y # ys"] by (cases "ptr e b x = 0") auto
    have av: "avail (Suc (length (y # ys))) e" using 3(4) by simp
    obtain c e1 where c: "child_indirect e b x = Some (c, e1)" "steps e e1 {b}" "avail (length (y # ys)) e1"
      "own e1 c" "c \<noteq> b" "ptr e1 b x = c"
      "if ptr e b x = 0 then \<not> own e c \<and> e_read e1 c = zeros e1 else c = ptr e b x \<and> e1 = e"
      using child_fs[OF 3(3) av o pc] by metis
    note s1 = steps_D[OF c(2)]
    have xs1: "\<forall>z \<in> set (y # ys). z < NPTR e1" using 3(6) s1(2) by simp
    note P = child_path[OF c(4,7) xs1]
    have d1: "distinct (path e1 c (y # ys))" "b \<notin> set (path e1 c (y # ys))"
      using 3(7) c(5) unfolding P by (auto split: if_splits)
    have own1: "\<forall>j \<in> set (path e1 c (y # ys)). own e1 j"
      using 3(8) c(4) s1(3) unfolding P by (cases "ptr e b x = 0") auto
    obtain e2 where e2: "set_path e1 c (y # ys) v = Some e2" "steps e1 e2 (set (path e1 c (y # ys)))"
      "get_path (e_dev e2) (e_sb e2) c (y # ys) = Some (nonzero v)"
      using 3(2)[OF s1(1) c(3) _ xs1 d1(1) own1] by blast
    have "x < NPTR e1" using o(2) s1(2) by simp
    then have "u32_at (e_read e2 b) x = Some c"
      using ptr_Some[OF s1(1), of x b] c(6) steps_D(4)[OF e2(2) s1(3)[OF o(1)] d1(2)] by simp
    then have "get_path (e_dev e2) (e_sb e2) b (x # y # ys) = Some (nonzero v)"
      using o(1) e2(3) by (simp add: own_def)
    moreover have "steps e e2 (set (path e b (x # y # ys)))"
      using steps_trans[OF c(2) e2(2)] c(7) unfolding P by (elim steps_mono) (auto split: if_splits)
    ultimately show ?case using c(1) e2(1) by (intro exI[of _ e2]) simp
  qed simp
  then show thesis using that by blast
qed

subsection \<open>The route of a logical block\<close>

text \<open>The inode slot and the indices in the indirect blocks, for \<open>p\<close> pointers per block.\<close>

definition block_route :: "nat \<Rightarrow> nat \<Rightarrow> (nat \<times> nat list) option" where
  "block_route p n =
     (if n < 12 then Some (n, [])
      else if n - 12 < p then Some (12, [n - 12])
      else if n - 12 - p < p * p then Some (13, [(n - 12 - p) div p, (n - 12 - p) mod p])
      else if (n - 12 - p - p * p) div (p * p) < p
      then Some (14, [(n - 12 - p - p * p) div (p * p), (n - 12 - p - p * p) div p mod p, (n - 12 - p - p * p) mod p])
      else None)"

lemma route_bounds:
  assumes "block_route p n = Some (slot, xs)" "0 < p"
  shows "slot < 15" "\<forall>x \<in> set xs. x < p" "length xs \<le> 3" "12 \<le> n \<Longrightarrow> xs \<noteq> []" "n < 12 \<Longrightarrow> xs = []"
proof -
  have "q < p * p \<Longrightarrow> q div p < p" for q by (simp add: div_less_iff_less_mult assms(2))
  then show "\<forall>x \<in> set xs. x < p" using assms by (auto simp: block_route_def split: if_splits)
  show "slot < 15" "length xs \<le> 3" "12 \<le> n \<Longrightarrow> xs \<noteq> []" "n < 12 \<Longrightarrow> xs = []"
    using assms(1) by (auto simp: block_route_def split: if_splits)
qed

lemma ptrs_word:
  assumes "geom_ok sb" "ptrs = (of_nat (block_size sb div 4) :: u32)" "p = block_size sb div 4"
  shows "unat ptrs = p" "unat (ptrs * ptrs) = p * p" "0 < p" "ptrs \<noteq> 0" "ptrs * ptrs \<noteq> 0"
proof -
  have p: "256 \<le> p" "p \<le> 16384" using block_size_bounds[OF assms(1)] assms(3) by linarith+
  then show 1: "unat ptrs = p" using assms(2,3) by (simp add: unat_of_nat_less)
  have "p * p \<le> 16384 * 16384" using p by (intro mult_le_mono) auto
  then show 2: "unat (ptrs * ptrs) = p * p" using 1 by (simp add: unat_word_ariths)
  show "0 < p" using p by simp
  then show "ptrs \<noteq> 0" "ptrs * ptrs \<noteq> 0" using 1 2 by (auto simp: unat_eq_zero[symmetric] simp del: unat_eq_zero)
qed

lemma route_cases:
  assumes "geom_ok sb" "p = block_size sb div 4" "block_route p (unat n) = Some (slot, xs)"
    and "ptrs = (of_nat (block_size sb div 4) :: u32)"
  obtains (direct) "n < 12" "slot = unat n" "xs = []"
  | (single) "\<not> n < 12" "n - 12 < ptrs" "slot = 12" "xs = [unat (n - 12)]"
  | (double) "\<not> n < 12" "\<not> n - 12 < ptrs" "n - 12 - ptrs < ptrs * ptrs" "slot = 13"
      "xs = [unat ((n - 12 - ptrs) div ptrs), unat ((n - 12 - ptrs) mod ptrs)]"
  | (triple) "\<not> n < 12" "\<not> n - 12 < ptrs" "\<not> n - 12 - ptrs < ptrs * ptrs" "slot = 14"
      "xs = [unat ((n - 12 - ptrs - ptrs * ptrs) div (ptrs * ptrs)), unat ((n - 12 - ptrs - ptrs * ptrs) div ptrs mod ptrs),
        unat ((n - 12 - ptrs - ptrs * ptrs) mod ptrs)]"
proof -
  note W = ptrs_word[OF assms(1,4,2)]
  have s1: "unat (n - 12) = unat n - 12" if "\<not> n < 12"
    using that by (simp add: unat_sub word_le_nat_alt word_less_nat_alt not_less)
  have s2: "unat (n - 12 - ptrs) = unat n - 12 - p" if "\<not> n < 12" "\<not> n - 12 < ptrs"
    using that s1[OF that(1)] W(1) by (simp add: unat_sub word_le_nat_alt word_less_nat_alt not_less)
  have s3: "unat (n - 12 - ptrs - ptrs * ptrs) = unat n - 12 - p - p * p"
    if "\<not> n < 12" "\<not> n - 12 < ptrs" "\<not> n - 12 - ptrs < ptrs * ptrs"
    using that s2[OF that(1,2)] W(2) by (simp add: unat_sub word_le_nat_alt word_less_nat_alt not_less)
  consider "n < 12" | "\<not> n < 12" "n - 12 < ptrs" | "\<not> n < 12" "\<not> n - 12 < ptrs" "n - 12 - ptrs < ptrs * ptrs"
    | "\<not> n < 12" "\<not> n - 12 < ptrs" "\<not> n - 12 - ptrs < ptrs * ptrs" by blast
  then show thesis
  proof cases
    case 1
    then have "unat n < 12" by (simp add: word_less_nat_alt)
    then show ?thesis using 1 assms(3) direct by (auto simp: block_route_def)
  next
    case 2
    have "\<not> unat n < 12" "unat n - 12 < p" using 2 s1 W(1) by (simp_all add: word_less_nat_alt)
    then show ?thesis using 2 assms(3) s1[OF 2(1)] single by (simp add: block_route_def)
  next
    case 3
    have c: "\<not> unat n < 12" "\<not> unat n - 12 < p" "unat n - 12 - p < p * p"
      using 3 s1[OF 3(1)] s2[OF 3(1,2)] W(1,2) by (simp_all add: word_less_nat_alt)
    then show ?thesis using 3 assms(3) s2[OF 3(1,2)] W(1) double by (simp add: block_route_def unat_div unat_mod)
  next
    case 4
    have c: "\<not> unat n < 12" "\<not> unat n - 12 < p" "\<not> unat n - 12 - p < p * p"
      using 4 s1[OF 4(1)] s2[OF 4(1,2)] W(1,2) by (simp_all add: word_less_nat_alt)
    then show ?thesis
      using 4 assms(3) s3[OF 4] W(1,2) triple by (simp add: block_route_def unat_div unat_mod split: if_splits)
  qed
qed

lemma get_block_route:
  assumes "geom_ok sb" "p = block_size sb div 4" "block_route p (unat n) = Some (slot, xs)" "length (i_block i) = 15"
  shows "get_block i dev sb n = get_path dev sb (i_block i ! slot) xs"
proof -
  define ptrs where "ptrs = (of_nat (block_size sb div 4) :: u32)"
  note W = ptrs_word[OF assms(1) ptrs_def assms(2)]
  have "n < 12 \<Longrightarrow> unat n < 12" by (simp add: word_less_nat_alt)
  then show ?thesis
    by (cases rule: route_cases[OF assms(1-3) ptrs_def])
      (use assms(4) W(4,5) in \<open>simp_all add: get_block_def index_at_def Let_def wdiv_def wmod_def flip: ptrs_def cong: if_cong\<close>)
qed

lemma set_block_route:
  assumes "geom_ok (e_sb e)" "p = NPTR e" "block_route p (unat n) = Some (slot, xs)" "length (i_block i) = 15"
  shows "set_block i e n v =
    (if xs = [] then Some (i\<lparr>i_block := (i_block i)[slot := v]\<rparr>, e)
     else do { (i, e) \<leftarrow> root_indirect i e slot; e \<leftarrow> set_path e (i_block i ! slot) xs v; Some (i, e) })"
proof -
  define ptrs where "ptrs = (of_nat (block_size (e_sb e) div 4) :: u32)"
  note W = ptrs_word[OF assms(1) ptrs_def assms(2)]
  have "n < 12 \<Longrightarrow> unat n < 12" by (simp add: word_less_nat_alt)
  then show ?thesis
    by (cases rule: route_cases[OF assms(1-3) ptrs_def])
      (use assms(4) W(4,5) in \<open>simp_all add: set_block_def store_at_def Let_def wdiv_def wmod_def case_prod_unfold flip: ptrs_def\<close>)
qed

lemma root_fs:
  assumes "fs_ok e" "avail (Suc k) e" "slot < length (i_block i)" "i_block i ! slot = 0 \<or> own e (i_block i ! slot)"
  obtains i' e' where "root_indirect i e slot = Some (i', e')" "steps e e' {}" "avail k e'" "own e' (i_block i' ! slot)"
    "i_block i' = (i_block i)[slot := i_block i' ! slot]"
    "if i_block i ! slot = 0 then e_read e' (i_block i' ! slot) = zeros e' \<and> \<not> own e (i_block i' ! slot) else i' = i \<and> e' = e"
proof (cases "i_block i ! slot = 0")
  case False
  moreover have "avail k e" using assms(2) by (auto simp: avail_def intro: Suc_leD)
  ultimately show thesis
    using that[of i e] assms steps_refl[OF assms(1)] by (simp add: root_indirect_def index_at_def)
next
  case True
  obtain c e1 where a: "alloc_or_zero e = Some (c, e1)" "steps e e1 {}" "avail k e1" "own e1 c" "\<not> own e c"
    using alloc_fs[OF assms(1,2)] by blast
  obtain e2 where e2: "e_write e1 c (zeros e1) = Some e2" "steps e1 e2 {c}" "e_sb e2 = e_sb e1" "e_read e2 c = zeros e1"
    "\<And>n. avail n e2 = avail n e1" "\<And>j. own e2 j = own e1 j"
    by (rule write_fs[OF steps_D(1)[OF a(2)] a(4) zeros_length]) blast
  have "steps e e2 {}" using steps_trans[OF a(2) e2(2)] a(5) by (elim steps_mono) auto
  moreover have "root_indirect i e slot = Some (i\<lparr>i_block := (i_block i)[slot := c]\<rparr>, e2)"
    using True assms(3) a(1) e2(1) by (simp add: root_indirect_def index_at_def)
  ultimately show thesis
    using that[of "i\<lparr>i_block := (i_block i)[slot := c]\<rparr>" e2] True assms(3) a e2 by (simp add: zeros_def)
qed


section \<open>A full volume\<close>

lemma big_block:
  assumes "geom_ok sb" "sb_log_block_size sb \<noteq> 0"
  shows "2048 \<le> block_size sb"
proof -
  have "(2 :: nat) ^ 1 \<le> 2 ^ unat (sb_log_block_size sb)"
    using assms(2) by (intro power_increasing) (auto simp: Suc_le_eq unat_gt_0)
  then show ?thesis by (simp add: block_size_pow[OF assms(1)])
qed

lemma block0_sector:
  assumes "geom_ok sb" "length data = block_size sb" "write_block_bytes d sb 0 data = Some d'" "sb_log_block_size sb \<noteq> 0"
    and "d 2 \<noteq> None"
  shows "d' 2 = Some (take SECTOR (drop 1024 data))"
proof -
  have "2 < sectors_per_block sb" "sectors_per_block sb \<le> 2 ^ 64"
    using big_block[OF assms(1,4)] spb_bounds[OF assms(1)] by (simp_all add: block_size_spb[OF assms(1)])
  then show ?thesis
    using assms(3,5) write_block_Some[OF assms(1,2)] by (auto simp: write_sectors_apply block_to_sector_def)
qed

text \<open>C40: On a full volume with blocks larger than 1 KiB, extending a file past its direct
  blocks destroys the file system: the failed allocation of the indirect block is taken
  as block 0, which is zeroed and used as an indirect block, so the superblock it contains
  no longer parses.\<close>

theorem ext2_full_volume_loses_superblock:
  assumes "volume_ok e" "alloc_block e = Some (None, e)" "sb_log_block_size (e_sb e) \<noteq> 0" "has_block (e_dev e) (e_sb e) 0"
    and "length (i_block i) = 15" "i_block i ! 12 = 0" "12 \<le> n" "n - 12 < of_nat (NPTR e)" "n - 12 \<noteq> 270"
  shows "\<exists>i' e'. set_block i e n v = Some (i', e') \<and> i_block i' ! 12 = 0 \<and> sb_read (e_dev e') = None"
proof -
  have L: "layout_ok e" using assms(1) by (simp add: volume_ok_def)
  note G = layout_okD(2)[OF L] and wf = layout_okD(1)[OF L]
  let ?z = "zeros e" and ?x = "unat (n - 12)"
  have big: "2048 \<le> block_size (e_sb e)" using big_block[OF G assms(3)] .
  obtain d1 where d1: "write_block_bytes (e_dev e) (e_sb e) 0 ?z = Some d1"
    using write_block_Some[OF G zeros_length] by blast
  have rd1: "read_block_bytes d1 (e_sb e) 0 = ?z" by (rule read_write_block[OF G zeros_length d1 assms(4)])
  have x: "?x < NPTR e" using assms(8) ptrs_word(1)[OF G refl refl] by (simp add: word_less_nat_alt)
  let ?data = "overlay ?z (?x * 4) (to_le 4 v)"
  have fit: "?x * 4 + 4 \<le> length ?z" using nptr_fits[OF x] by simp
  then have ld: "length ?data = block_size (e_sb e)" by simp
  have dom: "d1 s = None \<longleftrightarrow> e_dev e s = None" for s by (rule write_block_dom[OF G zeros_length d1])
  obtain d2 where d2: "write_block_bytes d1 (e_sb e) 0 ?data = Some d2" using write_block_Some[OF G ld] by blast
  have s2: "d1 2 \<noteq> None" using L dom by (simp add: layout_ok_def)
  have mag: "take 2 (drop 56 (take SECTOR (drop 1024 ?data))) = take 2 (drop 1080 ?z)"
  proof -
    have "?x \<noteq> 270" using assms(9) by (simp add: word_unat_eq_iff)
    then have "1080 + 2 \<le> ?x * 4 \<or> ?x * 4 + 4 \<le> 1080" by linarith
    then have "take 2 (drop 1080 ?data) = take 2 (drop 1080 ?z)"
      using fit big by (intro take_drop_overlay_other) simp_all
    then show ?thesis by (simp add: drop_take)
  qed
  have "d2 2 = Some (take SECTOR (drop 1024 ?data))" by (rule block0_sector[OF G ld d2 assms(3) s2])
  moreover have "length (take SECTOR (drop 1024 ?data)) = SECTOR" using ld big by simp
  moreover have "take 2 (drop 1080 ?z) = [0, 0]" using big by (simp add: zeros_def numeral_2_eq_2)
  ultimately have "sb_read d2 = None"
    using mag by (simp add: sb_read_def dev_read_def Let_def bind_eq_None_conv del: drop_take take_take)
  moreover have nl: "(n < 12) = False" using assms(7) by (simp add: not_less)
  have "set_block i e n v = Some (i\<lparr>i_block := (i_block i)[12 := 0]\<rparr>, e\<lparr>e_dev := d2\<rparr>)"
    using assms(2,5-8) d1 d2 rd1 fit
    by (simp add: set_block_def Let_def root_indirect_def index_at_def alloc_or_zero_def e_write_def leaf_store_def
        write_u32_at_def put_le_Some nl)
  ultimately show ?thesis using assms(5) by simp
qed

section \<open>Sample volume\<close>

lemma demo_facts:
  "length (e_bgdt demo_ext2) = 1" "e_sb demo_ext2 = vol_sb 2 32768" "block_size (vol_sb 2 32768) = 4096"
  "sb_blocks_per_group (vol_sb 2 32768) = 32768" "sb_inodes_per_group (vol_sb 2 32768) = 32768"
  "sb_inode_size (vol_sb 2 32768) = 128" "sb_first_data_block (vol_sb 2 32768) = 0" "e_bgdt demo_ext2 = [vol_bg 5 (vol_sb 2 32768)]"
  by (simp_all add: demo_ext2_def vol_def vol_sb_def block_size_def push_bit_eq_mult)

lemma demo_bits: "\<exists>rest. slot_bitmap bg_block_bitmap demo_ext2 0 = 0xFF # 3 # rest"
  using vol_bitmap[of "vol_sb 2 32768" 5] by (simp add: demo_ext2_def)

lemma demo_used: "unat b < 5 \<Longrightarrow> b \<in> used_blocks demo_ext2"
proof -
  assume b: "unat b < 5"
  then have "unat b = 0 \<or> unat b = 1 \<or> unat b = 2 \<or> unat b = 3 \<or> unat b = 4" by linarith
  moreover obtain rest where "slot_bitmap bg_block_bitmap demo_ext2 0 = 0xFF # 3 # rest" using demo_bits by blast
  ultimately show ?thesis by (auto simp: used_blocks_def slot_used_def demo_facts bm_bit_def)
qed

lemma demo_has_block: "has_block (e_dev demo_ext2) sb b"
  by (simp add: has_block_def demo_ext2_def vol_def vol_dev_def)

lemma demo_meta: "meta_blocks demo_ext2 = {0, 1}" "bitmap_blocks (e_bgdt demo_ext2) = [2, 3]"
  by (auto simp: meta_blocks_def bitmap_blocks_def demo_facts vol_bg_def vol_sb_def sb_blk_def bg_home_def lessThan_Suc)

lemma demo_fs_ok: "fs_ok demo_ext2"
  using demo_ext2_ok demo_has_block demo_used[of 0] demo_used[of 1] demo_used[of 2] demo_used[of 3]
  by (simp add: fs_ok_def demo_meta)

lemma demo_avail: "avail 4 demo_ext2"
proof -
  obtain rest where "slot_bitmap bg_block_bitmap demo_ext2 0 = 0xFF # 3 # rest" using demo_bits by blast
  then have "{10, 11, 12, 13} \<subseteq> free_bits demo_ext2 0"
    by (auto simp: free_bits_def demo_facts bm_bit_def)
  then have "card {10, 11, 12, 13 :: nat} \<le> card (free_bits demo_ext2 0)" by (intro card_mono) simp_all
  then show ?thesis unfolding avail_def demo_facts by (intro exI[of _ 0]) (simp add: vol_bg_def)
qed

definition demo_inode :: Inode where
  "demo_inode = \<lparr> i_mode = EXT2_S_IFREG, i_links_count = 1, i_size = 0, i_blocks = 0, i_block = replicate 15 0, i_ino = 12 \<rparr>"


theorem ext2_full_volume_loses_superblock_witness:
  "\<exists>i' e'. set_block demo_inode demo_full 17 77 = Some (i', e') \<and> sb_read (e_dev e') = None"
proof -
  have n: "NPTR demo_full = 1024" by (simp add: demo_full_def vol_def demo_facts)
  have "alloc_block demo_full = Some (None, demo_full)"
    by (simp add: alloc_block_def demo_full_def vol_def vol_sb_geom(4) bgdt_get_def index_at_def vol_bg_def)
  from ext2_full_volume_loses_superblock[OF demo_full_ok this, of demo_inode 17 77] show ?thesis
    by (simp add: n demo_inode_def) (auto simp: demo_full_def vol_def vol_sb_def has_block_def vol_dev_def)
qed

theorem ext2_inode_round_trip_witness:
  "\<exists>d'. ext2_inode_write demo_inode (e_dev demo_ext2) (e_sb demo_ext2) (e_bgdt demo_ext2) = Some d' \<and>
     ext2_inode_read d' (e_sb demo_ext2) (e_bgdt demo_ext2) 12 = Some (Some demo_inode)"
proof -
  have loc: "inode_locate (e_sb demo_ext2) (e_bgdt demo_ext2) (i_ino demo_inode) = Some (4, 1408)"
    by (simp add: inode_locate_def inode_block_group_def inode_local_index_def wdiv_def wmod_def udiv_def
        demo_facts bgdt_get_def index_at_def vol_bg_def demo_inode_def)
  have db: "data_block demo_ext2 4" by (simp add: data_block_def demo_meta demo_has_block)
  have ino: "length (i_block demo_inode) = 15" "i_ino demo_inode = 12" by (simp_all add: demo_inode_def)
  have sz: "unat (sb_inode_size (e_sb demo_ext2)) dvd block_size (e_sb demo_ext2)" "128 \<le> unat (sb_inode_size (e_sb demo_ext2))"
    by (simp_all add: demo_facts)
  show ?thesis using ext2_inode_round_trip[OF demo_ext2_ok loc db sz ino(1)] ino(2) by auto
qed

end
