(* ===== verification/Ext2_Dir.thy ===== *)
theory Ext2_Dir
  imports Ext2_Inode Vfs
begin

text \<open>
  fs/src/ext2/dir.rs: linear directories. A directory block is a chain of variable-length
  records (inode number, record length, name length, file type, name); the record lengths
  tile the block, and a record with inode number 0 is free.
\<close>

abbreviation EXT2_FT_REG_FILE :: u8 where "EXT2_FT_REG_FILE \<equiv> 1"
abbreviation EXT2_FT_DIR :: u8 where "EXT2_FT_DIR \<equiv> 2"

definition dir_read_block :: "disk \<Rightarrow> Superblock \<Rightarrow> u32 \<Rightarrow> bytes" where
  "dir_read_block dev sb blk = read_sectors dev (block_to_sector sb (ucast blk)) (sectors_per_block sb)"

definition dir_write_block :: "disk \<Rightarrow> Superblock \<Rightarrow> u32 \<Rightarrow> bytes \<Rightarrow> disk option" where
  "dir_write_block dev sb blk data =
     (if sectors_per_block sb * SECTOR \<le> length data
      then Some (write_sectors dev (block_to_sector sb (ucast blk)) (sectors_per_block sb) data)
      else None)"

section \<open>Walking a block\<close>

definition ent_ino :: "bytes \<Rightarrow> nat \<Rightarrow> u32" where
  "ent_ino block off = of_le (take 4 (drop off block))"

definition ent_rec_len :: "bytes \<Rightarrow> nat \<Rightarrow> nat" where
  "ent_rec_len block off = unat (of_le (take 2 (drop (off + 4) block)) :: u16)"

definition ent_name_len :: "bytes \<Rightarrow> nat \<Rightarrow> nat" where
  "ent_name_len block off = unat (block ! (off + 6))"

type_synonym dirent = "nat \<times> u32 \<times> nat \<times> str"

text \<open>The entries \<open>for_each_entry\<close> passes to its closure, in order: offset, inode, record length, name.
  The closures do not change the block, so an early return is a search in this list.\<close>

function for_each_entry :: "bytes \<Rightarrow> nat \<Rightarrow> dirent list" where
  "for_each_entry block off =
     (if off + 8 \<le> length block then
        let ino = ent_ino block off; rec_len = ent_rec_len block off; name_len = ent_name_len block off
        in if rec_len < 8 \<or> off + rec_len > length block then []
           else (off, ino, rec_len, take (min name_len (length block - off - 8)) (drop (off + 8) block))
                # for_each_entry block (off + rec_len)
      else [])"
  by pat_completeness auto
termination
  by (relation "measure (\<lambda>(block, off). length block - off)") auto

declare for_each_entry.simps [simp del]

definition lookup_block :: "bytes \<Rightarrow> str \<Rightarrow> u32 option" where
  "lookup_block block name =
     map_option (\<lambda>(off, ino, rec_len, nbs). ino)
       (find (\<lambda>(off, ino, rec_len, nbs). ino \<noteq> 0 \<and> nbs = name) (for_each_entry block 0))"

section \<open>Lookup and listing\<close>

definition dir_n_blocks :: "Superblock \<Rightarrow> Inode \<Rightarrow> nat option" where
  "dir_n_blocks sb dir_ino = udiv (inode_size dir_ino + block_size sb - 1) (block_size sb)"

fun lookup_blocks :: "disk \<Rightarrow> Superblock \<Rightarrow> Inode \<Rightarrow> str \<Rightarrow> nat list \<Rightarrow> u32 option option" where
  "lookup_blocks dev sb dir_ino name [] = Some None"
| "lookup_blocks dev sb dir_ino name (k # ks) =
     do { r \<leftarrow> get_block dir_ino dev sb (of_nat k);
          case r of
            None \<Rightarrow> Some None
          | Some phys \<Rightarrow>
              (case lookup_block (dir_read_block dev sb phys) name of
                 Some ino \<Rightarrow> Some (Some ino)
               | None \<Rightarrow> lookup_blocks dev sb dir_ino name ks) }"

definition lookup_in_dir :: "disk \<Rightarrow> Superblock \<Rightarrow> Inode \<Rightarrow> str \<Rightarrow> u32 option option" where
  "lookup_in_dir dev sb dir_ino name =
     do { n \<leftarrow> dir_n_blocks sb dir_ino; lookup_blocks dev sb dir_ino name [0..<n] }"

abbreviation DOT :: u8 where "DOT \<equiv> 0x2E"

fun readdir_entries :: "disk \<Rightarrow> Superblock \<Rightarrow> BgDescTable \<Rightarrow> dirent list \<Rightarrow> (str \<times> FileType) list option" where
  "readdir_entries dev sb bgdt [] = Some []"
| "readdir_entries dev sb bgdt ((off, ino, rec_len, nbs) # es) =
     (if ino \<noteq> 0 \<and> utf8_ok nbs \<and> nbs \<noteq> [DOT] \<and> nbs \<noteq> [DOT, DOT] then
        do { ch \<leftarrow> ext2_inode_read dev sb bgdt ino;
             let ftype = (case ch of Some i \<Rightarrow> if is_dir i then Directory else File | None \<Rightarrow> File);
             rest \<leftarrow> readdir_entries dev sb bgdt es;
             Some ((nbs, ftype) # rest) }
      else readdir_entries dev sb bgdt es)"

fun readdir_blocks :: "disk \<Rightarrow> Superblock \<Rightarrow> BgDescTable \<Rightarrow> Inode \<Rightarrow> nat list \<Rightarrow> (str \<times> FileType) list option" where
  "readdir_blocks dev sb bgdt dir_ino [] = Some []"
| "readdir_blocks dev sb bgdt dir_ino (k # ks) =
     do { r \<leftarrow> get_block dir_ino dev sb (of_nat k);
          case r of
            None \<Rightarrow> readdir_blocks dev sb bgdt dir_ino ks
          | Some phys \<Rightarrow>
              do { xs \<leftarrow> readdir_entries dev sb bgdt (for_each_entry (dir_read_block dev sb phys) 0);
                   ys \<leftarrow> readdir_blocks dev sb bgdt dir_ino ks;
                   Some (xs @ ys) } }"

definition ext2_readdir :: "disk \<Rightarrow> Superblock \<Rightarrow> BgDescTable \<Rightarrow> Inode \<Rightarrow> (str \<times> FileType) list option" where
  "ext2_readdir dev sb bgdt dir_ino =
     do { n \<leftarrow> dir_n_blocks sb dir_ino; readdir_blocks dev sb bgdt dir_ino [0..<n] }"

section \<open>Adding and removing entries\<close>

definition write_dir_entry :: "bytes \<Rightarrow> nat \<Rightarrow> u32 \<Rightarrow> u16 \<Rightarrow> u8 \<Rightarrow> u8 \<Rightarrow> str \<Rightarrow> bytes option" where
  "write_dir_entry block off ino rec_len name_len file_type name =
     do { block \<leftarrow> put_le 4 block off ino;
          block \<leftarrow> put_le 2 block (off + 4) rec_len;
          block \<leftarrow> store_at block (off + 6) name_len;
          block \<leftarrow> store_at block (off + 7) file_type;
          let nlen = unat name_len;
          src \<leftarrow> slice name 0 nlen;
          copy_slice block (off + 8) (off + 8 + nlen) src }"

definition ent_size :: "nat \<Rightarrow> nat" where
  "ent_size nlen = (8 + nlen + 3) div 4 * 4"

text \<open>The walk of \<open>add_entry\<close> to the last record of a block. \<open>rec_len - actual\<close> is a wrapping subtraction.\<close>

function add_scan :: "bytes \<Rightarrow> nat \<Rightarrow> u32 \<Rightarrow> u8 \<Rightarrow> str \<Rightarrow> bytes option option" where
  "add_scan block off child_ino file_type name =
     (if off + 8 > length block then Some None
      else let rec_len = ent_rec_len block off; name_len = ent_name_len block off
           in if rec_len < 8 then Some None
              else let actual = ent_size name_len; next_off = off + rec_len
                   in if next_off \<ge> length block then
                        (let slack = of_nat rec_len - of_nat actual :: u64
                         in if unat (of_nat (ent_size (length name)) :: u16) \<le> unat slack then
                              do { block \<leftarrow> put_le 2 block (off + 4) (of_nat actual :: u16);
                                   block \<leftarrow> write_dir_entry block (off + actual) child_ino
                                     (of_nat rec_len - of_nat actual) (of_nat (length name)) file_type name;
                                   Some (Some block) }
                            else Some None)
                      else add_scan block next_off child_ino file_type name)"
  by pat_completeness auto
termination
  by (relation "measure (\<lambda>(block, off, _). length block - off)") auto

declare add_scan.simps [simp del]

fun add_blocks :: "Ext2State \<Rightarrow> Inode \<Rightarrow> u32 \<Rightarrow> u8 \<Rightarrow> str \<Rightarrow> nat list \<Rightarrow> Ext2State option option" where
  "add_blocks e dir_ino child_ino file_type name [] = Some None"
| "add_blocks e dir_ino child_ino file_type name (k # ks) =
     do { r \<leftarrow> get_block dir_ino (e_dev e) (e_sb e) (of_nat k);
          case r of
            None \<Rightarrow> add_blocks e dir_ino child_ino file_type name ks
          | Some phys \<Rightarrow>
              do { s \<leftarrow> add_scan (dir_read_block (e_dev e) (e_sb e) phys) 0 child_ino file_type name;
                   case s of
                     Some block \<Rightarrow>
                       do { d \<leftarrow> dir_write_block (e_dev e) (e_sb e) phys block; Some (Some (e\<lparr>e_dev := d\<rparr>)) }
                   | None \<Rightarrow> add_blocks e dir_ino child_ino file_type name ks } }"

definition add_entry :: "Ext2State \<Rightarrow> Inode \<Rightarrow> str \<Rightarrow> u32 \<Rightarrow> u8 \<Rightarrow> (Inode \<times> Ext2State) option" where
  "add_entry e dir_ino name child_ino file_type =
     do { let bsz = block_size (e_sb e);
          n_blocks \<leftarrow> dir_n_blocks (e_sb e) dir_ino;
          r \<leftarrow> add_blocks e dir_ino child_ino file_type name [0..<n_blocks];
          case r of
            Some e \<Rightarrow> Some (dir_ino, e)
          | None \<Rightarrow>
              do { (a, e) \<leftarrow> alloc_block e;
                   case a of
                     None \<Rightarrow> Some (dir_ino, e)
                   | Some phys \<Rightarrow>
                       do { block \<leftarrow> write_dir_entry (replicate bsz 0) 0 child_ino (of_nat bsz)
                                       (of_nat (length name)) file_type name;
                            d \<leftarrow> dir_write_block (e_dev e) (e_sb e) phys block;
                            (dir_ino, e) \<leftarrow> set_block dir_ino (e\<lparr>e_dev := d\<rparr>) (of_nat n_blocks) phys;
                            let dir_ino = dir_ino\<lparr>i_size := i_size dir_ino + of_nat bsz,
                              i_blocks := i_blocks dir_ino + of_nat (sectors_per_block (e_sb e))\<rparr>;
                            d \<leftarrow> ext2_inode_write dir_ino (e_dev e) (e_sb e) (e_bgdt e);
                            Some (dir_ino, e\<lparr>e_dev := d\<rparr>) } } }"

text \<open>The search of \<open>remove_entry\<close>: the entry found, with the offset of the entry before it.\<close>

fun find_with_prev :: "str \<Rightarrow> nat option \<Rightarrow> dirent list \<Rightarrow> (nat \<times> nat option \<times> nat) option" where
  "find_with_prev name prev [] = None"
| "find_with_prev name prev ((off, ino, rec_len, nbs) # es) =
     (if ino \<noteq> 0 \<and> nbs = name then Some (off, prev, rec_len) else find_with_prev name (Some off) es)"

definition remove_in_block :: "bytes \<Rightarrow> str \<Rightarrow> bytes option option" where
  "remove_in_block block name =
     (case find_with_prev name None (for_each_entry block 0) of
        None \<Rightarrow> Some None
      | Some (cur_off, prev, rec_len) \<Rightarrow>
          do { block \<leftarrow> put_le 4 block cur_off (0 :: u32);
               case prev of
                 None \<Rightarrow> Some (Some block)
               | Some poff \<Rightarrow>
                   do { block \<leftarrow> put_le 2 block (poff + 4) (of_nat (ent_rec_len block poff + rec_len) :: u16);
                        Some (Some block) } })"

fun remove_blocks :: "disk \<Rightarrow> Superblock \<Rightarrow> Inode \<Rightarrow> str \<Rightarrow> nat list \<Rightarrow> (bool \<times> disk) option" where
  "remove_blocks dev sb dir_ino name [] = Some (False, dev)"
| "remove_blocks dev sb dir_ino name (k # ks) =
     do { r \<leftarrow> get_block dir_ino dev sb (of_nat k);
          case r of
            None \<Rightarrow> remove_blocks dev sb dir_ino name ks
          | Some phys \<Rightarrow>
              do { s \<leftarrow> remove_in_block (dir_read_block dev sb phys) name;
                   case s of
                     Some block \<Rightarrow> do { d \<leftarrow> dir_write_block dev sb phys block; Some (True, d) }
                   | None \<Rightarrow> remove_blocks dev sb dir_ino name ks } }"

definition remove_entry :: "disk \<Rightarrow> Superblock \<Rightarrow> Inode \<Rightarrow> str \<Rightarrow> (bool \<times> disk) option" where
  "remove_entry dev sb dir_ino name =
     do { n \<leftarrow> dir_n_blocks sb dir_ino; remove_blocks dev sb dir_ino name [0..<n] }"

lemma dir_read_block_eq [simp]: "dir_read_block = read_block_bytes"
  by (simp add: fun_eq_iff dir_read_block_def read_block_bytes_def)

lemma dir_write_block_eq [simp]: "dir_write_block = write_block_bytes"
  by (simp add: fun_eq_iff dir_write_block_def write_block_bytes_def)

section \<open>Well-formed directory blocks\<close>

text \<open>The records tile the block from \<open>off\<close> to its end and each holds its name.\<close>

function dir_ok_from :: "bytes \<Rightarrow> nat \<Rightarrow> bool" where
  "dir_ok_from block off =
     (if off = length block then True
      else if off + 8 \<le> length block \<and> ent_size (ent_name_len block off) \<le> ent_rec_len block off \<and>
        off + ent_rec_len block off \<le> length block
      then dir_ok_from block (off + ent_rec_len block off)
      else False)"
  by pat_completeness auto
termination
  by (relation "measure (\<lambda>(block, off). length block - off)") (auto simp: ent_size_def)

declare dir_ok_from.simps [simp del]

definition dir_ok :: "bytes \<Rightarrow> bool" where
  "dir_ok block \<longleftrightarrow> length block < 65536 \<and> dir_ok_from block 0 \<and> block \<noteq> []"

text \<open>The live entries: names with their inode numbers, in order.\<close>

definition live_from :: "bytes \<Rightarrow> nat \<Rightarrow> (str \<times> u32) list" where
  "live_from block off = map (\<lambda>(o', ino, r, nm). (nm, ino)) (filter (\<lambda>(o', ino, r, nm). ino \<noteq> 0) (for_each_entry block off))"

definition dir_live :: "bytes \<Rightarrow> (str \<times> u32) list" where
  "dir_live block = live_from block 0"

definition ent_name :: "bytes \<Rightarrow> nat \<Rightarrow> str" where
  "ent_name block off = take (ent_name_len block off) (drop (off + 8) block)"

lemma ent_size_bounds: "8 + n \<le> ent_size n" "ent_size n \<le> n + 11"
  unfolding ent_size_def by linarith+

lemma for_each_ok:
  assumes "dir_ok_from block off" "off \<noteq> length block"
  shows "for_each_entry block off =
      (off, ent_ino block off, ent_rec_len block off, ent_name block off) # for_each_entry block (off + ent_rec_len block off)"
    "off + 8 \<le> length block" "ent_size (ent_name_len block off) \<le> ent_rec_len block off"
    "off + ent_rec_len block off \<le> length block" "dir_ok_from block (off + ent_rec_len block off)"
    "8 \<le> ent_rec_len block off"
proof -
  note D = dir_ok_from.simps[of block off]
  show 1: "off + 8 \<le> length block" "ent_size (ent_name_len block off) \<le> ent_rec_len block off"
    "off + ent_rec_len block off \<le> length block" "dir_ok_from block (off + ent_rec_len block off)"
    using assms D by (simp_all split: if_splits)
  have b: "8 + ent_name_len block off \<le> ent_rec_len block off" using 1(2) ent_size_bounds(1) le_trans by blast
  then show 2: "8 \<le> ent_rec_len block off" by simp
  have "ent_name_len block off \<le> length block - off - 8" using b 1(3) by linarith
  then show "for_each_entry block off =
      (off, ent_ino block off, ent_rec_len block off, ent_name block off) # for_each_entry block (off + ent_rec_len block off)"
    using 1 2 by (subst for_each_entry.simps) (simp add: Let_def ent_name_def)
qed

lemma for_each_end: "for_each_entry block (length block) = []"
  by (simp add: for_each_entry.simps)

lemma live_ok:
  assumes "dir_ok_from block off" "off \<noteq> length block"
  shows "live_from block off =
    (if ent_ino block off = 0 then [] else [(ent_name block off, ent_ino block off)]) @ live_from block (off + ent_rec_len block off)"
  using for_each_ok(1)[OF assms] by (simp add: live_from_def)

lemma live_end [simp]: "live_from block (length block) = []"
  by (simp add: live_from_def for_each_end)

lemma dir_ok_end: "length block = n \<Longrightarrow> dir_ok_from block n"
  by (simp add: dir_ok_from.simps)

text \<open>An entry depends on the bytes of its record only.\<close>

lemma ent_cong:
  assumes "length b' = length b" "\<And>j. off \<le> j \<Longrightarrow> j < off + r \<Longrightarrow> b' ! j = b ! j"
    and "off + r \<le> length b" "8 \<le> r"
  shows "ent_ino b' off = ent_ino b off" "ent_rec_len b' off = ent_rec_len b off"
    "ent_name_len b' off = ent_name_len b off"
    "8 + ent_name_len b off \<le> r \<Longrightarrow> ent_name b' off = ent_name b off"
proof -
  have sl: "take m (drop a b') = take m (drop a b)" if "off \<le> a" "a + m \<le> off + r" for a m
    using that assms(1,2,3) by (intro nth_equalityI) auto
  show "ent_ino b' off = ent_ino b off" using sl[of off 4] assms(4) by (simp add: ent_ino_def)
  show "ent_rec_len b' off = ent_rec_len b off" using sl[of "off + 4" 2] assms(4) by (simp add: ent_rec_len_def)
  show nl: "ent_name_len b' off = ent_name_len b off" using assms(2)[of "off + 6"] assms(4) by (simp add: ent_name_len_def)
  show "ent_name b' off = ent_name b off" if "8 + ent_name_len b off \<le> r"
    using sl[of "off + 8" "ent_name_len b off"] that by (simp add: ent_name_def nl)
qed

text \<open>Records below a changed region are walked as before.\<close>

lemma walk_cong:
  assumes "dir_ok_from b off" "off \<noteq> length b" "length b' = length b"
    and "\<And>j. off \<le> j \<Longrightarrow> j < off + ent_rec_len b off \<Longrightarrow> b' ! j = b ! j"
    and "dir_ok_from b' (off + ent_rec_len b off)"
  shows "dir_ok_from b' off" "live_from b' off =
    (if ent_ino b off = 0 then [] else [(ent_name b off, ent_ino b off)]) @ live_from b' (off + ent_rec_len b off)"
proof -
  note F = for_each_ok[OF assms(1,2)]
  have nm: "8 + ent_name_len b off \<le> ent_rec_len b off" using F(3) ent_size_bounds(1) le_trans by blast
  note C = ent_cong[OF assms(3,4) F(4,6)]
  show ok: "dir_ok_from b' off"
    using F(2,3,4) assms(3,5) C(2,3) by (subst dir_ok_from.simps) simp
  show "live_from b' off =
    (if ent_ino b off = 0 then [] else [(ent_name b off, ent_ino b off)]) @ live_from b' (off + ent_rec_len b off)"
    using live_ok[OF ok] assms(2,3) C(1,2,4) nm by simp
qed

section \<open>Adding an entry\<close>

lemma overlay_append:
  "a + length xs + length ys \<le> length b \<Longrightarrow> c = a + length xs \<Longrightarrow> overlay (overlay b a xs) c ys = overlay b a (xs @ ys)"
  by (rule nth_equalityI) (auto simp: nth_overlay nth_append)

lemma store_at_overlay: "i < length b \<Longrightarrow> store_at b i v = Some (overlay b i [v])"
  by (simp add: store_at_def overlay_def upd_conv_take_nth_drop)

lemma write_dir_entry_Some:
  assumes "off + 8 + length name \<le> length block" "length name < 256"
  shows "write_dir_entry block off ino r (of_nat (length name)) ft name =
    Some (overlay block off (to_le 4 ino @ to_le 2 r @ [of_nat (length name), ft] @ name))"
proof -
  have nl: "unat (of_nat (length name) :: u8) = length name" using assms(2) by (simp add: unat_of_nat_less)
  show ?thesis
    using assms(1)
    by (simp add: write_dir_entry_def put_le_Some store_at_overlay Let_def nl slice_def copy_slice_def overlay_append)
qed

lemma ent_overlay:
  assumes "off + 8 + length name \<le> length block" "length name < 256"
    and "b' = overlay block off (to_le 4 ino @ to_le 2 (r :: u16) @ [of_nat (length name), ft] @ name)"
  shows "length b' = length block" "ent_ino b' off = ino" "ent_rec_len b' off = unat r" "ent_name_len b' off = length name"
    "ent_name b' off = name"
    "\<And>j. j < off \<or> off + 8 + length name \<le> j \<Longrightarrow> j < length block \<Longrightarrow> b' ! j = block ! j"
proof -
  have nl: "unat (of_nat (length name) :: u8) = length name" using assms(2) by (simp add: unat_of_nat_less)
  have d: "drop off b' = to_le 4 ino @ to_le 2 r @ [of_nat (length name), ft] @ name @ drop (off + 8 + length name) block"
    using assms(1) unfolding assms(3) overlay_def by (simp add: add.assoc)
  show len: "length b' = length block" using assms(1,3) by simp
  have at: "drop (off + k) b' = drop k (drop off b')" for k by (simp add: add.commute)
  show "ent_ino b' off = ino" by (simp add: ent_ino_def d)
  show "ent_rec_len b' off = unat r" unfolding ent_rec_len_def at d by simp
  have "b' ! (off + 6) = drop off b' ! 6" using len assms(1) by simp
  then show n: "ent_name_len b' off = length name" by (simp add: ent_name_len_def d nl nth_append)
  show "ent_name b' off = name" unfolding ent_name_def n at d by simp
  show "b' ! j = block ! j" if "j < off \<or> off + 8 + length name \<le> j" "j < length block" for j
    using that assms(1,3) by (auto simp: nth_overlay)
qed

lemma add_last:
  assumes "dir_ok_from block off" "off + ent_rec_len block off = length block" "length block < 65536"
    and "length name < 256" "child \<noteq> 0" "ent_size (length name) \<le> ent_rec_len block off - ent_size (ent_name_len block off)"
  obtains b1 b' where "put_le 2 block (off + 4) (of_nat (ent_size (ent_name_len block off)) :: u16) = Some b1"
    "write_dir_entry b1 (off + ent_size (ent_name_len block off)) child
       (of_nat (ent_rec_len block off) - of_nat (ent_size (ent_name_len block off))) (of_nat (length name)) ft name = Some b'"
    "length b' = length block" "\<And>j. j < off \<Longrightarrow> b' ! j = block ! j" "dir_ok_from b' off"
    "live_from b' off = live_from block off @ [(name, child)]"
proof -
  let ?r = "ent_rec_len block off" and ?nl = "ent_name_len block off"
  let ?a = "ent_size (ent_name_len block off)"
  have ne: "off \<noteq> length block" using assms(1,2,6) ent_size_bounds(1)[of "length name"] by auto
  note F = for_each_ok[OF assms(1) ne]
  have sz: "8 + length name \<le> ?r - ?a" "8 + ?nl \<le> ?a" using assms(6) ent_size_bounds(1) le_trans by blast+
  let ?b1 = "overlay block (off + 4) (to_le 2 (of_nat ?a :: u16))"
  have b1: "put_le 2 block (off + 4) (of_nat ?a :: u16) = Some ?b1" using F(2) by (simp add: put_le_Some)
  have l1: "length ?b1 = length block" using F(2) by simp
  have fit: "off + ?a + 8 + length name \<le> length ?b1" using sz(1) F(4) l1 assms(2) by linarith
  define rr where "rr = (of_nat ?r - of_nat ?a :: u16)"
  have rr: "unat rr = ?r - ?a"
  proof -
    have "unat (of_nat ?r :: u16) = ?r" "unat (of_nat ?a :: u16) = ?a"
      using assms(3) F(3,4) by (simp_all add: unat_of_nat_less)
    then show ?thesis using F(3) by (simp add: rr_def unat_sub word_le_nat_alt)
  qed
  define b' where "b' = overlay ?b1 (off + ?a) (to_le 4 child @ to_le 2 rr @ [of_nat (length name), ft] @ name)"
  note N = ent_overlay[OF fit assms(4) b'_def]
  have w: "write_dir_entry ?b1 (off + ?a) child rr (of_nat (length name)) ft name = Some b'"
    unfolding b'_def by (rule write_dir_entry_Some[OF fit assms(4)])
  have sl: "take m (drop x b') = take m (drop x ?b1)" if "x + m \<le> off + ?a" for x m
    unfolding b'_def using that fit l1 by (intro take_drop_overlay_other) simp_all
  have sl1: "take m (drop x ?b1) = take m (drop x block)" if "x + m \<le> off + 4 \<or> off + 6 \<le> x" "x + m \<le> length block" for x m
    using that F(2) by (intro take_drop_overlay_other) auto
  have oa: "off + ?a \<le> length block" using F(3,4) by linarith
  have H: "ent_ino b' off = ent_ino block off" "ent_rec_len b' off = ?a" "ent_name_len b' off = ?nl" "ent_name b' off = ent_name block off"
  proof -
    show "ent_ino b' off = ent_ino block off" using sl[of off 4] sl1[of off 4] sz(2) oa by (simp add: ent_ino_def)
    have "take 2 (drop (off + 4) ?b1) = to_le 2 (of_nat ?a :: u16)" using F(2) by simp
    then show "ent_rec_len b' off = ?a"
      using sl[of "off + 4" 2] sz(2) assms(3) oa by (simp add: ent_rec_len_def unat_of_nat_less)
    have "b' ! (off + 6) = block ! (off + 6)"
      using N(6)[of "off + 6"] sz(2) F(2) l1 by (simp add: nth_overlay)
    then show nl: "ent_name_len b' off = ?nl" by (simp add: ent_name_len_def)
    show "ent_name b' off = ent_name block off"
      using sl[of "off + 8" ?nl] sl1[of "off + 8" ?nl] sz(2) oa unfolding ent_name_def nl by simp
  qed
  have end_: "off + ?a + ent_rec_len b' (off + ?a) = length b'" using N(1,3) l1 rr F(3) assms(2) by simp
  have ok2: "dir_ok_from b' (off + ?a)"
    using N(1,3,4) l1 rr sz(1) assms(6) end_ fit dir_ok_end[of b' "length block"] by (subst dir_ok_from.simps) auto
  have ok1: "dir_ok_from b' off"
    using ok2 H(2,3) oa N(1) l1 F(2) by (subst dir_ok_from.simps) simp
  have "live_from b' (off + ?a) = [(name, child)]"
    using live_ok[OF ok2] live_end[of b'] N(1,2,5) l1 end_ sz(1) F(3) assms(2,5) by simp
  then have live: "live_from b' off = live_from block off @ [(name, child)]"
    using live_ok[OF ok1] live_ok[OF assms(1) ne] H ne N(1) l1 assms(2) by simp
  have low: "b' ! j = block ! j" if "j < off" for j
    using N(6)[of j] that ne F(2) l1 by (simp add: nth_overlay)
  show thesis
    by (rule that[OF b1 w[unfolded rr_def] _ low ok1 live]) (use N(1) l1 in simp_all)
qed

lemma add_scan_ok:
  assumes "dir_ok_from block off" "off \<noteq> length block" "length block < 65536" "length name < 256" "child \<noteq> 0"
  shows "\<exists>r. add_scan block off child ft name = Some r \<and>
    (case r of None \<Rightarrow> True
     | Some b' \<Rightarrow> length b' = length block \<and> (\<forall>j < off. b' ! j = block ! j) \<and> dir_ok_from b' off \<and>
         live_from b' off = live_from block off @ [(name, child)])"
  using assms
proof (induction block off child ft name rule: add_scan.induct)
  case (1 block off child ft name)
  note F = for_each_ok[OF 1(2,3)]
  let ?r = "ent_rec_len block off" and ?a = "ent_size (ent_name_len block off)"
  have sl: "unat (of_nat ?r - of_nat ?a :: u64) = ?r - ?a" "unat (of_nat (ent_size (length name)) :: u16) = ent_size (length name)"
  proof -
    have "?r < 2 ^ 64" "?a < 2 ^ 64" using F(3,4) 1(4) by auto
    then have "unat (of_nat ?r :: u64) = ?r" "unat (of_nat ?a :: u64) = ?a" by (simp_all add: unat_of_nat_less)
    then show "unat (of_nat ?r - of_nat ?a :: u64) = ?r - ?a" using F(3) by (simp add: unat_sub word_le_nat_alt)
    have "ent_size (length name) < 2 ^ LENGTH(16)" using 1(5) ent_size_bounds(2)[of "length name"] by simp
    then show "unat (of_nat (ent_size (length name)) :: u16) = ent_size (length name)" by (rule unat_of_nat_less)
  qed
  show ?case
  proof (cases "length block \<le> off + ?r")
    case True
    then have last: "off + ?r = length block" using F(4) by simp
    show ?thesis
    proof (cases "ent_size (length name) \<le> ?r - ?a")
      case fits: True
      show ?thesis
        by (rule add_last[OF 1(2) last 1(4,5,6) fits, of ft])
          (subst add_scan.simps, use F(2,6) True fits sl in \<open>simp add: Let_def\<close>)
    next
      case False
      then have "add_scan block off child ft name = Some None"
        using F(2,6) True sl by (subst add_scan.simps) (simp add: Let_def)
      then show ?thesis by simp
    qed
  next
    case False
    have eq: "add_scan block off child ft name = add_scan block (off + ?r) child ft name"
      using F(2,6) False by (subst add_scan.simps) (simp add: Let_def)
    have "\<not> off + 8 > length block" "\<not> ?r < 8" "\<not> off + ?r \<ge> length block" "off + ?r \<noteq> length block"
      using F(2,6) False by auto
    from 1(1)[OF this(1) refl refl this(2) refl refl this(3) F(5) this(4) 1(4-6)]
    obtain r where r: "add_scan block (off + ?r) child ft name = Some r"
      "case r of None \<Rightarrow> True
       | Some b' \<Rightarrow> length b' = length block \<and> (\<forall>j < off + ?r. b' ! j = block ! j) \<and> dir_ok_from b' (off + ?r) \<and>
           live_from b' (off + ?r) = live_from block (off + ?r) @ [(name, child)]" by blast
    show ?thesis
    proof (cases r)
      case (Some b')
      then have b': "length b' = length block" "\<And>j. j < off + ?r \<Longrightarrow> b' ! j = block ! j" "dir_ok_from b' (off + ?r)"
        "live_from b' (off + ?r) = live_from block (off + ?r) @ [(name, child)]" using r(2) by auto
      note W = walk_cong[OF 1(2,3) b'(1) b'(2) b'(3)]
      show ?thesis using Some r(1) eq b' W live_ok[OF 1(2,3)] by simp
    qed (use r eq in simp)
  qed
qed

section \<open>Removing an entry\<close>

text \<open>\<open>drop_first\<close> removes the first entry of a given name.\<close>

fun drop_first :: "str \<Rightarrow> (str \<times> u32) list \<Rightarrow> (str \<times> u32) list" where
  "drop_first name [] = []"
| "drop_first name ((nm, ino) # xs) = (if nm = name then xs else (nm, ino) # drop_first name xs)"

text \<open>The effect of the two stores of \<open>remove_entry\<close> on a block.\<close>

definition unlink_block :: "bytes \<Rightarrow> nat \<Rightarrow> nat option \<Rightarrow> nat \<Rightarrow> bytes" where
  "unlink_block block cur prev rec_len =
     (let b = overlay block cur (to_le 4 (0 :: u32))
      in case prev of None \<Rightarrow> b
         | Some poff \<Rightarrow> overlay b (poff + 4) (to_le 2 (of_nat (ent_rec_len block poff + rec_len) :: u16)))"

lemma suffix_cong:
  assumes "dir_ok_from b x" "length b' = length b" "\<And>j. x \<le> j \<Longrightarrow> j < length b \<Longrightarrow> b' ! j = b ! j"
  shows "dir_ok_from b' x \<and> live_from b' x = live_from b x"
  using assms
proof (induction b x rule: dir_ok_from.induct)
  case (1 b x)
  show ?case
  proof (cases "x = length b")
    case True
    then show ?thesis using 1(3) live_end[of b'] by (simp add: dir_ok_end)
  next
    case False
    note F = for_each_ok[OF 1(2) False]
    have "dir_ok_from b' (x + ent_rec_len b x) \<and> live_from b' (x + ent_rec_len b x) = live_from b (x + ent_rec_len b x)"
      using 1(1)[OF False _ F(5) 1(3)] F(2-4) 1(4) by simp
    moreover have "\<And>j. x \<le> j \<Longrightarrow> j < x + ent_rec_len b x \<Longrightarrow> b' ! j = b ! j" using 1(4) F(4) by simp
    ultimately show ?thesis using walk_cong[OF 1(2) False 1(3)] live_ok[OF 1(2) False] by simp
  qed
qed

lemma zero_ino:
  assumes "dir_ok_from block off" "off \<noteq> length block" "b' = overlay block off (to_le 4 (0 :: u32))"
  shows "dir_ok_from b' off" "live_from b' off = live_from block (off + ent_rec_len block off)"
proof -
  note F = for_each_ok[OF assms(1,2)]
  have len: "length b' = length block" using assms(3) F(2) by simp
  have ge: "b' ! j = block ! j" if "off + 4 \<le> j" "j < length block" for j
    using that assms(3) F(2) by (simp add: nth_overlay)
  have sl: "take m (drop x b') = take m (drop x block)" if "off + 4 \<le> x" "x + m \<le> length block" for x m
    using that assms(3) F(2) by (simp add: take_drop_overlay_other)
  have "take 4 (drop off b') = to_le 4 (0 :: u32)" using assms(3) F(2) by simp
  then have z: "ent_ino b' off = 0" by (simp add: ent_ino_def)
  have r: "ent_rec_len b' off = ent_rec_len block off" using sl[of "off + 4" 2] F(2) by (simp add: ent_rec_len_def)
  have n: "ent_name_len b' off = ent_name_len block off" using ge[of "off + 6"] F(2) by (simp add: ent_name_len_def)
  have suf: "dir_ok_from b' (off + ent_rec_len block off) \<and>
      live_from b' (off + ent_rec_len block off) = live_from block (off + ent_rec_len block off)"
    using ge F(6) by (intro suffix_cong[OF F(5) len]) simp
  then show ok: "dir_ok_from b' off" using F(2-4) r n len by (subst dir_ok_from.simps) simp
  show "live_from b' off = live_from block (off + ent_rec_len block off)"
    using live_ok[OF ok] z r suf assms(2) len by simp
qed

text \<open>Merging the record at \<open>off + r\<close> into the one at \<open>off\<close>.\<close>

lemma merge_records:
  assumes "dir_ok_from block off" "off \<noteq> length block" "cur = off + ent_rec_len block off" "cur \<noteq> length block"
    and "length block < 65536" "b' = unlink_block block cur (Some off) (ent_rec_len block cur)"
  shows "length b' = length block" "\<And>j. j < off \<Longrightarrow> b' ! j = block ! j" "dir_ok_from b' off"
    "live_from b' off = (if ent_ino block off = 0 then [] else [(ent_name block off, ent_ino block off)])
       @ live_from block (cur + ent_rec_len block cur)"
proof -
  note F = for_each_ok[OF assms(1,2)]
  note C = for_each_ok[OF F(5)[folded assms(3)] assms(4)]
  let ?r = "ent_rec_len block off + ent_rec_len block cur"
  let ?b1 = "overlay block cur (to_le 4 (0 :: u32))"
  have b': "b' = overlay ?b1 (off + 4) (to_le 2 (of_nat ?r :: u16))" using assms(6) by (simp add: unlink_block_def Let_def)
  have l1: "length ?b1 = length block" using C(2) by simp
  show len: "length b' = length block" using b' l1 F(2) by simp
  have sl: "take m (drop x b') = take m (drop x block)" if "x + m \<le> off + 4 \<or> off + 6 \<le> x" "x + m \<le> cur \<or> cur + 4 \<le> x" "x + m \<le> length block" for x m
  proof -
    have "take m (drop x b') = take m (drop x ?b1)" unfolding b' using that(1,3) F(2) l1 by (intro take_drop_overlay_other) auto
    also have "\<dots> = take m (drop x block)" using that(2,3) C(2) by (intro take_drop_overlay_other) auto
    finally show ?thesis .
  qed
  have nth: "b' ! j = block ! j" if "j < off \<or> off + 6 \<le> j" "j < cur \<or> cur + 4 \<le> j" "j < length block" for j
    using that F(2) C(2) l1 unfolding b' by (auto simp: nth_overlay)
  show "b' ! j = block ! j" if "j < off" for j using nth[of j] that F(2,6) assms(3) by simp
  have nm: "8 + ent_name_len block off \<le> ent_rec_len block off" using F(3) ent_size_bounds(1) le_trans by blast
  have "take 2 (drop (off + 4) b') = to_le 2 (of_nat ?r :: u16)" using b' l1 F(2) by simp
  then have "ent_rec_len b' off = unat (of_nat ?r :: u16)" unfolding ent_rec_len_def[of b'] by simp
  moreover have "?r < 2 ^ LENGTH(16)" using C(4) assms(3,5) by simp
  ultimately have r: "ent_rec_len b' off = ?r" using unat_of_nat_less by metis
  have i: "ent_ino b' off = ent_ino block off" using sl[of off 4] F(2,6) assms(3) by (simp add: ent_ino_def)
  have n: "ent_name_len b' off = ent_name_len block off" using nth[of "off + 6"] F(2,6) assms(3) by (simp add: ent_name_len_def)
  have na: "ent_name b' off = ent_name block off"
    using sl[of "off + 8" "ent_name_len block off"] nm F(4) assms(3) unfolding ent_name_def n by simp
  have suf: "dir_ok_from b' (cur + ent_rec_len block cur) \<and> live_from b' (cur + ent_rec_len block cur) = live_from block (cur + ent_rec_len block cur)"
    using nth C(6) F(6) assms(3) by (intro suffix_cong[OF C(5) len]) simp
  then show ok: "dir_ok_from b' off"
    using F(2,3) C(4) r n len assms(3) by (subst dir_ok_from.simps) (auto simp: add.assoc)
  show "live_from b' off = (if ent_ino block off = 0 then [] else [(ent_name block off, ent_ino block off)])
      @ live_from block (cur + ent_rec_len block cur)"
    using live_ok[OF ok] suf r i na assms(2,3) len by (simp add: add.assoc)
qed

lemma remove_after:
  assumes "dir_ok_from block off" "off \<noteq> length block" "length block < 65536"
    and "find_with_prev name (Some off) (for_each_entry block (off + ent_rec_len block off)) = Some (cur, pv, rc)"
    and "b' = unlink_block block cur pv rc"
  shows "length b' = length block" "\<And>j. j < off \<Longrightarrow> b' ! j = block ! j" "dir_ok_from b' off"
    "live_from b' off = (if ent_ino block off = 0 then [] else [(ent_name block off, ent_ino block off)])
       @ drop_first name (live_from block (off + ent_rec_len block off))"
    "cur + 4 \<le> length block" "\<exists>p. pv = Some p \<and> p + 6 \<le> length block \<and> (p + 6 \<le> cur)"
proof -
  have "length b' = length block \<and> (\<forall>j < off. b' ! j = block ! j) \<and> dir_ok_from b' off \<and>
    live_from b' off = (if ent_ino block off = 0 then [] else [(ent_name block off, ent_ino block off)])
       @ drop_first name (live_from block (off + ent_rec_len block off)) \<and>
    cur + 4 \<le> length block \<and> (\<exists>p. pv = Some p \<and> p + 6 \<le> length block \<and> p + 6 \<le> cur)"
    using assms(1,2,4)
  proof (induction "length block - off" arbitrary: off rule: less_induct)
    case less
    note F = for_each_ok[OF less.prems(1,2)]
    let ?o = "off + ent_rec_len block off"
    have ne: "?o \<noteq> length block" using less.prems(3) for_each_end by fastforce
    note C = for_each_ok[OF F(5) ne]
    note L = live_ok[OF F(5) ne]
    show ?case
    proof (cases "ent_ino block ?o \<noteq> 0 \<and> ent_name block ?o = name")
      case True
      then have f: "cur = ?o" "pv = Some off" "rc = ent_rec_len block ?o" using less.prems(3) by (auto simp: C(1))
      note M = merge_records[OF less.prems(1,2) f(1) _ assms(3), of b']
      have "b' = unlink_block block cur (Some off) (ent_rec_len block cur)" using assms(5) f by simp
      then show ?thesis using M ne f True L C(2) F(2,6) by auto
    next
      case False
      then have f: "find_with_prev name (Some ?o) (for_each_entry block (?o + ent_rec_len block ?o)) = Some (cur, pv, rc)"
        using less.prems(3) by (auto simp: C(1))
      have "length block - ?o < length block - off" using F(2,6) by simp
      from less.hyps[OF this F(5) ne f] have IH: "length b' = length block" "\<forall>j < ?o. b' ! j = block ! j" "dir_ok_from b' ?o"
        "live_from b' ?o = (if ent_ino block ?o = 0 then [] else [(ent_name block ?o, ent_ino block ?o)])
           @ drop_first name (live_from block (?o + ent_rec_len block ?o))"
        "cur + 4 \<le> length block" "\<exists>p. pv = Some p \<and> p + 6 \<le> length block \<and> p + 6 \<le> cur" by blast+
      have df: "live_from b' ?o = drop_first name (live_from block ?o)" using IH(4) L False by auto
      have keep: "\<And>j. off \<le> j \<Longrightarrow> j < ?o \<Longrightarrow> b' ! j = block ! j" using IH(2) by blast
      note W = walk_cong[OF less.prems(1,2) IH(1) keep IH(3)]
      show ?thesis using W IH df by simp
    qed
  qed
  then show "length b' = length block" "\<And>j. j < off \<Longrightarrow> b' ! j = block ! j" "dir_ok_from b' off"
    "live_from b' off = (if ent_ino block off = 0 then [] else [(ent_name block off, ent_ino block off)])
       @ drop_first name (live_from block (off + ent_rec_len block off))"
    "cur + 4 \<le> length block" "\<exists>p. pv = Some p \<and> p + 6 \<le> length block \<and> (p + 6 \<le> cur)" by blast+
qed

lemma find_prev_None: "find_with_prev name pv es = None \<longleftrightarrow> find (\<lambda>(off, ino, r, nbs). ino \<noteq> 0 \<and> nbs = name) es = None"
  by (induction name pv es rule: find_with_prev.induct) auto

lemma find_live:
  "map_option (\<lambda>(off, ino, r, nbs). ino) (find (\<lambda>(off, ino, r, nbs). ino \<noteq> 0 \<and> nbs = name) es) =
   map_of (map (\<lambda>(o', ino, r, nm). (nm, ino)) (filter (\<lambda>(o', ino, r, nm). ino \<noteq> 0) es)) name"
  by (induction es) auto

lemma lookup_block_live: "lookup_block block name = map_of (dir_live block) name"
  unfolding lookup_block_def dir_live_def live_from_def by (rule find_live)

lemma find_prev_live: "find_with_prev name pv (for_each_entry block 0) = None \<longleftrightarrow> map_of (dir_live block) name = None"
  unfolding find_prev_None lookup_block_live[symmetric] lookup_block_def by simp

lemma unlink_block_Some:
  assumes "cur + 4 \<le> length block" "pv = None \<or> (\<exists>p. pv = Some p \<and> p + 6 \<le> length block \<and> p + 6 \<le> cur)"
    and "find_with_prev name None (for_each_entry block 0) = Some (cur, pv, rc)"
  shows "remove_in_block block name = Some (Some (unlink_block block cur pv rc))"
proof (cases pv)
  case None
  then show ?thesis using assms by (simp add: remove_in_block_def unlink_block_def put_le_Some)
next
  case (Some p)
  then have p: "p + 6 \<le> length block" "p + 6 \<le> cur" using assms(2) by auto
  have "ent_rec_len (overlay block cur (to_le 4 (0 :: u32))) p = ent_rec_len block p"
    using p assms(1) by (simp add: ent_rec_len_def take_drop_overlay_other)
  then show ?thesis using Some assms p by (simp add: remove_in_block_def unlink_block_def put_le_Some)
qed

lemma remove_in_block_ok:
  assumes "dir_ok block"
  shows "\<exists>r. remove_in_block block name = Some r \<and>
    (case r of
       None \<Rightarrow> map_of (dir_live block) name = None
     | Some b' \<Rightarrow> map_of (dir_live block) name \<noteq> None \<and> dir_ok b' \<and> length b' = length block \<and>
         dir_live b' = drop_first name (dir_live block))"
proof (cases "find_with_prev name None (for_each_entry block 0)")
  case None
  then have "map_of (dir_live block) name = None" using find_prev_live by blast
  then show ?thesis using None by (simp add: remove_in_block_def)
next
  case (Some x)
  obtain cur pv rc where x: "x = (cur, pv, rc)" by (cases x)
  have D: "length block < 65536" "dir_ok_from block 0" "0 \<noteq> length block" using assms by (auto simp: dir_ok_def)
  note F = for_each_ok[OF D(2,3)]
  note L = live_ok[OF D(2,3)]
  have mem: "map_of (dir_live block) name \<noteq> None" using Some find_prev_live by (metis option.distinct(1))
  let ?b = "unlink_block block cur pv rc"
  have "remove_in_block block name = Some (Some ?b) \<and> length ?b = length block \<and> dir_ok_from ?b 0 \<and>
      live_from ?b 0 = drop_first name (live_from block 0)"
  proof (cases "ent_ino block 0 \<noteq> 0 \<and> ent_name block 0 = name")
    case True
    then have f: "cur = 0" "pv = None" "rc = ent_rec_len block 0" using Some x F(1) by auto
    have "?b = overlay block 0 (to_le 4 (0 :: u32))" using f by (simp add: unlink_block_def)
    from zero_ino[OF D(2,3) this] show ?thesis
      using unlink_block_Some[of cur block pv name rc] Some x f F(2) True L by (simp add: unlink_block_def)
  next
    case False
    then have "find_with_prev name (Some 0) (for_each_entry block (0 + ent_rec_len block 0)) = Some (cur, pv, rc)"
      using Some x F(1) by auto
    note R = remove_after[OF D(2,3,1) this refl]
    show ?thesis using R unlink_block_Some[of cur block pv name rc] Some x L False by auto
  qed
  then show ?thesis using mem D by (auto simp: dir_ok_def dir_live_def)
qed

section \<open>Properties\<close>


text \<open>The block \<open>mkdir\<close> writes for a new directory, with 1 KiB blocks: entries \<open>.\<close> and \<open>..\<close>.\<close>

definition demo_dir :: bytes where
  "demo_dir = to_le 4 (12 :: u32) @ to_le 2 (12 :: u16) @ [1, 2, DOT, 0, 0, 0]
     @ to_le 4 (2 :: u32) @ to_le 2 (1012 :: u16) @ [2, 2, DOT, DOT, 0, 0] @ replicate 1000 0"

lemma demo_dir_ok: "dir_ok demo_dir"
  by (simp add: dir_ok_def dir_ok_from.simps demo_dir_def ent_size_def ent_name_len_def ent_rec_len_def nth_append)


end
