(* ===== verification/Ext2_Vfs.thy ===== *)
theory Ext2_Vfs
  imports Ext2_Dir
begin

text \<open>
  fs/src/ext2/inode_impl.rs and mod.rs: the VFS nodes of an ext2 volume and the driver's
  probe and mount. The shared \<open>Ext2State\<close> is passed explicitly; a node is its inode number.
\<close>

datatype ext2_node = Ext2FileINode u32 | Ext2DirINode u32

section \<open>Files\<close>

text \<open>The loop of \<open>Ext2FileINode::read\<close> from byte \<open>pos\<close> with \<open>n\<close> bytes to go.\<close>

function file_read_loop :: "Inode \<Rightarrow> disk \<Rightarrow> Superblock \<Rightarrow> nat \<Rightarrow> nat \<Rightarrow> bytes option" where
  "file_read_loop inode dev sb pos n =
     (if n = 0 then Some []
      else if block_size sb = 0 then None
      else do { r \<leftarrow> get_block inode dev sb (of_nat (pos div block_size sb));
                let blk_off = pos mod block_size sb;
                case r of
                  None \<Rightarrow> Some []
                | Some phys \<Rightarrow>
                    (let avail = min (block_size sb - blk_off) n
                     in do { chunk \<leftarrow> slice (read_block_bytes dev sb phys) blk_off (blk_off + avail);
                             rest \<leftarrow> file_read_loop inode dev sb (pos + avail) (n - avail);
                             Some (chunk @ rest) }) })"
  by pat_completeness auto
termination
  by (relation "measure (\<lambda>(inode, dev, sb, pos, n). n)") auto

declare file_read_loop.simps [simp del]

definition ext2_file_read :: "Ext2State \<Rightarrow> u32 \<Rightarrow> u64 \<Rightarrow> nat \<Rightarrow> bytes option" where
  "ext2_file_read e ino offset len =
     (if len = 0 then Some []
      else do { r \<leftarrow> ext2_inode_read (e_dev e) (e_sb e) (e_bgdt e) ino;
                case r of
                  None \<Rightarrow> Some []
                | Some inode \<Rightarrow>
                    if inode_size inode \<le> unat offset then Some []
                    else file_read_loop inode (e_dev e) (e_sb e) (unat offset) (min len (inode_size inode - unat offset)) })"

text \<open>The physical block for logical block \<open>blk_idx\<close> of a file being written, allocated and
  zero-filled when missing; \<open>None\<close> when the volume is full.\<close>

definition write_target :: "Inode \<Rightarrow> Ext2State \<Rightarrow> u32 \<Rightarrow> (u32 option \<times> Inode \<times> Ext2State) option" where
  "write_target inode e blk_idx =
     do { r \<leftarrow> get_block inode (e_dev e) (e_sb e) blk_idx;
          case r of
            Some p \<Rightarrow> Some (Some p, inode, e)
          | None \<Rightarrow>
              do { (a, e) \<leftarrow> alloc_block e;
                   case a of
                     None \<Rightarrow> Some (None, inode, e)
                   | Some p \<Rightarrow>
                       do { e \<leftarrow> e_write e p (zeros e);
                            (inode, e) \<leftarrow> set_block inode e blk_idx p;
                            Some (Some p, inode\<lparr>i_blocks := i_blocks inode + of_nat (sectors_per_block (e_sb e))\<rparr>, e) } } }"

function file_write_loop :: "nat \<Rightarrow> Inode \<Rightarrow> Ext2State \<Rightarrow> u64 \<Rightarrow> bytes \<Rightarrow> (nat \<times> Inode \<times> Ext2State) option" where
  "file_write_loop bsz inode e pos buf =
     (if buf = [] then Some (0, inode, e)
      else if bsz = 0 then None
      else do { (t, inode, e) \<leftarrow> write_target inode e (of_nat (unat pos div bsz));
                let blk_off = unat pos mod bsz;
                case t of
                  None \<Rightarrow> Some (0, inode, e)
                | Some phys \<Rightarrow>
                    (let avail = min (bsz - blk_off) (length buf)
                     in do { block \<leftarrow> copy_slice (e_read e phys) blk_off (blk_off + avail) (take avail buf);
                             e \<leftarrow> e_write e phys block;
                             (done, inode, e) \<leftarrow> file_write_loop bsz inode e (pos + of_nat avail) (drop avail buf);
                             Some (avail + done, inode, e) }) })"
  by pat_completeness auto
termination
  by (relation "measure (\<lambda>(bsz, inode, e, pos, buf). length buf)") auto

declare file_write_loop.simps [simp del]

definition ext2_file_write :: "Ext2State \<Rightarrow> u32 \<Rightarrow> u64 \<Rightarrow> bytes \<Rightarrow> (nat \<times> Ext2State) option" where
  "ext2_file_write e ino offset buf =
     (if buf = [] then Some (0, e)
      else do { r \<leftarrow> ext2_inode_read (e_dev e) (e_sb e) (e_bgdt e) ino;
                case r of
                  None \<Rightarrow> Some (0, e)
                | Some inode \<Rightarrow>
                    do { (done, inode, e) \<leftarrow> file_write_loop (block_size (e_sb e)) inode e offset buf;
                         let new_end = offset + of_nat done;
                         let inode = (if inode_size inode < unat new_end then inode\<lparr>i_size := ucast new_end\<rparr> else inode);
                         d \<leftarrow> ext2_inode_write inode (e_dev e) (e_sb e) (e_bgdt e);
                         Some (done, e\<lparr>e_dev := d\<rparr>) } })"

definition ext2_file_size :: "Ext2State \<Rightarrow> u32 \<Rightarrow> nat option" where
  "ext2_file_size e ino =
     map_option (\<lambda>r. case r of Some i \<Rightarrow> inode_size i | None \<Rightarrow> 0) (ext2_inode_read (e_dev e) (e_sb e) (e_bgdt e) ino)"

section \<open>Directories\<close>

definition ext2_dir_lookup :: "Ext2State \<Rightarrow> u32 \<Rightarrow> str \<Rightarrow> ext2_node option option" where
  "ext2_dir_lookup e ino name =
     do { r \<leftarrow> ext2_inode_read (e_dev e) (e_sb e) (e_bgdt e) ino;
          case r of
            None \<Rightarrow> Some None
          | Some dir_inode \<Rightarrow>
              do { c \<leftarrow> lookup_in_dir (e_dev e) (e_sb e) dir_inode name;
                   case c of
                     None \<Rightarrow> Some None
                   | Some child_ino \<Rightarrow>
                       do { ch \<leftarrow> ext2_inode_read (e_dev e) (e_sb e) (e_bgdt e) child_ino;
                            Some (map_option (\<lambda>child. if is_dir child then Ext2DirINode child_ino
                                                      else Ext2FileINode child_ino) ch) } } }"

definition ext2_dir_readdir :: "Ext2State \<Rightarrow> u32 \<Rightarrow> (str \<times> FileType) list option option" where
  "ext2_dir_readdir e ino =
     do { r \<leftarrow> ext2_inode_read (e_dev e) (e_sb e) (e_bgdt e) ino;
          case r of
            None \<Rightarrow> Some None
          | Some dir_inode \<Rightarrow> map_option Some (ext2_readdir (e_dev e) (e_sb e) (e_bgdt e) dir_inode) }"

text \<open>The first block of a new directory, with its entries \<open>.\<close> and \<open>..\<close>.\<close>

definition new_dir_block :: "nat \<Rightarrow> u32 \<Rightarrow> u32 \<Rightarrow> bytes option" where
  "new_dir_block bsz child_ino parent_ino =
     do { b \<leftarrow> put_le 4 (replicate bsz 0) 0 child_ino;
          b \<leftarrow> put_le 2 b 4 (12 :: u16);
          b \<leftarrow> store_at b 6 1;
          b \<leftarrow> store_at b 7 EXT2_FT_DIR;
          b \<leftarrow> store_at b 8 DOT;
          b \<leftarrow> put_le 4 b 12 parent_ino;
          b \<leftarrow> put_le 2 b 16 (of_nat bsz - 12 :: u16);
          b \<leftarrow> store_at b 18 2;
          b \<leftarrow> store_at b 19 EXT2_FT_DIR;
          b \<leftarrow> store_at b 20 DOT;
          store_at b 21 DOT }"

definition new_inode :: "u16 \<Rightarrow> u16 \<Rightarrow> u32 \<Rightarrow> u32 \<Rightarrow> u32 list \<Rightarrow> u32 \<Rightarrow> Inode" where
  "new_inode mode links sz blks bl ino =
     \<lparr> i_mode = mode, i_links_count = links, i_size = sz, i_blocks = blks, i_block = bl, i_ino = ino \<rparr>"

text \<open>The common end of \<open>mkdir\<close> and \<open>create_file\<close>: write the child, re-read the parent, add the entry.\<close>

definition link_child :: "Ext2State \<Rightarrow> u32 \<Rightarrow> str \<Rightarrow> Inode \<Rightarrow> u8 \<Rightarrow> ((string + unit) \<times> Ext2State) option" where
  "link_child e parent name child file_type =
     do { d \<leftarrow> ext2_inode_write child (e_dev e) (e_sb e) (e_bgdt e);
          let e = e\<lparr>e_dev := d\<rparr>;
          r \<leftarrow> ext2_inode_read (e_dev e) (e_sb e) (e_bgdt e) parent;
          case r of
            None \<Rightarrow> Some (Inl ''parent inode read failed'', e)
          | Some parent_inode \<Rightarrow>
              do { (di, e) \<leftarrow> add_entry e parent_inode name (i_ino child) file_type; Some (Inr (), e) } }"

definition ext2_mkdir :: "Ext2State \<Rightarrow> u32 \<Rightarrow> str \<Rightarrow> ((string + unit) \<times> Ext2State) option" where
  "ext2_mkdir e ino name =
     do { (ci, e) \<leftarrow> alloc_inode e;
          case ci of
            None \<Rightarrow> Some (Inl ''no free inodes'', e)
          | Some child_ino \<Rightarrow>
              do { (a, e) \<leftarrow> alloc_block e;
                   case a of
                     None \<Rightarrow> Some (Inl ''no free blocks'', e)
                   | Some blk \<Rightarrow>
                       do { let bsz = block_size (e_sb e);
                            dir_blk \<leftarrow> new_dir_block bsz child_ino ino;
                            e \<leftarrow> e_write e blk dir_blk;
                            let child = new_inode (EXT2_S_IFDIR OR 0x1ED) 2 (of_nat bsz) (of_nat (sectors_per_block (e_sb e)))
                              ((replicate 15 0)[0 := blk]) child_ino;
                            (r, e) \<leftarrow> link_child e ino name child EXT2_FT_DIR;
                            case r of
                              Inl err \<Rightarrow> Some (Inl err, e)
                            | Inr _ \<Rightarrow>
                                do { g \<leftarrow> inode_block_group (e_sb e) ino;
                                     bg \<leftarrow> bgdt_get (e_bgdt e) g;
                                     let bgdt = (e_bgdt e)[g := bg\<lparr>bg_used_dirs := bg_used_dirs bg + 1\<rparr>];
                                     d \<leftarrow> write_entry bgdt (e_dev e) (e_sb e) g;
                                     Some (Inr (), e\<lparr>e_dev := d, e_bgdt := bgdt\<rparr>) } } } }"

definition ext2_create_file :: "Ext2State \<Rightarrow> u32 \<Rightarrow> str \<Rightarrow> ((string + ext2_node) \<times> Ext2State) option" where
  "ext2_create_file e ino name =
     do { (ci, e) \<leftarrow> alloc_inode e;
          case ci of
            None \<Rightarrow> Some (Inl ''no free inodes'', e)
          | Some child_ino \<Rightarrow>
              do { (r, e) \<leftarrow> link_child e ino name (new_inode (EXT2_S_IFREG OR 0x1A4) 1 0 0 (replicate 15 0) child_ino)
                               EXT2_FT_REG_FILE;
                   case r of
                     Inl err \<Rightarrow> Some (Inl err, e)
                   | Inr _ \<Rightarrow> Some (Inr (Ext2FileINode child_ino), e) } }"

fun free_blocks_of :: "Inode \<Rightarrow> Ext2State \<Rightarrow> nat list \<Rightarrow> Ext2State option" where
  "free_blocks_of child_inode e [] = Some e"
| "free_blocks_of child_inode e (b # bs) =
     do { r \<leftarrow> get_block child_inode (e_dev e) (e_sb e) (of_nat b);
          case r of
            None \<Rightarrow> free_blocks_of child_inode e bs
          | Some phys \<Rightarrow> do { e \<leftarrow> free_block e phys; free_blocks_of child_inode e bs } }"

definition ext2_unlink :: "Ext2State \<Rightarrow> u32 \<Rightarrow> str \<Rightarrow> ((string + unit) \<times> Ext2State) option" where
  "ext2_unlink e ino name =
     do { r \<leftarrow> ext2_inode_read (e_dev e) (e_sb e) (e_bgdt e) ino;
          case r of
            None \<Rightarrow> Some (Inl ''dir inode read failed'', e)
          | Some dir_inode \<Rightarrow>
              do { c \<leftarrow> lookup_in_dir (e_dev e) (e_sb e) dir_inode name;
                   case c of
                     None \<Rightarrow> Some (Inl ''not found'', e)
                   | Some child_ino \<Rightarrow>
                       do { ch \<leftarrow> ext2_inode_read (e_dev e) (e_sb e) (e_bgdt e) child_ino;
                            case ch of
                              None \<Rightarrow> Some (Inl ''child inode read failed'', e)
                            | Some child_inode \<Rightarrow>
                                do { n \<leftarrow> udiv (inode_size child_inode + block_size (e_sb e) - 1) (block_size (e_sb e));
                                     e \<leftarrow> free_blocks_of child_inode e [0..<n];
                                     e \<leftarrow> free_inode e child_ino;
                                     (ok, d) \<leftarrow> remove_entry (e_dev e) (e_sb e) dir_inode name;
                                     Some (if ok then Inr () else Inl ''entry not found'', e\<lparr>e_dev := d\<rparr>) } } } }"

definition ext2_insert :: "string + unit" where
  "ext2_insert = Inl ''use create_file or mkdir for ext2 directories''"

definition ext2_metadata :: "ext2_node \<Rightarrow> FileType" where
  "ext2_metadata n = (case n of Ext2FileINode _ \<Rightarrow> File | Ext2DirINode _ \<Rightarrow> Directory)"

section \<open>The driver\<close>

definition ext2_probe :: "disk \<Rightarrow> bool" where
  "ext2_probe dev =
     (case dev_read dev 2 of None \<Rightarrow> False | Some buf \<Rightarrow> of_le (take 2 (drop 56 buf)) = EXT2_MAGIC)"

definition ext2_mount :: "disk \<Rightarrow> (ext2_node \<times> Ext2State) option option" where
  "ext2_mount dev =
     (case sb_read dev of
        None \<Rightarrow> Some None
      | Some sb \<Rightarrow>
          do { bgdt \<leftarrow> bgdt_read dev sb;
               Some (Some (Ext2DirINode 2, \<lparr> e_dev = dev, e_sb = sb, e_bgdt = bgdt \<rparr>)) })"

definition ext2_driver :: "(ext2_node \<times> Ext2State) FsDriver" where
  "ext2_driver = \<lparr> drv_name = ''ext2'', drv_probe = ext2_probe, drv_mount = ext2_mount \<rparr>"

section \<open>File contents\<close>

text \<open>A file whose direct blocks are owned and pairwise distinct, and its byte at a position.\<close>

definition dfile :: "Ext2State \<Rightarrow> Inode \<Rightarrow> bool" where
  "dfile e i \<longleftrightarrow> length (i_block i) = 15 \<and> (\<forall>k < 12. i_block i ! k \<noteq> 0 \<longrightarrow> own e (i_block i ! k)) \<and>
     (\<forall>j < 12. \<forall>k < 12. j \<noteq> k \<and> i_block i ! j \<noteq> 0 \<longrightarrow> i_block i ! j \<noteq> i_block i ! k)"

definition fbyte :: "Ext2State \<Rightarrow> Inode \<Rightarrow> nat \<Rightarrow> u8" where
  "fbyte e i pos =
     (let b = i_block i ! (pos div block_size (e_sb e))
      in if b = 0 then 0 else e_read e b ! (pos mod block_size (e_sb e)))"

definition fblocks :: "Inode \<Rightarrow> u32 set" where
  "fblocks i = {i_block i ! k |k. k < 12 \<and> i_block i ! k \<noteq> 0}"

lemma get_direct:
  assumes "length (i_block i) = 15" "k < 12"
  shows "get_block i dev sb (of_nat k) = Some (nonzero (i_block i ! k))"
proof -
  have "unat (of_nat k :: u32) = k" using assms(2) by (simp add: unat_of_nat_less)
  then show ?thesis using assms by (simp add: get_block_def word_less_nat_alt index_at_def)
qed

lemma set_direct:
  assumes "length (i_block i) = 15" "k < 12"
  shows "set_block i e (of_nat k) p = Some (i\<lparr>i_block := (i_block i)[k := p]\<rparr>, e)"
proof -
  have "unat (of_nat k :: u32) = k" using assms(2) by (simp add: unat_of_nat_less)
  then show ?thesis using assms by (simp add: set_block_def word_less_nat_alt store_at_def)
qed

lemma avail_mono: "avail m e \<Longrightarrow> n \<le> m \<Longrightarrow> avail n e"
  by (auto simp: avail_def intro: order_trans)

lemma write_target_direct:
  assumes "fs_ok e" "dfile e i" "avail (Suc m) e" "k < 12"
  obtains p i' e' where "write_target i e (of_nat k) = Some (Some p, i', e')" "steps e e' {}" "avail m e'" "dfile e' i'"
    "own e' p" "i_block i' = (i_block i)[k := p]" "i_ino i' = i_ino i" "i_size i' = i_size i"
    "if i_block i ! k = 0 then \<not> own e p \<and> e_read e' p = zeros e' else p = i_block i ! k \<and> e' = e"
proof (cases "i_block i ! k = 0")
  case False
  then have "write_target i e (of_nat k) = Some (Some (i_block i ! k), i, e)"
    using assms(2,4) by (simp add: write_target_def get_direct dfile_def nonzero_def)
  then show thesis
    using that[of "i_block i ! k" i e] False assms steps_refl[OF assms(1)] avail_mono[OF assms(3), of m] by (simp add: dfile_def)
next
  case True
  have len: "length (i_block i) = 15" using assms(2) by (simp add: dfile_def)
  obtain p e1 where a: "alloc_or_zero e = Some (p, e1)" "steps e e1 {}" "avail m e1" "own e1 p" "\<not> own e p"
    using alloc_fs[OF assms(1,3)] by blast
  obtain e2 where e2: "e_write e1 p (zeros e1) = Some e2" "steps e1 e2 {p}" "e_sb e2 = e_sb e1" "e_read e2 p = zeros e1"
    "\<And>n. avail n e2 = avail n e1" "\<And>j. own e2 j = own e1 j"
    by (rule write_fs[OF steps_D(1)[OF a(2)] a(4) zeros_length]) blast
  let ?i = "i\<lparr>i_block := (i_block i)[k := p], i_blocks := i_blocks i + of_nat (sectors_per_block (e_sb e2))\<rparr>"
  have st: "steps e e2 {}" using steps_trans[OF a(2) e2(2)] a(5) by (elim steps_mono) auto
  have al: "alloc_block e = Some (Some p, e1)"
    using a(1,4) by (auto simp: alloc_or_zero_def bind_eq_Some_conv own_def split: option.splits)
  have "write_target i e (of_nat k) = Some (Some p, ?i, e2)"
    using al e2(1) True assms(4) len by (simp add: write_target_def get_direct set_direct nonzero_def)
  moreover have "dfile e2 ?i"
  proof -
    have o: "own e2 (i_block i ! j)" if "j < 12" "i_block i ! j \<noteq> 0" for j
      using assms(2) that steps_D(3)[OF st] by (auto simp: dfile_def)
    have ne: "i_block i ! j \<noteq> p" if "j < 12" "i_block i ! j \<noteq> 0" for j
      using assms(2) that a(5) by (auto simp: dfile_def)
    have p0: "p \<noteq> 0" using a(4) by (simp add: own_def)
    show ?thesis using assms(2,4) o ne p0 a(4) e2(6) len by (auto simp: dfile_def nth_list_update)
  qed
  ultimately show thesis
    using that[of p ?i e2] True st a(3-5) e2(3-6) by (simp add: zeros_def)
qed

text \<open>One iteration of the write loop: the bytes of one block.\<close>

lemma write_chunk_direct:
  assumes "fs_ok e" "dfile e i" "avail (Suc m) e" "k < 12" "bsz = block_size (e_sb e)" "off + length ys \<le> bsz"
  obtains p i' e1 e2 block where "write_target i e (of_nat k) = Some (Some p, i', e1)"
    "copy_slice (e_read e1 p) off (off + length ys) ys = Some block" "e_write e1 p block = Some e2"
    "steps e e2 (fblocks i)" "avail m e2" "dfile e2 i'" "i_block i' = (i_block i)[k := p]" "p \<noteq> 0"
    "i_ino i' = i_ino i" "i_size i' = i_size i" "i_block i ! k \<noteq> 0 \<longrightarrow> p = i_block i ! k"
    "\<And>j. own e j \<Longrightarrow> j \<notin> fblocks i \<Longrightarrow> j \<notin> fblocks i'"
    "\<And>x. x < 12 * bsz \<Longrightarrow> fbyte e2 i' x =
       (if k * bsz + off \<le> x \<and> x < k * bsz + off + length ys then ys ! (x - (k * bsz + off)) else fbyte e i x)"
proof -
  obtain p i' e1 where t: "write_target i e (of_nat k) = Some (Some p, i', e1)" "steps e e1 {}" "avail m e1" "dfile e1 i'"
    "own e1 p" "i_block i' = (i_block i)[k := p]" "i_ino i' = i_ino i" "i_size i' = i_size i"
    "if i_block i ! k = 0 then \<not> own e p \<and> e_read e1 p = zeros e1 else p = i_block i ! k \<and> e1 = e"
    using write_target_direct[OF assms(1-4)] by metis
  note S = steps_D[OF t(2)]
  have len: "length (i_block i) = 15" using assms(2) by (simp add: dfile_def)
  have b1: "block_size (e_sb e1) = bsz" "length (e_read e1 p) = bsz" "0 < bsz"
    using S(2) fs_geom(4)[OF S(1)] block_size_bounds(3)[OF fs_geom(1)[OF assms(1)]] assms(5) by simp_all
  let ?b = "overlay (e_read e1 p) off ys"
  have lb: "length ?b = block_size (e_sb e1)" using b1 assms(6) by simp
  obtain e2 where e2: "e_write e1 p ?b = Some e2" "steps e1 e2 {p}" "e_sb e2 = e_sb e1" "e_read e2 p = ?b"
    "\<And>n. avail n e2 = avail n e1" "\<And>j. own e2 j = own e1 j" "\<And>j. j \<noteq> p \<Longrightarrow> e_read e2 j = e_read e1 j"
    by (rule write_fs[OF S(1) t(5) lb]) blast
  have p0: "p \<noteq> 0" using t(5) by (simp add: own_def)
  have pf: "own e p \<Longrightarrow> p \<in> fblocks i" using t(9) assms(4) p0 by (auto simp: fblocks_def split: if_splits)
  have st: "steps e e2 (fblocks i)"
    using steps_trans[OF t(2) e2(2)] pf by (elim steps_mono) auto
  have df: "dfile e2 i'" using t(4) e2(6) by (simp add: dfile_def)
  have out: "j \<notin> fblocks i'" if "own e j" "j \<notin> fblocks i" for j
    using that pf t(6) len assms(4) by (auto simp: fblocks_def nth_list_update)
  have fb: "fbyte e2 i' x =
      (if k * bsz + off \<le> x \<and> x < k * bsz + off + length ys then ys ! (x - (k * bsz + off)) else fbyte e i x)"
    if x: "x < 12 * bsz" for x
  proof -
    let ?q = "x div bsz" and ?r = "x mod bsz"
    have q: "?q < 12" "?r < bsz" using x b1(3) by (simp_all add: div_less_iff_less_mult)
    have xr: "x = ?q * bsz + ?r" by simp
    have e2b: "block_size (e_sb e2) = bsz" using e2(3) b1(1) by simp
    show ?thesis
    proof (cases "?q = k")
      case True
      have rng: "k * bsz + off \<le> x \<longleftrightarrow> off \<le> ?r" "x < k * bsz + off + length ys \<longleftrightarrow> ?r < off + length ys"
        "x - (k * bsz + off) = ?r - off" using xr unfolding True by linarith+
      have "fbyte e2 i' x = ?b ! ?r" using True p0 t(6) len assms(4) e2(4) e2b by (simp add: fbyte_def)
      moreover have "e_read e1 p ! ?r = fbyte e i x"
        using t(9) True q b1(1) assms(5) by (auto simp: fbyte_def zeros_def split: if_splits)
      ultimately show ?thesis using nth_overlay[of off ys "e_read e1 p" ?r] b1(2) assms(6) q(2) rng by simp
    next
      case False
      have "\<not> (k * bsz + off \<le> x \<and> x < k * bsz + off + length ys)"
      proof
        assume h: "k * bsz + off \<le> x \<and> x < k * bsz + off + length ys"
        then have "k * bsz \<le> x" "x < Suc k * bsz" using assms(6) by simp_all
        then have "?q = k" using b1(3) by (intro div_nat_eqI) (simp_all add: mult.commute)
        then show False using False by simp
      qed
      moreover have "fbyte e2 i' x = fbyte e i x"
      proof (cases "i_block i ! ?q = 0")
        case True
        then show ?thesis using False t(6) e2b assms(5) by (simp add: fbyte_def)
      next
        case nz: False
        have "own e (i_block i ! ?q)" using assms(2) nz q(1) by (simp add: dfile_def)
        moreover have "i_block i ! ?q \<noteq> p"
        proof -
          have "i_block i' ! ?q = i_block i ! ?q" "i_block i' ! k = p" using t(6) False len assms(4) by simp_all
          then show ?thesis using t(4) nz q(1) assms(4) False unfolding dfile_def by metis
        qed
        ultimately have "e_read e2 (i_block i ! ?q) = e_read e (i_block i ! ?q)" using e2(7) S(4) by simp
        then show ?thesis using False t(6) e2b assms(5) by (simp add: fbyte_def Let_def)
      qed
      ultimately show ?thesis by auto
    qed
  qed
  show thesis
    using that[OF t(1) _ e2(1) st _ df t(6) p0 t(7,8)] b1 assms(6) t(3,9) e2(5) out fb
    by (simp add: copy_slice_def split: if_splits)
qed

text \<open>The whole loop, within the direct blocks.\<close>

definition wrote :: "Ext2State \<Rightarrow> Inode \<Rightarrow> nat \<Rightarrow> bytes \<Rightarrow> Inode \<Rightarrow> Ext2State \<Rightarrow> bool" where
  "wrote e i p buf i' e' \<longleftrightarrow>
     steps e e' (fblocks i) \<and> dfile e' i' \<and> i_ino i' = i_ino i \<and> i_size i' = i_size i \<and>
     (\<forall>j. own e j \<and> j \<notin> fblocks i \<longrightarrow> j \<notin> fblocks i') \<and>
     (\<forall>x < 12 * block_size (e_sb e). fbyte e' i' x = (if p \<le> x \<and> x < p + length buf then buf ! (x - p) else fbyte e i x)) \<and>
     (\<forall>k < 12. i_block i ! k \<noteq> 0 \<longrightarrow> i_block i' ! k = i_block i ! k) \<and>
     (\<forall>x. p \<le> x \<and> x < p + length buf \<longrightarrow> i_block i' ! (x div block_size (e_sb e)) \<noteq> 0)"

lemma wrote_trans:
  assumes a: "wrote e i p xs i1 e1" and b: "wrote e1 i1 (p + length xs) ys i2 e2" and "p + length xs + length ys \<le> 12 * block_size (e_sb e)"
  shows "wrote e i p (xs @ ys) i2 e2"
proof -
  let ?B = "block_size (e_sb e)"
  note A = a[unfolded wrote_def] and B = b[unfolded wrote_def]
  have bs: "block_size (e_sb e1) = ?B" and ow: "\<And>j. own e j \<Longrightarrow> own e1 j" using A steps_D(2,3) by blast+
  have "steps e e2 (fblocks i \<union> fblocks i1)" using A B steps_trans by blast
  then have st: "steps e e2 (fblocks i)" using A by (elim steps_mono) blast
  have nz: "i_block i2 ! (x div ?B) \<noteq> 0" if "p \<le> x" "x < p + length (xs @ ys)" for x
  proof (cases "x < p + length xs")
    case True
    have B0: "0 < ?B" using that assms(3) by (cases "?B = 0") simp_all
    then have "x div ?B < 12" using that assms(3) by (simp add: div_less_iff_less_mult)
    then show ?thesis using A B that True by metis
  next
    case False
    then show ?thesis using B bs that by simp
  qed
  have fb: "fbyte e2 i2 x = (if p \<le> x \<and> x < p + length (xs @ ys) then (xs @ ys) ! (x - p) else fbyte e i x)"
    if "x < 12 * ?B" for x
  proof -
    have "fbyte e1 i1 x = (if p \<le> x \<and> x < p + length xs then xs ! (x - p) else fbyte e i x)" using A that by blast
    moreover have "fbyte e2 i2 x = (if p + length xs \<le> x \<and> x < p + length xs + length ys then ys ! (x - (p + length xs)) else fbyte e1 i1 x)"
      using B that bs by simp
    ultimately show ?thesis by (auto simp: nth_append)
  qed
  have keep: "i_block i2 ! k = i_block i ! k" if "k < 12" "i_block i ! k \<noteq> 0" for k using A B that by metis
  have out: "j \<notin> fblocks i2" if "own e j" "j \<notin> fblocks i" for j using A B ow that by blast
  have rest: "dfile e2 i2" "i_ino i2 = i_ino i" "i_size i2 = i_size i" using A B by simp_all
  show ?thesis unfolding wrote_def using st rest out fb keep nz by blast
qed

lemma wrote_chunk:
  assumes "fs_ok e" "dfile e i" "avail (Suc m) e" "p div block_size (e_sb e) < 12"
    and "p mod block_size (e_sb e) + length ys \<le> block_size (e_sb e)"
  obtains q i1 e1 e2 block where "write_target i e (of_nat (p div block_size (e_sb e))) = Some (Some q, i1, e1)"
    "copy_slice (e_read e1 q) (p mod block_size (e_sb e)) (p mod block_size (e_sb e) + length ys) ys = Some block"
    "e_write e1 q block = Some e2" "wrote e i p ys i1 e2" "avail m e2"
proof -
  let ?B = "block_size (e_sb e)" and ?k = "p div block_size (e_sb e)" and ?off = "p mod block_size (e_sb e)"
  have pk: "?k * ?B + ?off = p" by simp
  have len: "length (i_block i) = 15" using assms(2) by (simp add: dfile_def)
  show thesis
  proof (rule write_chunk_direct[OF assms(1-4) refl assms(5)])
    fix q i1 e1 e2 block
    assume h: "write_target i e (of_nat ?k) = Some (Some q, i1, e1)"
      "copy_slice (e_read e1 q) ?off (?off + length ys) ys = Some block" "e_write e1 q block = Some e2"
      "steps e e2 (fblocks i)" "avail m e2" "dfile e2 i1" "i_block i1 = (i_block i)[?k := q]" "q \<noteq> 0"
      "i_ino i1 = i_ino i" "i_size i1 = i_size i" "i_block i ! ?k \<noteq> 0 \<longrightarrow> q = i_block i ! ?k"
      "\<And>j. own e j \<Longrightarrow> j \<notin> fblocks i \<Longrightarrow> j \<notin> fblocks i1"
      "\<And>x. x < 12 * ?B \<Longrightarrow> fbyte e2 i1 x =
         (if ?k * ?B + ?off \<le> x \<and> x < ?k * ?B + ?off + length ys then ys ! (x - (?k * ?B + ?off)) else fbyte e i x)"
    have "i_block i1 ! (x div ?B) \<noteq> 0" if "p \<le> x" "x < p + length ys" for x
    proof -
      have "?k * ?B \<le> x" "x < ?k * ?B + ?B" using that pk assms(5) by linarith+
      then have "x div ?B = ?k" by (intro div_nat_eqI) (simp_all add: mult.commute)
      then show ?thesis using h(7,8) len assms(4) by simp
    qed
    moreover have "i_block i1 ! j = i_block i ! j" if "j < 12" "i_block i ! j \<noteq> 0" for j
      using h(7,11) that len by (cases "j = ?k") simp_all
    ultimately have "wrote e i p ys i1 e2"
      using h(4,6,9,10,12) h(13)[unfolded pk] by (simp add: wrote_def)
    then show thesis using that h(1-3,5) by blast
  qed
qed

lemma file_write_loop_direct:
  assumes "fs_ok e" "dfile e i" "buf \<noteq> [] \<longrightarrow> avail (12 - unat pos div bsz) e" "bsz = block_size (e_sb e)"
    and "unat pos + length buf \<le> 12 * bsz"
  shows "\<exists>i' e'. file_write_loop bsz i e pos buf = Some (length buf, i', e') \<and> wrote e i (unat pos) buf i' e'"
  using assms
proof (induction "length buf" arbitrary: e i pos buf rule: less_induct)
  case less
  let ?P = "unat pos" and ?k = "unat pos div bsz" and ?off = "unat pos mod bsz"
  show ?case
  proof (cases "buf = []")
    case True
    have "wrote e i ?P [] i e"
      using less.prems(1,2) steps_refl[OF less.prems(1)] by (simp add: wrote_def) auto
    then show ?thesis using True by (simp add: file_write_loop.simps)
  next
    case False
    define c where "c = min (bsz - ?off) (length buf)"
    have b0: "0 < bsz" "bsz \<le> 65536"
      using block_size_bounds[OF fs_geom(1)[OF less.prems(1)]] less.prems(4) by simp_all
    have k: "?k < 12" using less.prems(5) False b0 by (simp add: div_less_iff_less_mult) (cases buf; simp)
    have c: "0 < c" "c \<le> length buf" "?off + c \<le> bsz"
      using False mod_less_divisor[OF b0(1), of ?P] unfolding c_def by (simp, simp, linarith)
    have av: "avail (Suc (11 - ?k)) e" using less.prems(3) False k by (simp add: Suc_diff_le[symmetric])
    obtain q i1 e1 e2 block where w: "write_target i e (of_nat ?k) = Some (Some q, i1, e1)"
      "copy_slice (e_read e1 q) ?off (?off + c) (take c buf) = Some block"
      "e_write e1 q block = Some e2" "wrote e i ?P (take c buf) i1 e2" "avail (11 - ?k) e2"
    proof -
      have lt: "length (take c buf) = c" using c(2) by simp
      show thesis
        by (rule wrote_chunk[OF less.prems(1,2) av, of ?P "take c buf", folded less.prems(4), unfolded lt, OF k c(3)]) (rule that)
    qed
    have W: "fs_ok e2" "dfile e2 i1" "block_size (e_sb e2) = bsz"
      using w(4) less.prems(4) by (auto simp: wrote_def dest: steps_D(1,2))
    have pos: "unat (pos + of_nat c) = ?P + c"
      using c(2) less.prems(5) b0(2) by (simp add: unat_word_ariths unat_of_nat)
    have nx: "?P + c = Suc ?k * bsz" if "drop c buf \<noteq> []"
    proof -
      have "c = bsz - ?off" using that by (simp add: c_def)
      moreover have "?P = ?k * bsz + ?off" "?off < bsz" using b0 by simp_all
      ultimately show ?thesis by (metis add.assoc add.commute le_add_diff_inverse less_imp_le mult_Suc)
    qed
    have av2: "drop c buf \<noteq> [] \<longrightarrow> avail (12 - unat (pos + of_nat c) div bsz) e2"
      using w(5) b0(1) by (auto simp: pos nx)
    have le: "unat (pos + of_nat c) + length (drop c buf) \<le> 12 * bsz" using less.prems(5) c(2) pos by simp
    obtain i' e' where r: "file_write_loop bsz i1 e2 (pos + of_nat c) (drop c buf) = Some (length buf - c, i', e')"
      "wrote e2 i1 (?P + c) (drop c buf) i' e'"
      using less.hyps[OF _ W(1,2) av2 W(3)[symmetric] le] c(1) False pos by auto
    have "wrote e i ?P (take c buf @ drop c buf) i' e'"
    proof (rule wrote_trans[OF w(4)])
      have l: "length (take c buf) = c" using c(2) by simp
      show "wrote e2 i1 (?P + length (take c buf)) (drop c buf) i' e'" unfolding l by (rule r(2))
      show "?P + length (take c buf) + length (drop c buf) \<le> 12 * block_size (e_sb e)"
        using c(2) less.prems(4,5) by simp
    qed
    moreover have "file_write_loop bsz i e pos buf = Some (length buf, i', e')"
      using False b0(1) w(1-3) r(1) c(2)
      by (simp add: file_write_loop.simps[of bsz i e pos buf] c_def[symmetric] Let_def)
    ultimately show ?thesis by auto
  qed
qed

lemma file_read_loop_direct:
  assumes "fs_ok e" "length (i_block i) = 15" "pos + n \<le> 12 * block_size (e_sb e)"
    and "\<And>x. pos \<le> x \<Longrightarrow> x < pos + n \<Longrightarrow> i_block i ! (x div block_size (e_sb e)) \<noteq> 0"
  shows "file_read_loop i (e_dev e) (e_sb e) pos n = Some (map (fbyte e i) [pos..<pos + n])"
  using assms(3,4)
proof (induction n arbitrary: pos rule: less_induct)
  case (less n)
  let ?B = "block_size (e_sb e)" and ?k = "pos div block_size (e_sb e)" and ?off = "pos mod block_size (e_sb e)"
  define c where "c = min (?B - ?off) n"
  have b0: "0 < ?B" by (rule block_size_bounds(3)[OF fs_geom(1)[OF assms(1)]])
  show ?case
  proof (cases "n = 0")
    case False
    have k: "?k < 12" using less.prems(1) False b0 by (simp add: div_less_iff_less_mult)
    have c: "0 < c" "c \<le> n" "?off + c \<le> ?B"
      using False mod_less_divisor[OF b0, of pos] unfolding c_def by (simp, simp, linarith)
    let ?b = "e_read e (i_block i ! ?k)"
    have nz: "i_block i ! ?k \<noteq> 0" using less.prems(2)[of pos] False by simp
    have "take c (drop ?off ?b) = map (fbyte e i) [pos..<pos + c]"
    proof (rule nth_equalityI)
      show "length (take c (drop ?off ?b)) = length (map (fbyte e i) [pos..<pos + c])"
        using c(3) fs_geom(4)[OF assms(1)] by simp
      fix j assume "j < length (take c (drop ?off ?b))"
      then have j: "j < c" by simp
      have lt: "?off + j < ?B" using j c(3) by linarith
      have "((?off + j) + ?k * ?B) div ?B = ?k" "((?off + j) + ?k * ?B) mod ?B = ?off + j"
        using lt b0 by (simp_all only: div_mult_self1 mod_mult_self1 div_less mod_less)
      moreover have "(?off + j) + ?k * ?B = pos + j" using div_mult_mod_eq[of pos ?B] by linarith
      ultimately have "(pos + j) div ?B = ?k" "(pos + j) mod ?B = ?off + j" by simp_all
      then show "take c (drop ?off ?b) ! j = map (fbyte e i) [pos..<pos + c] ! j"
        using j c(3) fs_geom(4)[OF assms(1)] nz by (simp add: fbyte_def)
    qed
    moreover have "file_read_loop i (e_dev e) (e_sb e) (pos + c) (n - c) = Some (map (fbyte e i) [pos + c..<pos + n])"
      using less.IH[of "n - c" "pos + c"] less.prems c by simp
    moreover have "[pos..<pos + n] = [pos..<pos + c] @ [pos + c..<pos + n]"
      using c(2) upt_add_eq_append[of pos "pos + c" "n - c"] by simp
    ultimately show ?thesis
      using False b0 nz c fs_geom(4)[OF assms(1)] get_direct[OF assms(2) k]
      by (simp add: file_read_loop.simps[of i _ _ pos n] c_def[symmetric] nonzero_def slice_def Let_def)
  qed (simp add: file_read_loop.simps)
qed

lemma inode_locate_steps:
  assumes "steps e e' W"
  shows "inode_locate (e_sb e') (e_bgdt e') ino = inode_locate (e_sb e) (e_bgdt e) ino"
proof -
  have s: "sb_static_eq (e_sb e) (e_sb e')" and m: "map bg_inode_table (e_bgdt e') = map bg_inode_table (e_bgdt e)"
    using assms by (simp_all add: steps_def)
  have l: "length (e_bgdt e') = length (e_bgdt e)" using map_eq_imp_length_eq[OF m] .
  have "bg_inode_table (e_bgdt e' ! g) = bg_inode_table (e_bgdt e ! g)" if "g < length (e_bgdt e)" for g
    using arg_cong[OF m, of "\<lambda>xs. xs ! g"] l that by simp
  then show ?thesis
    unfolding inode_locate_def sb_static_geometry[OF s] bgdt_get_def index_at_def l
    by (cases "inode_block_group (e_sb e) ino"; cases "inode_local_index (e_sb e) ino") (simp_all add: Let_def)
qed

text \<open>Rewriting the inode of a file keeps the contents of its blocks.\<close>

lemma fbyte_cong:
  assumes "block_size (e_sb e') = block_size (e_sb e)" "i_block i' = i_block i" "x < 12 * block_size (e_sb e)"
    and "\<And>b. b \<in> fblocks i \<Longrightarrow> e_read e' b = e_read e b"
  shows "fbyte e' i' x = fbyte e i x"
proof -
  have "x div block_size (e_sb e) < 12" using assms(3) by (metis less_mult_imp_div_less)
  then have "i_block i ! (x div block_size (e_sb e)) \<noteq> 0 \<Longrightarrow> i_block i ! (x div block_size (e_sb e)) \<in> fblocks i"
    by (auto simp: fblocks_def)
  then show ?thesis using assms(1,2,4) by (simp add: fbyte_def Let_def)
qed

lemma inode_write_fs:
  assumes "fs_ok e" "inode_locate (e_sb e) (e_bgdt e) (i_ino i) = Some (tbl, off)" "own e tbl"
    and "unat (sb_inode_size (e_sb e)) dvd block_size (e_sb e)" "128 \<le> unat (sb_inode_size (e_sb e))" "length (i_block i) = 15"
  obtains d' where "ext2_inode_write i (e_dev e) (e_sb e) (e_bgdt e) = Some d'" "steps e (e\<lparr>e_dev := d'\<rparr>) {tbl}"
    "ext2_inode_read d' (e_sb e) (e_bgdt e) (i_ino i) = Some (Some i)"
    "\<And>j. j \<noteq> tbl \<Longrightarrow> read_block_bytes d' (e_sb e) j = e_read e j"
proof -
  have G: "geom_ok (e_sb e)" "disk_wf (e_dev e)" by (rule fs_geom[OF assms(1)])+
  have hb: "has_block (e_dev e) (e_sb e) tbl" using assms(3) by (simp add: own_def data_block_def)
  obtain d' data where w: "ext2_inode_write i (e_dev e) (e_sb e) (e_bgdt e) = Some d'"
    "write_block_bytes (e_dev e) (e_sb e) tbl data = Some d'" "length data = block_size (e_sb e)"
    "ext2_inode_read d' (e_sb e) (e_bgdt e) (i_ino i) = Some (Some i)"
    by (rule inode_write_read[OF G assms(2) inode_off_fits[OF assms(2,4,5) G(1)] hb assms(6)])
  obtain e' where "e_write e tbl data = Some e'" "steps e e' {tbl}" "e_sb e' = e_sb e" "\<And>j. j \<noteq> tbl \<Longrightarrow> e_read e' j = e_read e j"
    by (rule write_fs[OF assms(1,3) w(3)]) blast
  then show thesis using that[OF w(1) _ w(4)] w(2) by (auto simp: e_write_def)
qed

section \<open>Properties\<close>

text \<open>C15: Writing a buffer into a file at any offset within its twelve direct blocks writes all of
  it, allocating the missing blocks, and reading the same range back returns the buffer. The file
  grows to the end of the write if it was shorter, every other byte of its direct blocks keeps
  its value, and the volume stays consistent.\<close>

theorem ext2_file_write_read:
  assumes "fs_ok e" "ext2_inode_read (e_dev e) (e_sb e) (e_bgdt e) ino = Some (Some i)" "dfile e i"
    and "inode_locate (e_sb e) (e_bgdt e) ino = Some (tbl, off)" "own e tbl" "tbl \<notin> fblocks i"
    and "unat (sb_inode_size (e_sb e)) dvd block_size (e_sb e)" "128 \<le> unat (sb_inode_size (e_sb e))"
    and "avail (12 - unat offset div block_size (e_sb e)) e" "unat offset + length buf \<le> 12 * block_size (e_sb e)"
    and "buf \<noteq> []"
  shows "\<exists>e' i'. ext2_file_write e ino offset buf = Some (length buf, e') \<and>
    ext2_file_read e' ino offset (length buf) = Some buf \<and> fs_ok e' \<and>
    ext2_inode_read (e_dev e') (e_sb e') (e_bgdt e') ino = Some (Some i') \<and>
    inode_size i' = max (inode_size i) (unat offset + length buf) \<and>
    (\<forall>x < 12 * block_size (e_sb e). x < unat offset \<or> unat offset + length buf \<le> x \<longrightarrow> fbyte e' i' x = fbyte e i x)"
proof -
  let ?B = "block_size (e_sb e)" and ?P = "unat offset" and ?n = "length buf"
  obtain i1 e1 where w: "file_write_loop ?B i e offset buf = Some (?n, i1, e1)" "wrote e i ?P buf i1 e1"
    using file_write_loop_direct[OF assms(1,3) _ refl assms(10)] assms(9) by blast
  note W = w(2)[unfolded wrote_def]
  note S = steps_D[OF conjunct1[OF W]]
  have ino: "i_ino i1 = ino" using W assms(2) by (auto simp: ext2_inode_read_def bind_eq_Some_conv inode_parse_def Let_def split: if_splits)
  have B: "?B \<le> 65536" "block_size (e_sb e1) = ?B"
    using block_size_bounds(2)[OF fs_geom(1)[OF assms(1)]] S(2) by simp_all
  have ne: "unat (offset + of_nat ?n) = ?P + ?n" using assms(10) B(1) by (simp add: unat_word_ariths unat_of_nat)
  then have ne32: "unat (ucast (offset + of_nat ?n) :: u32) = ?P + ?n" using assms(10) B(1) by (simp add: unsigned_ucast_eq take_bit_nat_eq_self)
  define i2 where "i2 = (if inode_size i1 < unat (offset + of_nat ?n) then i1\<lparr>i_size := ucast (offset + of_nat ?n)\<rparr> else i1)"
  have i2: "i_block i2 = i_block i1" "i_ino i2 = ino" "length (i_block i2) = 15"
    "inode_size i2 = max (inode_size i) (?P + ?n)"
    using W ino ne ne32 by (auto simp: i2_def inode_size_def dfile_def)
  have loc: "inode_locate (e_sb e1) (e_bgdt e1) (i_ino i2) = Some (tbl, off)"
    using inode_locate_steps[OF conjunct1[OF W]] assms(4) i2(2) by simp
  have isz: "sb_inode_size (e_sb e1) = sb_inode_size (e_sb e)"
    using W sb_static_geometry(5) by (auto simp: steps_def)
  obtain d where d: "ext2_inode_write i2 (e_dev e1) (e_sb e1) (e_bgdt e1) = Some d" "steps e1 (e1\<lparr>e_dev := d\<rparr>) {tbl}"
    "ext2_inode_read d (e_sb e1) (e_bgdt e1) ino = Some (Some i2)" "\<And>j. j \<noteq> tbl \<Longrightarrow> read_block_bytes d (e_sb e1) j = e_read e1 j"
    using inode_write_fs[OF S(1) loc S(3)[OF assms(5)] _ _ i2(3)] assms(7,8) isz B(2) i2(2) by metis
  let ?e = "e1\<lparr>e_dev := d\<rparr>"
  have ok: "fs_ok ?e" using steps_D(1)[OF d(2)] .
  have tbl: "tbl \<notin> fblocks i1" using W assms(5,6) by blast
  have fb: "fbyte ?e i2 x = (if ?P \<le> x \<and> x < ?P + ?n then buf ! (x - ?P) else fbyte e i x)" if "x < 12 * ?B" for x
    using fbyte_cong[of ?e e1 i2 i1 x] that B(2) i2(1) d(4) tbl W by (metis (no_types, lifting) Ext2State.select_convs(1,2) Ext2State.surjective Ext2State.update_convs(1))
  have "file_read_loop i2 (e_dev ?e) (e_sb ?e) ?P ?n = Some (map (fbyte ?e i2) [?P..<?P + ?n])"
    using W by (intro file_read_loop_direct[OF ok i2(3)]) (simp_all add: assms(10) B(2) i2(1))
  moreover have "map (fbyte ?e i2) [?P..<?P + ?n] = buf"
    using fb assms(10) by (intro nth_equalityI) simp_all
  moreover have "ext2_file_write e ino offset buf = Some (?n, ?e)"
    using assms(2,11) w(1) d(1) by (simp add: ext2_file_write_def i2_def[symmetric] Let_def)
  ultimately show ?thesis
    using d(3) i2(4) ok fb assms(11) by (intro exI[of _ ?e] exI[of _ i2]) (auto simp: ext2_file_read_def min_def)
qed

lemma demo_table: "e_read demo_ext2 4 = replicate 4096 0"
proof -
  have "vol_dev 5 (vol_sb 2 32768) (32 + of_nat s) = Some (replicate 512 0)" if "s < 8" for s
  proof -
    from that have "s \<in> {0, 1, 2, 3, 4, 5, 6, 7}" by auto
    then show ?thesis
      by (auto simp: vol_dev_def block_to_sector_def bgdt_block_def sectors_per_block_def block_size_def vol_sb_def vol_bg_def push_bit_eq_mult)
  qed
  then have "map (\<lambda>s. read_or_zero (e_dev demo_ext2) (32 + of_nat s)) [0..<8] = replicate 8 (replicate 512 0)"
    by (intro nth_equalityI) (simp_all add: read_or_zero_def dev_read_def demo_ext2_def vol_def)
  moreover have "sectors_per_block (vol_sb 2 32768) = 8" "block_to_sector (vol_sb 2 32768) 4 = 32"
    by (simp_all add: block_to_sector_def sectors_per_block_def block_size_def vol_sb_def push_bit_eq_mult)
  ultimately have "e_read demo_ext2 4 = concat (replicate 8 (replicate 512 0))"
    by (simp add: read_block_bytes_def read_sectors_def demo_facts)
  then show ?thesis by (simp add: numeral_eq_Suc replicate_add[symmetric])
qed

theorem ext2_file_write_read_witness:
  "\<exists>e'. ext2_file_write demo_ext2 12 36862 [1, 2, 3, 4, 5] = Some (5, e') \<and>
     ext2_file_read e' 12 36862 5 = Some [1, 2, 3, 4, 5] \<and> fs_ok e'"
proof -
  let ?i = "inode_parse 12 (replicate 128 0)"
  have loc: "inode_locate (e_sb demo_ext2) (e_bgdt demo_ext2) 12 = Some (4, 1408)"
    by (simp add: inode_locate_def inode_block_group_def inode_local_index_def wdiv_def wmod_def udiv_def
        demo_facts bgdt_get_def index_at_def vol_bg_def)
  have rd: "ext2_inode_read (e_dev demo_ext2) (e_sb demo_ext2) (e_bgdt demo_ext2) 12 = Some (Some ?i)"
    using loc demo_table by (simp add: ext2_inode_read_def)
  have z: "i_block ?i = replicate 15 0" by (simp add: inode_parse_def numeral_eq_Suc)
  then have df: "dfile demo_ext2 ?i" "4 \<notin> fblocks ?i" by (simp_all add: dfile_def fblocks_def)
  have ow: "own demo_ext2 4" using demo_used[of 4] by (simp add: own_def data_block_def demo_meta demo_has_block)
  have l: "length [1, 2, 3, 4, 5 :: u8] = 5" by simp
  show ?thesis
    using ext2_file_write_read[OF demo_fs_ok rd df(1) loc ow df(2), of 36862 "[1, 2, 3, 4, 5]", unfolded l] demo_avail
    by (auto simp: demo_facts)
qed

end
