(* ===== verification/Fat_Table.thy ===== *)
theory Fat_Table
  imports Block_Dev
begin

text \<open>
  fs/src/fat32/mod.rs, first part: the BIOS parameter block, the file allocation table and
  cluster chains. The driver uses the global block device whatever device it is mounted on,
  so that device is the \<open>disk\<close> argument; without a device no sector can be read.
\<close>

unbundle bit_operations_syntax

abbreviation FAT32_EOC :: u32 where "FAT32_EOC \<equiv> 0x0FFFFFF8"
abbreviation FAT32_FREE :: u32 where "FAT32_FREE \<equiv> 0"
abbreviation FAT32_MASK :: u32 where "FAT32_MASK \<equiv> 0x0FFFFFFF"

section \<open>Parameter block\<close>

record Bpb =
  bytes_per_sector :: u16
  sectors_per_cluster :: u8
  reserved_sectors :: u16
  fat_count :: u8
  total_sectors :: u32
  sectors_per_fat :: u32
  root_cluster :: u32

definition FAT32_SIG :: bytes where
  "FAT32_SIG = [70, 65, 84, 51, 50, 32, 32, 32]"

definition bpb_parse :: "bytes \<Rightarrow> Bpb option" where
  "bpb_parse buf =
     (if buf ! 510 \<noteq> 0x55 \<or> buf ! 511 \<noteq> 0xAA then None
      else
        (let bps = of_le (take 2 (drop 11 buf));
             spc = buf ! 13;
             rs = of_le (take 2 (drop 14 buf));
             fc = buf ! 16;
             total_sectors_16 = (of_le (take 2 (drop 19 buf)) :: u16);
             sectors_per_fat_16 = (of_le (take 2 (drop 22 buf)) :: u16);
             total_sectors_32 = (of_le (take 4 (drop 32 buf)) :: u32);
             sectors_per_fat_32 = (of_le (take 4 (drop 36 buf)) :: u32);
             rc = (of_le (take 4 (drop 44 buf)) :: u32);
             spf = (if sectors_per_fat_16 = 0 then sectors_per_fat_32 else ucast sectors_per_fat_16);
             ts = (if total_sectors_16 = 0 then total_sectors_32 else ucast total_sectors_16)
         in if bps = 0 \<or> spc = 0 \<or> fc = 0 \<or> spf = 0 then None
            else if take 8 (drop 82 buf) \<noteq> FAT32_SIG then None
            else Some \<lparr> bytes_per_sector = bps, sectors_per_cluster = spc, reserved_sectors = rs, fat_count = fc,
                        total_sectors = ts, sectors_per_fat = spf, root_cluster = rc \<rparr>))"

definition fat_start_sector :: "Bpb \<Rightarrow> u64" where
  "fat_start_sector bpb = ucast (reserved_sectors bpb)"

definition data_start_sector :: "Bpb \<Rightarrow> u64" where
  "data_start_sector bpb = ucast (reserved_sectors bpb) + ucast (fat_count bpb) * ucast (sectors_per_fat bpb)"

definition cluster_to_sector :: "Bpb \<Rightarrow> u32 \<Rightarrow> u64" where
  "cluster_to_sector bpb cluster = data_start_sector bpb + (ucast cluster - 2) * ucast (sectors_per_cluster bpb)"

definition cluster_size_bytes :: "Bpb \<Rightarrow> nat" where
  "cluster_size_bytes bpb = unat (sectors_per_cluster bpb) * SECTOR"

definition fat_sector_for :: "Bpb \<Rightarrow> u32 \<Rightarrow> u64" where
  "fat_sector_for bpb cluster = fat_start_sector bpb + (ucast cluster * 4) div 512"

definition fat_offset_in_sector :: "u32 \<Rightarrow> nat" where
  "fat_offset_in_sector cluster = unat cluster * 4 mod SECTOR"

section \<open>Sectors\<close>

text \<open>A failed read leaves the caller's buffer as it is; a failed write is ignored.\<close>

definition read_sector :: "disk \<Rightarrow> u64 \<Rightarrow> bytes \<Rightarrow> bytes" where
  "read_sector d sector buf = (case d sector of Some b \<Rightarrow> b | None \<Rightarrow> buf)"

definition write_sector :: "disk \<Rightarrow> u64 \<Rightarrow> bytes \<Rightarrow> disk" where
  "write_sector d sector buf = snd (dev_write d sector buf)"

abbreviation ZERO :: bytes where
  "ZERO \<equiv> replicate SECTOR 0"

section \<open>The table\<close>

definition fat_read_entry :: "disk \<Rightarrow> Bpb \<Rightarrow> u32 \<Rightarrow> u32" where
  "fat_read_entry d bpb cluster =
     (let sector = fat_sector_for bpb cluster;
          offset = fat_offset_in_sector cluster;
          buf = read_sector d sector ZERO
      in of_le (take 4 (drop offset buf)) AND FAT32_MASK)"

text \<open>One copy of the table: the low 28 bits are replaced, the top four kept.\<close>

definition fat_patch :: "bytes \<Rightarrow> nat \<Rightarrow> u32 \<Rightarrow> bytes" where
  "fat_patch buf offset value =
     (let bytes = to_le 4 (value AND FAT32_MASK);
          buf = buf[offset := bytes ! 0, offset + 1 := bytes ! 1, offset + 2 := bytes ! 2]
      in buf[offset + 3 := (buf ! (offset + 3) AND 0xF0) OR bytes ! 3])"

definition fat_write_copy :: "Bpb \<Rightarrow> u32 \<Rightarrow> u32 \<Rightarrow> disk \<Rightarrow> nat \<Rightarrow> disk" where
  "fat_write_copy bpb cluster value d fat_num =
     (let fat_base = ucast (reserved_sectors bpb) + of_nat fat_num * ucast (sectors_per_fat bpb);
          sector = fat_base + (ucast cluster * 4) div 512;
          offset = fat_offset_in_sector cluster;
          buf = read_sector d sector ZERO
      in write_sector d sector (fat_patch buf offset value))"

definition fat_write_entry :: "disk \<Rightarrow> Bpb \<Rightarrow> u32 \<Rightarrow> u32 \<Rightarrow> disk" where
  "fat_write_entry d bpb cluster value = foldl (fat_write_copy bpb cluster value) d [0..<unat (fat_count bpb)]"

definition fat_max_cluster :: "Bpb \<Rightarrow> u32 option" where
  "fat_max_cluster bpb =
     map_option (\<lambda>q. q + 2) (wdiv (total_sectors bpb - ucast (data_start_sector bpb)) (ucast (sectors_per_cluster bpb)))"

fun fat_find_free :: "disk \<Rightarrow> Bpb \<Rightarrow> nat list \<Rightarrow> u32 option" where
  "fat_find_free d bpb [] = None"
| "fat_find_free d bpb (c # cs) =
     (if fat_read_entry d bpb (of_nat c) = FAT32_FREE then Some (of_nat c) else fat_find_free d bpb cs)"

text \<open>The outer \<open>None\<close> is a panic (division by zero), the inner one a full volume.\<close>

definition fat_alloc_cluster :: "disk \<Rightarrow> Bpb \<Rightarrow> (u32 option \<times> disk) option" where
  "fat_alloc_cluster d bpb =
     do { m \<leftarrow> fat_max_cluster bpb;
          case fat_find_free d bpb [2..<unat m] of
            None \<Rightarrow> Some (None, d)
          | Some cluster \<Rightarrow> Some (Some cluster, fat_write_entry d bpb cluster FAT32_EOC) }"

text \<open>\<open>None\<close> when the walk never ends.\<close>

partial_function (option) cluster_chain :: "disk \<Rightarrow> Bpb \<Rightarrow> u32 \<Rightarrow> u32 list option" where
  "cluster_chain d bpb cur =
     (if 2 \<le> cur \<and> cur < FAT32_EOC then
        (let next_cl = fat_read_entry d bpb cur
         in if FAT32_EOC \<le> next_cl \<or> next_cl < 2 then Some [cur]
            else Option.bind (cluster_chain d bpb next_cl) (\<lambda>rest. Some (cur # rest)))
      else Some [])"

text \<open>The sectors of a cluster, in order.\<close>

definition cluster_sectors :: "Bpb \<Rightarrow> u32 \<Rightarrow> u64 list" where
  "cluster_sectors bpb cluster =
     map (\<lambda>s. cluster_to_sector bpb cluster + of_nat s) [0..<unat (sectors_per_cluster bpb)]"

section \<open>Entries of the table copies\<close>

text \<open>The sector of copy \<open>n\<close> that holds the entry of cluster \<open>c\<close>, and the entry there. \<open>fat_slot\<close>
  says that the table is long enough for \<open>c\<close>.\<close>

definition fat_sec :: "Bpb \<Rightarrow> nat \<Rightarrow> u32 \<Rightarrow> u64" where
  "fat_sec bpb n c = ucast (reserved_sectors bpb) + of_nat n * ucast (sectors_per_fat bpb) + (ucast c * 4) div 512"

definition fat_entry :: "disk \<Rightarrow> Bpb \<Rightarrow> nat \<Rightarrow> u32 \<Rightarrow> u32" where
  "fat_entry d bpb n c = of_le (take 4 (drop (fat_offset_in_sector c) (read_sector d (fat_sec bpb n c) ZERO))) AND FAT32_MASK"

definition fat_slot :: "Bpb \<Rightarrow> u32 \<Rightarrow> bool" where
  "fat_slot bpb c \<longleftrightarrow> unat c * 4 div SECTOR < unat (sectors_per_fat bpb)"

lemma fat_read_entry_copy: "fat_read_entry d bpb c = fat_entry d bpb 0 c"
  by (simp add: fat_read_entry_def fat_entry_def fat_sector_for_def fat_start_sector_def fat_sec_def Let_def)

lemma fat_offset_bound: "fat_offset_in_sector c + 4 \<le> SECTOR"
proof -
  have "unat c * 4 mod (128 * 4) = unat c mod 128 * 4" by (simp only: mult_mod_left)
  then show ?thesis using mod_less_divisor[of 128 "unat c"] by (simp add: fat_offset_in_sector_def)
qed

lemma unat_cluster4: "unat ((ucast (c :: u32) * 4) div 512 :: u64) = unat c * 4 div SECTOR"
  using unat_u32_less[of c] by (simp add: unat_div unat_word_ariths unsigned_ucast_eq take_bit_nat_eq_self)

lemma unat_fat_sec:
  assumes "n < 256" "fat_slot bpb c"
  shows "unat (fat_sec bpb n c) = unat (reserved_sectors bpb) + n * unat (sectors_per_fat bpb) + unat c * 4 div SECTOR"
proof -
  let ?r = "unat (reserved_sectors bpb)" and ?s = "unat (sectors_per_fat bpb)"
  have b: "?r < 65536" "?s < 4294967296" by (rule unat_u16_less unat_u32_less)+
  have "n * ?s \<le> 255 * 4294967296" using assms(1) b(2) by (intro mult_le_mono) simp_all
  then have "n * ?s < 2 ^ 64" "?r + n * ?s + unat c * 4 div SECTOR < 2 ^ 64" using b assms(2) by (simp_all add: fat_slot_def)
  moreover have "unat (of_nat n * ucast (sectors_per_fat bpb) :: u64) = n * ?s"
    using assms(1) b(2) \<open>n * ?s < 2 ^ 64\<close> by (simp add: unat_word_ariths unat_of_nat unsigned_ucast_eq take_bit_nat_eq_self)
  moreover have "unat (ucast (reserved_sectors bpb) :: u64) = ?r" by (simp add: unsigned_ucast_eq take_bit_nat_eq_self b(1) order_less_le_trans[OF b(1)])
  ultimately show ?thesis
    unfolding fat_sec_def unat_word_ariths(1) unat_cluster4 by (simp del: of_nat_mult)
qed

lemma fat_sec_inj:
  assumes "n < 256" "m < 256" "fat_slot bpb c" "fat_slot bpb c'" "fat_sec bpb n c = fat_sec bpb m c'"
  shows "n = m" "unat c * 4 div SECTOR = unat c' * 4 div SECTOR"
proof -
  let ?s = "unat (sectors_per_fat bpb)"
  have eq: "n * ?s + unat c * 4 div SECTOR = m * ?s + unat c' * 4 div SECTOR"
    using unat_fat_sec[OF assms(1,3)] unat_fat_sec[OF assms(2,4)] assms(5) by simp
  have lt: "unat c * 4 div SECTOR < ?s" "unat c' * 4 div SECTOR < ?s" using assms(3,4) by (simp_all add: fat_slot_def)
  have "(unat c * 4 div SECTOR + n * ?s) div ?s = n" "(unat c' * 4 div SECTOR + m * ?s) div ?s = m" using lt by simp_all
  then show "n = m" using eq by (simp add: add.commute)
  then show "unat c * 4 div SECTOR = unat c' * 4 div SECTOR" using eq by simp
qed

lemma fat_offset_disjoint:
  assumes "unat c * 4 div SECTOR = unat c' * 4 div SECTOR" "c \<noteq> c'"
  shows "fat_offset_in_sector c + 4 \<le> fat_offset_in_sector c' \<or> fat_offset_in_sector c' + 4 \<le> fat_offset_in_sector c"
proof -
  have d: "unat x * 4 mod SECTOR = (unat x mod 128) * 4" for x :: u32 using mult_mod_left[of "unat x" 128 4] by simp
  have e: "unat x * 4 div SECTOR = unat x div 128" for x :: u32 using div_mult_mult2[of 4 "unat x" 128] by simp
  have "unat c mod 128 \<noteq> unat c' mod 128"
    using assms unfolding e by (metis div_mult_mod_eq word_unat_eq_iff)
  then show ?thesis unfolding fat_offset_in_sector_def d by linarith
qed

section \<open>Writing an entry\<close>

lemma mask_bits: "bit FAT32_MASK k \<longleftrightarrow> k < 28" "bit (0xF0 :: u8) j \<longleftrightarrow> 4 \<le> j \<and> j < 8"
proof -
  have m: "FAT32_MASK = mask 28" by (simp add: mask_eq_exp_minus_1)
  show "bit FAT32_MASK k \<longleftrightarrow> k < 28" unfolding m bit_mask_iff by auto
  have m: "(0xF0 :: u8) = push_bit 4 (mask 4)" by (simp add: mask_eq_exp_minus_1 push_bit_eq_mult)
  show "bit (0xF0 :: u8) j \<longleftrightarrow> 4 \<le> j \<and> j < 8" unfolding m bit_push_bit_iff bit_mask_iff by auto
qed

text \<open>A patch is an overlay of four bytes whose low 28 bits are the new value.\<close>

lemma fat_patch_overlay:
  assumes "off + 4 \<le> length buf"
  obtains bs where "fat_patch buf off v = overlay buf off bs" "length bs = 4" "of_le bs AND FAT32_MASK = v AND FAT32_MASK"
proof
  define u where "u = v AND FAT32_MASK"
  have u: "bit u k \<Longrightarrow> k < 28" for k unfolding u_def bit_and_iff mask_bits(1) by blast
  let ?w = "to_le 4 u"
  let ?bs = "[?w ! 0, ?w ! 1, ?w ! 2, (buf ! (off + 3) AND 0xF0) OR ?w ! 3]"
  show "fat_patch buf off v = overlay buf off ?bs"
    using assms unfolding fat_patch_def u_def[symmetric] Let_def
    by (intro nth_equalityI) (auto simp: nth_overlay nth_list_update nth_Cons' split: if_splits)
  show "length ?bs = 4" by simp
  have "of_le ?bs AND FAT32_MASK = u"
  proof (rule bit_word_eqI)
    fix k assume k: "k < LENGTH(32)"
    have r: "8 * (k div 8) + k mod 8 = k" by simp
    have w: "bit (?w ! (k div 8)) (k mod 8) = bit u k"
      using k r by (simp add: to_le_def bit_simps)
    have "k div 8 < 4" using k by simp
    then have j: "k div 8 = 0 \<or> k div 8 = 1 \<or> k div 8 = 2 \<or> k div 8 = 3" by linarith
    have "bit (?bs ! (k div 8)) (k mod 8) = bit u k" if "k < 28"
    proof -
      have "k div 8 = 3 \<Longrightarrow> \<not> bit (0xF0 :: u8) (k mod 8)" using that r unfolding mask_bits(2) by linarith
      then show ?thesis using j w by (auto simp: bit_or_iff bit_and_iff)
    qed
    moreover have "\<not> bit u k" if "\<not> k < 28" using u that by blast
    ultimately show "bit (of_le ?bs AND FAT32_MASK) k = bit u k"
      using k \<open>k div 8 < 4\<close> unfolding bit_and_iff bit_of_le mask_bits(1) by auto
  qed
  then show "of_le ?bs AND FAT32_MASK = v AND FAT32_MASK" by (simp only: u_def)
qed

lemma read_sector_length [simp]: "disk_wf d \<Longrightarrow> length (read_sector d s ZERO) = SECTOR"
  by (auto simp: read_sector_def disk_wf_def split: option.splits)

lemma write_sector_simps [simp]:
  "write_sector d s b x = None \<longleftrightarrow> d x = None" "x \<noteq> s \<Longrightarrow> write_sector d s b x = d x"
  "d s \<noteq> None \<Longrightarrow> write_sector d s b s = Some b"
  by (simp_all add: write_sector_def)

lemma write_sector_wf: "disk_wf d \<Longrightarrow> length b = SECTOR \<Longrightarrow> disk_wf (write_sector d s b)"
  by (simp add: write_sector_def dev_write_wf)

lemma fat_write_copy_eq:
  "fat_write_copy bpb c v d n =
     write_sector d (fat_sec bpb n c) (fat_patch (read_sector d (fat_sec bpb n c) ZERO) (fat_offset_in_sector c) v)"
  by (simp add: fat_write_copy_def fat_sec_def Let_def)

lemma fat_patch_length [simp]: "length (fat_patch buf off v) = length buf"
  by (simp add: fat_patch_def Let_def)

lemma fat_write_copy_other [simp]:
  "s \<noteq> fat_sec bpb n c \<Longrightarrow> fat_write_copy bpb c v d n s = d s"
  "fat_write_copy bpb c v d n s = None \<longleftrightarrow> d s = None"
  "disk_wf d \<Longrightarrow> disk_wf (fat_write_copy bpb c v d n)"
  by (simp_all add: fat_write_copy_eq write_sector_wf)

lemma fat_write_copy_entry:
  assumes "disk_wf d" "d (fat_sec bpb n c) \<noteq> None" "n < 256" "m < 256" "fat_slot bpb c" "fat_slot bpb c'"
  shows "fat_entry (fat_write_copy bpb c v d n) bpb m c' = (if m = n \<and> c' = c then v AND FAT32_MASK else fat_entry d bpb m c')"
proof -
  let ?s = "fat_sec bpb n c" and ?o = "fat_offset_in_sector c"
  let ?buf = "read_sector d ?s ZERO" and ?d = "fat_write_copy bpb c v d n"
  obtain bs where p: "fat_patch ?buf ?o v = overlay ?buf ?o bs" "length bs = 4" "of_le bs AND FAT32_MASK = v AND FAT32_MASK"
    using fat_patch_overlay[of ?o ?buf v] fat_offset_bound[of c] assms(1) by auto
  have rd: "read_sector ?d ?s ZERO = overlay ?buf ?o bs"
    using assms(2) p(1) by (simp add: fat_write_copy_eq read_sector_def)
  show ?thesis
  proof (cases "fat_sec bpb m c' = ?s")
    case True
    note I = fat_sec_inj[OF assms(4,3,6,5) True]
    show ?thesis
    proof (cases "c' = c")
      case True
      then show ?thesis using I rd p(2,3) fat_offset_bound[of c] assms(1) by (simp add: fat_entry_def)
    next
      case False
      then have "take 4 (drop (fat_offset_in_sector c') (overlay ?buf ?o bs)) = take 4 (drop (fat_offset_in_sector c') ?buf)"
        using fat_offset_disjoint[OF I(2)] fat_offset_bound[of c] fat_offset_bound[of c'] assms(1) p(2)
        by (intro take_drop_overlay_other) auto
      then show ?thesis using False True rd by (simp add: fat_entry_def)
    qed
  next
    case False
    then have "read_sector ?d (fat_sec bpb m c') ZERO = read_sector d (fat_sec bpb m c') ZERO" by (simp add: read_sector_def)
    then show ?thesis using False by (auto simp: fat_entry_def)
  qed
qed

lemma fat_write_entry_frame:
  "disk_wf d \<Longrightarrow> disk_wf (fat_write_entry d bpb c v)" "fat_write_entry d bpb c v s = None \<longleftrightarrow> d s = None"
proof -
  have "disk_wf d \<Longrightarrow> disk_wf (foldl (fat_write_copy bpb c v) d ns)" for ns by (induction ns arbitrary: d) auto
  then show "disk_wf d \<Longrightarrow> disk_wf (fat_write_entry d bpb c v)" by (simp add: fat_write_entry_def)
  have "foldl (fat_write_copy bpb c v) d ns s = None \<longleftrightarrow> d s = None" for ns by (induction ns arbitrary: d) auto
  then show "fat_write_entry d bpb c v s = None \<longleftrightarrow> d s = None" by (simp add: fat_write_entry_def)
qed

lemma fat_write_entry_other:
  assumes "\<And>n. n < unat (fat_count bpb) \<Longrightarrow> s \<noteq> fat_sec bpb n c"
  shows "fat_write_entry d bpb c v s = d s"
proof -
  have "\<forall>n \<in> set ns. s \<noteq> fat_sec bpb n c \<Longrightarrow> foldl (fat_write_copy bpb c v) d ns s = d s" for ns
    by (induction ns arbitrary: d) simp_all
  then show ?thesis using assms by (simp add: fat_write_entry_def)
qed

lemma fat_write_entry_entry:
  assumes "disk_wf d" "\<And>n. n < unat (fat_count bpb) \<Longrightarrow> d (fat_sec bpb n c) \<noteq> None" "m < unat (fat_count bpb)"
    and "fat_slot bpb c" "fat_slot bpb c'"
  shows "fat_entry (fat_write_entry d bpb c v) bpb m c' = (if c' = c then v AND FAT32_MASK else fat_entry d bpb m c')"
proof -
  have le: "unat (fat_count bpb) < 256" using unat_u8_less[of "fat_count bpb"] by simp
  have "fat_entry (foldl (fat_write_copy bpb c v) d ns) bpb m c' =
      (if m \<in> set ns \<and> c' = c then v AND FAT32_MASK else fat_entry d bpb m c')"
    if "set ns \<subseteq> {..<unat (fat_count bpb)}" "disk_wf d" "\<forall>n \<in> set ns. d (fat_sec bpb n c) \<noteq> None" for ns d
    using that
  proof (induction ns arbitrary: d)
    case (Cons n ns)
    have "fat_entry (fat_write_copy bpb c v d n) bpb m c' = (if m = n \<and> c' = c then v AND FAT32_MASK else fat_entry d bpb m c')"
      using Cons.prems assms(3-5) le by (intro fat_write_copy_entry) auto
    then show ?case using Cons.IH[of "fat_write_copy bpb c v d n"] Cons.prems by auto
  qed simp
  from this[of "[0..<unat (fat_count bpb)]" d] show ?thesis using assms(1-3) by (simp add: fat_write_entry_def atLeast0LessThan)
qed

section \<open>Chains\<close>

text \<open>\<open>chain_path f c xs\<close>: following \<open>f\<close> from \<open>c\<close> visits \<open>xs\<close> and then leaves the clusters.\<close>

definition in_chain :: "u32 \<Rightarrow> bool" where
  "in_chain c \<longleftrightarrow> 2 \<le> c \<and> c < FAT32_EOC"

primrec chain_path :: "(u32 \<Rightarrow> u32) \<Rightarrow> u32 \<Rightarrow> u32 list \<Rightarrow> bool" where
  "chain_path f c [] \<longleftrightarrow> \<not> in_chain c"
| "chain_path f c (x # xs) \<longleftrightarrow> x = c \<and> in_chain c \<and> chain_path f (f c) xs"

lemma cluster_chain_unfold:
  "cluster_chain d bpb c =
     (if in_chain c then Option.bind (cluster_chain d bpb (fat_read_entry d bpb c)) (\<lambda>rest. Some (c # rest)) else Some [])"
proof -
  let ?n = "fat_read_entry d bpb c"
  have out: "cluster_chain d bpb x = Some []" if "\<not> in_chain x" for x
    using that unfolding in_chain_def by (subst cluster_chain.simps) (simp only: if_False)
  have eq: "cluster_chain d bpb c =
      (if in_chain c then if in_chain ?n then Option.bind (cluster_chain d bpb ?n) (\<lambda>rest. Some (c # rest)) else Some [c] else Some [])"
    by (subst cluster_chain.simps) (simp only: Let_def in_chain_def not_less[symmetric] de_Morgan_disj if_not_P not_not split: if_split, blast)
  show ?thesis
  proof (cases "in_chain ?n")
    case False
    then show ?thesis using eq out[OF False] by simp
  qed (use eq in simp)
qed

lemma chain_path_out: "\<not> in_chain c \<Longrightarrow> chain_path f c xs \<longleftrightarrow> xs = []"
  by (cases xs) auto

lemma cluster_chain_path:
  assumes "cluster_chain d bpb c = Some xs"
  shows "chain_path (fat_read_entry d bpb) c xs"
proof (rule cluster_chain.raw_induct[OF _ assms, where P = "\<lambda>d bpb c xs. chain_path (fat_read_entry d bpb) c xs"])
  fix self d bpb cur ys
  assume IH: "\<And>d bpb c xs. self d bpb c = Some xs \<Longrightarrow> chain_path (fat_read_entry d bpb) c xs"
  assume "(if 2 \<le> cur \<and> cur < FAT32_EOC
      then let next_cl = fat_read_entry d bpb cur
           in if FAT32_EOC \<le> next_cl \<or> next_cl < 2 then Some [cur] else Option.bind (self d bpb next_cl) (\<lambda>rest. Some (cur # rest))
      else Some []) = Some ys"
  then show "chain_path (fat_read_entry d bpb) cur ys"
    using IH by (auto simp: in_chain_def Let_def bind_eq_Some_conv split: if_splits)
qed

lemma cluster_chain_iff: "cluster_chain d bpb c = Some xs \<longleftrightarrow> chain_path (fat_read_entry d bpb) c xs"
proof
  assume "chain_path (fat_read_entry d bpb) c xs"
  then show "cluster_chain d bpb c = Some xs"
  proof (induction xs arbitrary: c)
    case Nil
    then show ?case by (subst cluster_chain_unfold) simp
  next
    case (Cons x xs)
    then show ?case by (subst cluster_chain_unfold) simp
  qed
qed (rule cluster_chain_path)

lemma chain_path_unique: "chain_path f c xs \<Longrightarrow> chain_path f c ys \<Longrightarrow> xs = ys"
proof (induction xs arbitrary: c ys)
  case (Cons x xs)
  then show ?case by (cases ys) auto
qed (simp add: chain_path_out)

lemma chain_path_append: "chain_path f c (xs @ ys) \<Longrightarrow> \<exists>b. chain_path f b ys"
  by (induction xs arbitrary: c) auto

lemma chain_path_distinct: "chain_path f c xs \<Longrightarrow> distinct xs"
proof (induction xs arbitrary: c)
  case (Cons x xs)
  have "x \<notin> set xs"
  proof
    assume "x \<in> set xs"
    then obtain as bs where xs: "xs = as @ x # bs" by (meson split_list)
    then obtain b where b: "chain_path f b (x # bs)" using Cons.prems chain_path_append[of f "f c" as "x # bs"] by auto
    then have "chain_path f x (x # bs)" "chain_path f x (x # xs)" using Cons.prems by simp_all
    then have "x # bs = x # xs" by (rule chain_path_unique)
    then show False using xs by simp
  qed
  then show ?case using Cons by auto
qed simp

lemma chain_path_funpow:
  "chain_path f c xs \<longleftrightarrow>
     xs = map (\<lambda>n. (f ^^ n) c) [0..<length xs] \<and> (\<forall>n < length xs. in_chain ((f ^^ n) c)) \<and> \<not> in_chain ((f ^^ length xs) c)"
proof (induction xs arbitrary: c)
  case (Cons x xs)
  have "map (\<lambda>n. (f ^^ n) c) [0..<Suc (length xs)] = c # map (\<lambda>n. (f ^^ n) (f c)) [0..<length xs]"
    by (rule nth_equalityI) (auto simp: nth_Cons' funpow_Suc_right gr0_conv_Suc simp del: upt_Suc funpow.simps(2))
  moreover have "(\<forall>n < Suc (length xs). in_chain ((f ^^ n) c)) \<longleftrightarrow> in_chain c \<and> (\<forall>n < length xs. in_chain ((f ^^ n) (f c)))"
    by (simp add: All_less_Suc2 funpow_Suc_right del: funpow.simps(2))
  moreover have "(f ^^ Suc (length xs)) c = (f ^^ length xs) (f c)" by (simp add: funpow_Suc_right del: funpow.simps(2))
  ultimately show ?case using Cons.IH[of "f c"] by (simp del: upt_Suc funpow.simps(2)) blast
qed simp

lemma chain_path_exists: "(\<exists>xs. chain_path f c xs) \<longleftrightarrow> (\<exists>n. \<not> in_chain ((f ^^ n) c))"
proof
  assume "\<exists>n. \<not> in_chain ((f ^^ n) c)"
  then obtain n where n: "\<not> in_chain ((f ^^ n) c)" "\<forall>m < n. in_chain ((f ^^ m) c)"
    using exists_least_iff[of "\<lambda>n. \<not> in_chain ((f ^^ n) c)"] by auto
  then show "\<exists>xs. chain_path f c xs"
    by (intro exI[of _ "map (\<lambda>n. (f ^^ n) c) [0..<n]"]) (simp add: chain_path_funpow)
qed (auto simp: chain_path_funpow)

lemma chain_path_cong: "chain_path f c xs \<Longrightarrow> (\<And>x. x \<in> set xs \<Longrightarrow> g x = f x) \<Longrightarrow> chain_path g c xs"
  by (induction xs arbitrary: c) auto

text \<open>Appending a fresh cluster to a chain: the last entry points to it and its own entry ends it.\<close>

lemma chain_path_snoc:
  assumes "chain_path f c xs" "xs \<noteq> []" "y \<notin> set xs" "in_chain y" "g (last xs) = y" "\<not> in_chain (g y)"
    and "\<And>x. x \<in> set (butlast xs) \<Longrightarrow> g x = f x"
  shows "chain_path g c (xs @ [y])"
  using assms
proof (induction xs arbitrary: c)
  case (Cons x xs)
  show ?case
  proof (cases "xs = []")
    case False
    have "chain_path g (f c) (xs @ [y])" using Cons.prems False by (intro Cons.IH) auto
    then show ?thesis using Cons.prems False by auto
  qed (use Cons.prems in auto)
qed simp

section \<open>Geometry\<close>

lemma unat_data_start: "unat (data_start_sector bpb) = unat (reserved_sectors bpb) + unat (fat_count bpb) * unat (sectors_per_fat bpb)"
proof -
  have b: "unat (reserved_sectors bpb) < 65536" "unat (sectors_per_fat bpb) < 4294967296" "unat (fat_count bpb) \<le> 255"
    using unat_u8_less[of "fat_count bpb"] unat_u16_less[of "reserved_sectors bpb"] unat_u32_less[of "sectors_per_fat bpb"] by simp_all
  have m: "unat (fat_count bpb) * unat (sectors_per_fat bpb) \<le> 255 * 4294967295" using b(2,3) by (intro mult_le_mono) simp_all
  have "unat (ucast (fat_count bpb) * ucast (sectors_per_fat bpb) :: u64) = unat (fat_count bpb) * unat (sectors_per_fat bpb)"
    using b m by (simp add: unat_word_ariths unsigned_ucast_eq take_bit_nat_eq_self)
  moreover have "unat (ucast (reserved_sectors bpb) :: u64) = unat (reserved_sectors bpb)"
    using b(1) by (simp add: unsigned_ucast_eq take_bit_nat_eq_self)
  ultimately show ?thesis unfolding data_start_sector_def unat_word_ariths(1) using b(1) m by (simp del: of_nat_mult)
qed

lemma unat_cluster_sector:
  assumes "2 \<le> c" "s < 256"
  shows "unat (cluster_to_sector bpb c + of_nat s) = unat (data_start_sector bpb) + (unat c - 2) * unat (sectors_per_cluster bpb) + s"
proof -
  have b: "unat (sectors_per_cluster bpb) \<le> 255" "unat c < 4294967296" "unat (data_start_sector bpb) \<le> 65535 + 255 * 4294967295"
    using unat_u32_less[of c] unat_u16_less[of "reserved_sectors bpb"] unat_u8_less[of "sectors_per_cluster bpb"]
      mult_le_mono[of "unat (fat_count bpb)" 255 "unat (sectors_per_fat bpb)" 4294967295]
      unat_u8_less[of "fat_count bpb"] unat_u32_less[of "sectors_per_fat bpb"] by (simp_all add: unat_data_start)
  have c2: "2 \<le> unat c" using assms(1) by (simp add: word_le_nat_alt)
  have u: "unat (ucast c - 2 :: u64) = unat c - 2"
    using c2 b(2) by (simp add: unat_sub_if' unsigned_ucast_eq take_bit_nat_eq_self)
  have m: "(unat c - 2) * unat (sectors_per_cluster bpb) \<le> 4294967295 * 255" using b(1,2) by (intro mult_le_mono) simp_all
  have "unat ((ucast c - 2) * ucast (sectors_per_cluster bpb) :: u64) = (unat c - 2) * unat (sectors_per_cluster bpb)"
    unfolding unat_word_ariths(2) u using m b(1) by (simp add: unsigned_ucast_eq take_bit_nat_eq_self)
  then show ?thesis
    unfolding cluster_to_sector_def unat_word_ariths(1) using m b(3) assms(2) by (simp add: unat_of_nat)
qed

lemma cluster_sector_inj:
  assumes "2 \<le> c" "2 \<le> c'" "s < unat (sectors_per_cluster bpb)" "s' < unat (sectors_per_cluster bpb)"
    and "cluster_to_sector bpb c + of_nat s = cluster_to_sector bpb c' + of_nat s'"
  shows "c = c' \<and> s = s'"
proof -
  let ?p = "unat (sectors_per_cluster bpb)"
  have l: "s < 256" "s' < 256" using assms(3,4) unat_u8_less[of "sectors_per_cluster bpb"] by simp_all
  have eq: "s + (unat c - 2) * ?p = s' + (unat c' - 2) * ?p"
    using unat_cluster_sector[OF assms(1) l(1), of bpb] unat_cluster_sector[OF assms(2) l(2), of bpb] assms(5) by simp
  have "(s + (unat c - 2) * ?p) div ?p = unat c - 2" "(s' + (unat c' - 2) * ?p) div ?p = unat c' - 2" using assms(3,4) by simp_all
  then have "unat c - 2 = unat c' - 2" using eq by simp
  moreover have "2 \<le> unat c" "2 \<le> unat c'" using assms(1,2) by (simp_all add: word_le_nat_alt)
  ultimately have "unat c = unat c'" by linarith
  then show ?thesis using eq by (simp add: word_unat_eq_iff)
qed

lemma cluster_sectors_distinct: "2 \<le> c \<Longrightarrow> distinct (cluster_sectors bpb c)"
  using cluster_sector_inj[of c c] by (fastforce simp: cluster_sectors_def distinct_map inj_on_def)

lemma cluster_sectors_disjoint: "2 \<le> c \<Longrightarrow> 2 \<le> c' \<Longrightarrow> c \<noteq> c' \<Longrightarrow> set (cluster_sectors bpb c) \<inter> set (cluster_sectors bpb c') = {}"
  using cluster_sector_inj[of c c'] by (fastforce simp: cluster_sectors_def)

lemma fat_sec_not_data:
  assumes "n < unat (fat_count bpb)" "fat_slot bpb c" "2 \<le> c'" "s \<in> set (cluster_sectors bpb c')"
  shows "s \<noteq> fat_sec bpb n c"
proof -
  have n: "n < 256" using assms(1) unat_u8_less[of "fat_count bpb"] by simp
  have "Suc n * unat (sectors_per_fat bpb) \<le> unat (fat_count bpb) * unat (sectors_per_fat bpb)"
    using assms(1) by (intro mult_le_mono1) simp
  then have "unat (fat_sec bpb n c) < unat (data_start_sector bpb)"
    using unat_fat_sec[OF n assms(2)] assms(2) by (simp add: unat_data_start fat_slot_def)
  moreover have "unat (data_start_sector bpb) \<le> unat s"
    using assms(3,4) unat_cluster_sector[OF assms(3)] unat_u8_less[of "sectors_per_cluster bpb"] by (auto simp: cluster_sectors_def)
  ultimately show ?thesis by auto
qed

text \<open>A volume with \<open>m\<close> as the end of its cluster numbers: the tables cover every cluster, and the sectors of
  the tables and of the clusters are on the device.\<close>

definition fat_ok :: "disk \<Rightarrow> Bpb \<Rightarrow> u32 \<Rightarrow> bool" where
  "fat_ok d bpb m \<longleftrightarrow> disk_wf d \<and> fat_max_cluster bpb = Some m \<and> m \<le> FAT32_EOC \<and> 0 < fat_count bpb \<and>
     (\<forall>c < m. fat_slot bpb c \<and> (\<forall>n < unat (fat_count bpb). d (fat_sec bpb n c) \<noteq> None)) \<and>
     (\<forall>c. 2 \<le> c \<and> c < m \<longrightarrow> (\<forall>s \<in> set (cluster_sectors bpb c). d s \<noteq> None))"

lemma fat_ok_cong: "fat_ok d bpb m \<Longrightarrow> disk_wf d' \<Longrightarrow> (\<And>s. d' s = None \<longleftrightarrow> d s = None) \<Longrightarrow> fat_ok d' bpb m"
  by (simp add: fat_ok_def)

lemma fat_write_ok:
  assumes "fat_ok d bpb m" "c < m"
  shows "fat_ok (fat_write_entry d bpb c v) bpb m"
    and "n < unat (fat_count bpb) \<Longrightarrow> c' < m \<Longrightarrow>
      fat_entry (fat_write_entry d bpb c v) bpb n c' = (if c' = c then v AND FAT32_MASK else fat_entry d bpb n c')"
    and "2 \<le> c' \<Longrightarrow> s \<in> set (cluster_sectors bpb c') \<Longrightarrow> fat_write_entry d bpb c v s = d s"
proof -
  show "fat_ok (fat_write_entry d bpb c v) bpb m"
    using assms(1) by (intro fat_ok_cong[OF assms(1)] fat_write_entry_frame) (simp add: fat_ok_def)
  show "n < unat (fat_count bpb) \<Longrightarrow> c' < m \<Longrightarrow>
      fat_entry (fat_write_entry d bpb c v) bpb n c' = (if c' = c then v AND FAT32_MASK else fat_entry d bpb n c')"
    using assms by (intro fat_write_entry_entry) (auto simp: fat_ok_def)
  show "2 \<le> c' \<Longrightarrow> s \<in> set (cluster_sectors bpb c') \<Longrightarrow> fat_write_entry d bpb c v s = d s"
    using assms fat_sec_not_data[of _ bpb c c' s] by (intro fat_write_entry_other) (auto simp: fat_ok_def)
qed

lemma fat_read_write:
  assumes "fat_ok d bpb m" "c < m" "c' < m"
  shows "fat_read_entry (fat_write_entry d bpb c v) bpb c' = (if c' = c then v AND FAT32_MASK else fat_read_entry d bpb c')"
proof -
  have "0 < unat (fat_count bpb)" using assms(1) by (simp add: fat_ok_def unat_gt_0 word_gt_0)
  then show ?thesis using fat_write_ok(2)[OF assms(1,2) _ assms(3)] by (simp add: fat_read_entry_copy)
qed

section \<open>Allocation\<close>

lemma fat_find_free_Some:
  assumes "fat_find_free d bpb [a..<b] = Some c" "b \<le> 2 ^ 32"
  shows "a \<le> unat c \<and> unat c < b \<and> fat_read_entry d bpb c = 0 \<and>
    (\<forall>c'. a \<le> unat c' \<and> c' < c \<longrightarrow> fat_read_entry d bpb c' \<noteq> 0)"
  using assms
proof (induction "b - a" arbitrary: a)
  case (Suc n)
  have ab: "a < b" "[a..<b] = a # [Suc a..<b]" using Suc.hyps(2) by (simp_all add: upt_conv_Cons)
  have u: "unat (of_nat a :: u32) = a" using ab(1) Suc.prems(2) by (simp add: unat_of_nat_less)
  show ?case
  proof (cases "fat_read_entry d bpb (of_nat a) = 0")
    case True
    then show ?thesis using Suc.prems(1) ab u by (auto simp: word_less_nat_alt)
  next
    case False
    have eq: "x = of_nat a" if "unat x = a" for x :: u32 using that u by (simp add: word_unat_eq_iff)
    have "Suc a \<le> unat c \<and> unat c < b \<and> fat_read_entry d bpb c = 0 \<and>
        (\<forall>c'. Suc a \<le> unat c' \<and> c' < c \<longrightarrow> fat_read_entry d bpb c' \<noteq> 0)"
      using Suc.hyps(1)[of "Suc a"] Suc.hyps(2) Suc.prems ab(2) False by simp
    then show ?thesis using False eq by (metis Suc_leD Suc_leI le_neq_implies_less)
  qed
qed simp

lemma fat_find_free_None:
  assumes "fat_find_free d bpb [a..<b] = None" "a \<le> unat c" "unat c < b"
  shows "fat_read_entry d bpb c \<noteq> 0"
proof -
  have "fat_find_free d bpb cs = None \<Longrightarrow> k \<in> set cs \<Longrightarrow> fat_read_entry d bpb (of_nat k) \<noteq> 0" for cs k
    by (induction cs) (auto split: if_splits)
  from this[OF assms(1), of "unat c"] show ?thesis using assms(2,3) by simp
qed

lemma fat_alloc_cases:
  assumes "fat_ok d bpb m"
  obtains "fat_alloc_cluster d bpb = Some (None, d)" "\<And>c. 2 \<le> c \<Longrightarrow> c < m \<Longrightarrow> fat_read_entry d bpb c \<noteq> 0"
  | c where "fat_alloc_cluster d bpb = Some (Some c, fat_write_entry d bpb c FAT32_EOC)" "2 \<le> c" "c < m"
    "fat_read_entry d bpb c = 0" "\<And>c'. 2 \<le> c' \<Longrightarrow> c' < c \<Longrightarrow> fat_read_entry d bpb c' \<noteq> 0"
proof (cases "fat_find_free d bpb [2..<unat m]")
  case None
  then show thesis
    using assms fat_find_free_None[OF None] that(1) by (auto simp: fat_alloc_cluster_def fat_ok_def word_le_nat_alt word_less_nat_alt)
next
  case (Some c)
  have "unat m \<le> 2 ^ 32" using unat_u32_less[of m] by simp
  from fat_find_free_Some[OF Some this] show thesis
    using assms Some that(2)[of c] by (auto simp: fat_alloc_cluster_def fat_ok_def word_le_nat_alt word_less_nat_alt)
qed

lemma EOC_mask: "FAT32_EOC AND FAT32_MASK = FAT32_EOC" and EOC_out: "\<not> in_chain FAT32_EOC" and zero_out: "\<not> in_chain 0"
  by (simp_all add: in_chain_def)

text \<open>Marking a free cluster as the end of a chain changes no chain.\<close>

lemma fat_mark_chain:
  assumes "fat_ok d bpb m" "c < m" "fat_read_entry d bpb c = 0" "chain_path (fat_read_entry d bpb) x xs" "set xs \<subseteq> {..<m}"
  shows "chain_path (fat_read_entry (fat_write_entry d bpb c FAT32_EOC) bpb) x xs"
  using assms(4,5)
proof (induction xs arbitrary: x)
  case (Cons y ys)
  have rd: "fat_read_entry (fat_write_entry d bpb c FAT32_EOC) bpb x = (if x = c then FAT32_EOC else fat_read_entry d bpb x)"
    using fat_read_write[OF assms(1,2), of x FAT32_EOC] Cons.prems by (simp only: EOC_mask chain_path.simps) auto
  show ?case
  proof (cases "x = c")
    case True
    then have "ys = []" using Cons.prems assms(3) zero_out by (simp add: chain_path_out)
    then show ?thesis using Cons.prems True rd EOC_out by simp
  next
    case False
    then show ?thesis using Cons rd by simp
  qed
qed simp

section \<open>Properties\<close>

text \<open>C24: Following a cluster chain returns if and only if the chain reaches an end mark after finitely many
  steps. The result then lists exactly the clusters on the way, in order and without repetition;
  on a table with a cycle the driver never returns.\<close>

theorem fat_chain_terminates:
  "((\<exists>xs. cluster_chain d bpb c = Some xs) \<longleftrightarrow> (\<exists>n. \<not> in_chain ((fat_read_entry d bpb ^^ n) c))) \<and>
   (\<forall>xs. cluster_chain d bpb c = Some xs \<longrightarrow>
      distinct xs \<and> xs = map (\<lambda>n. (fat_read_entry d bpb ^^ n) c) [0..<length xs] \<and>
      (\<forall>x \<in> set xs. in_chain x) \<and> \<not> in_chain ((fat_read_entry d bpb ^^ length xs) c))"
proof -
  have "\<forall>x \<in> set xs. in_chain x" if "chain_path f c xs" for f xs
    using that by (induction xs arbitrary: c) auto
  moreover have "xs = map (\<lambda>n. (f ^^ n) c) [0..<length xs] \<and> \<not> in_chain ((f ^^ length xs) c)" if "chain_path f c xs" for f xs
    using that chain_path_funpow[of f c xs] by blast
  ultimately show ?thesis
    using chain_path_exists[of "fat_read_entry d bpb" c] chain_path_distinct[of "fat_read_entry d bpb" c]
    unfolding cluster_chain_iff by blast
qed

text \<open>C23: On a well-formed volume cluster allocation never panics. It hands out the lowest free cluster
  and marks it as the end of a chain in every copy of the table, changes no other entry and no
  data sector, and leaves every existing chain as it was; it reports a full volume only when
  every cluster is in use.\<close>

theorem fat_alloc_sound:
  assumes "fat_ok d bpb m"
  shows "\<exists>r d'. fat_alloc_cluster d bpb = Some (r, d') \<and> fat_ok d' bpb m \<and>
    (case r of
       None \<Rightarrow> d' = d \<and> (\<forall>c. 2 \<le> c \<and> c < m \<longrightarrow> fat_read_entry d bpb c \<noteq> FAT32_FREE)
     | Some c \<Rightarrow>
         2 \<le> c \<and> c < m \<and> fat_read_entry d bpb c = FAT32_FREE \<and>
         (\<forall>c'. 2 \<le> c' \<and> c' < c \<longrightarrow> fat_read_entry d bpb c' \<noteq> FAT32_FREE) \<and>
         (\<forall>n < unat (fat_count bpb). \<forall>c' < m.
            fat_entry d' bpb n c' = (if c' = c then FAT32_EOC else fat_entry d bpb n c')) \<and>
         (\<forall>c' s. 2 \<le> c' \<and> s \<in> set (cluster_sectors bpb c') \<longrightarrow> d' s = d s) \<and>
         (\<forall>x xs. cluster_chain d bpb x = Some xs \<and> set xs \<subseteq> {..<m} \<longrightarrow> cluster_chain d' bpb x = Some xs))"
proof (rule fat_alloc_cases[OF assms])
  assume "fat_alloc_cluster d bpb = Some (None, d)" "\<And>c. 2 \<le> c \<Longrightarrow> c < m \<Longrightarrow> fat_read_entry d bpb c \<noteq> 0"
  then show ?thesis using assms by simp
next
  fix c
  assume a: "fat_alloc_cluster d bpb = Some (Some c, fat_write_entry d bpb c FAT32_EOC)" "2 \<le> c" "c < m"
    "fat_read_entry d bpb c = 0" "\<And>c'. 2 \<le> c' \<Longrightarrow> c' < c \<Longrightarrow> fat_read_entry d bpb c' \<noteq> 0"
  note W = fat_write_ok[OF assms a(3), where v = FAT32_EOC, unfolded EOC_mask]
  note C = fat_mark_chain[OF assms a(3,4)]
  show ?thesis
    using a W C unfolding cluster_chain_iff
    by (intro exI[of _ "Some c"] exI[of _ "fat_write_entry d bpb c FAT32_EOC"]) (simp del: not_less not_le, blast)
qed

section \<open>A small volume\<close>

text \<open>One sector per cluster, two copies of a one-sector table, clusters 2 to 11; the root
  directory is cluster 2, and the other clusters are free.\<close>

definition demo_bpb :: Bpb where
  "demo_bpb = \<lparr> bytes_per_sector = 512, sectors_per_cluster = 1, reserved_sectors = 1, fat_count = 2,
     total_sectors = 13, sectors_per_fat = 1, root_cluster = 2 \<rparr>"

definition demo_fat_sector :: bytes where
  "demo_fat_sector = to_le 4 FAT32_EOC @ to_le 4 FAT32_MASK @ to_le 4 FAT32_MASK @ replicate 500 0"

definition demo_fat :: disk where
  "demo_fat s = (if s = 1 \<or> s = 2 then Some demo_fat_sector else Some ZERO)"

lemma demo_bpb_facts:
  "sectors_per_cluster demo_bpb = 1" "reserved_sectors demo_bpb = 1" "fat_count demo_bpb = 2" "sectors_per_fat demo_bpb = 1"
  "fat_max_cluster demo_bpb = Some 12" "root_cluster demo_bpb = 2"
  by (simp_all add: demo_bpb_def fat_max_cluster_def data_start_sector_def wdiv_def)

lemma demo_cluster_cases: "c < (12 :: u32) \<Longrightarrow> unat c < 12"
  by (simp add: word_less_nat_alt)

lemma demo_fat_ok: "fat_ok demo_fat demo_bpb 12"
proof -
  have "fat_slot demo_bpb c" if "c < 12" for c
    using demo_cluster_cases[OF that] by (simp add: fat_slot_def demo_bpb_facts)
  moreover have "disk_wf demo_fat" by (auto simp: disk_wf_def demo_fat_def demo_fat_sector_def)
  moreover have "demo_fat s \<noteq> None" for s by (simp add: demo_fat_def)
  ultimately show ?thesis by (simp add: fat_ok_def demo_bpb_facts)
qed

lemma demo_fat_read:
  assumes "unat c < 12"
  shows "fat_read_entry demo_fat demo_bpb c = (if unat c = 0 then FAT32_EOC else if unat c \<le> 2 then FAT32_MASK else 0)"
proof -
  have o: "fat_offset_in_sector c = unat c * 4" "fat_slot demo_bpb c"
    using assms by (simp_all add: fat_offset_in_sector_def fat_slot_def demo_bpb_facts)
  have "unat (fat_sec demo_bpb 0 c) = 1" using unat_fat_sec[OF _ o(2), of 0] assms by (simp add: demo_bpb_facts)
  then have s: "fat_sec demo_bpb 0 c = 1" by (metis unsigned_1 word_unat_eq_iff)
  have v: "unat c = 0 \<or> unat c = 1 \<or> unat c = 2 \<or> 3 \<le> unat c" by linarith
  have big: "take 4 (drop (unat c * 4) demo_fat_sector) = replicate 4 0" if "3 \<le> unat c"
  proof -
    have "drop (unat c * 4) demo_fat_sector = drop (unat c * 4 - 12) (replicate 500 0)"
      using that by (simp add: demo_fat_sector_def)
    then show ?thesis using assms by (simp add: min_def)
  qed
  have z: "of_le (replicate 4 0) = (0 :: u32)" by (simp add: numeral_eq_Suc)
  show ?thesis
    using v big z unfolding fat_read_entry_copy fat_entry_def o(1) s
    by (auto simp: read_sector_def demo_fat_def demo_fat_sector_def)
qed

theorem fat_chain_terminates_witness:
  "cluster_chain demo_fat demo_bpb 2 = Some [2] \<and> distinct [2 :: u32] \<and> (\<exists>n. \<not> in_chain ((fat_read_entry demo_fat demo_bpb ^^ n) 2))"
proof -
  have "fat_read_entry demo_fat demo_bpb 2 = FAT32_MASK" using demo_fat_read[of 2] by simp
  then have "cluster_chain demo_fat demo_bpb 2 = Some [2]" by (simp add: cluster_chain_iff in_chain_def)
  then show ?thesis using fat_chain_terminates[of demo_fat demo_bpb 2] by blast
qed

theorem fat_alloc_sound_witness:
  "\<exists>d'. fat_alloc_cluster demo_fat demo_bpb = Some (Some 3, d') \<and> fat_ok d' demo_bpb 12 \<and> cluster_chain d' demo_bpb 2 = Some [2]"
proof -
  have r: "fat_read_entry demo_fat demo_bpb 2 = FAT32_MASK" "fat_read_entry demo_fat demo_bpb 3 = 0"
    using demo_fat_read[of 2] demo_fat_read[of 3] by simp_all
  have ff: "fat_find_free demo_fat demo_bpb [2..<12] = Some 3" using r by (simp add: upt_conv_Cons)
  then obtain d' where a: "fat_alloc_cluster demo_fat demo_bpb = Some (Some 3, d')"
    by (simp add: fat_alloc_cluster_def demo_bpb_facts)
  have c: "cluster_chain demo_fat demo_bpb 2 = Some [2]" using r(1) by (simp add: cluster_chain_iff in_chain_def)
  show ?thesis using fat_alloc_sound[OF demo_fat_ok] a c by (auto simp: word_less_nat_alt)
qed

end
