(* ===== verification/Fat_Dir.thy ===== *)
theory Fat_Dir
  imports Fat_Table Vfs
begin

text \<open>
  fs/src/fat32/mod.rs, second part: directory entries with short and long names, free slots,
  and the creation, lookup and removal of entries. An outer \<open>None\<close> is a panic or a loop that
  does not end.
\<close>

abbreviation DIR_ENTRY_SIZE :: nat where "DIR_ENTRY_SIZE \<equiv> 32"
abbreviation ATTR_VOLUME_ID :: u8 where "ATTR_VOLUME_ID \<equiv> 0x08"
abbreviation ATTR_DIRECTORY :: u8 where "ATTR_DIRECTORY \<equiv> 0x10"
abbreviation ATTR_ARCHIVE :: u8 where "ATTR_ARCHIVE \<equiv> 0x20"
abbreviation ATTR_LFN :: u8 where "ATTR_LFN \<equiv> 0x0F"

section \<open>Time stamps\<close>

definition fat32_timestamp :: "u64 \<Rightarrow> u16 \<times> u16" where
  "fat32_timestamp ticks =
     (let secs = ticks div 625;
          hours = (secs div 3600) mod 24;
          minutes = (secs div 60) mod 60;
          two_secs = (secs mod 60) div 2
      in (ucast (push_bit 11 hours OR push_bit 5 minutes OR two_secs), push_bit 5 1 OR 1))"

section \<open>Names\<close>

record DirEntry =
  de_name :: str
  de_attr :: u8
  de_first_cluster :: u32
  de_size :: u32
  entry_sector :: u64
  entry_offset :: nat
  lfn_start_sector :: u64
  lfn_start_offset :: nat

definition de_is_dir :: "DirEntry \<Rightarrow> bool" where
  "de_is_dir e \<longleftrightarrow> de_attr e AND ATTR_DIRECTORY \<noteq> 0"

definition LFN_OFFSETS :: "nat list" where
  "LFN_OFFSETS = [1, 3, 5, 7, 9, 14, 16, 18, 20, 22, 24, 28, 30]"

definition read_lfn_chars :: "bytes \<Rightarrow> u16 list" where
  "read_lfn_chars raw = map (\<lambda>off. of_le (take 2 (drop off raw))) LFN_OFFSETS"

definition trim_end :: "str \<Rightarrow> str" where
  "trim_end s = rev (dropWhile (\<lambda>c. c = 32) (rev s))"

definition utf8_or_empty :: "bytes \<Rightarrow> str" where
  "utf8_or_empty bs = (if utf8_ok bs then bs else [])"

definition parse_sfn :: "bytes \<Rightarrow> str" where
  "parse_sfn raw =
     (let name = trim_end (utf8_or_empty (take 8 raw));
          ext = trim_end (utf8_or_empty (take 3 (drop 8 raw)))
      in if ext = [] then name else name @ [46] @ ext)"

definition ascii_upper :: "u8 \<Rightarrow> u8" where
  "ascii_upper b = (if 97 \<le> b \<and> b \<le> 122 then b - 32 else b)"

definition ascii_lower :: "u8 \<Rightarrow> u8" where
  "ascii_lower b = (if 65 \<le> b \<and> b \<le> 90 then b + 32 else b)"

definition eq_ignore_ascii_case :: "str \<Rightarrow> str \<Rightarrow> bool" where
  "eq_ignore_ascii_case a b \<longleftrightarrow> map ascii_lower a = map ascii_lower b"

text \<open>\<open>name.rfind('.')\<close>: the parts before and after the last dot.\<close>

definition split_last_dot :: "str \<Rightarrow> str \<times> str" where
  "split_last_dot name =
     (if 46 \<in> set name
      then (rev (tl (dropWhile (\<lambda>c. c \<noteq> 46) (rev name))), rev (takeWhile (\<lambda>c. c \<noteq> 46) (rev name)))
      else (name, []))"

definition sfn_invalid :: "u8 \<Rightarrow> bool" where
  "sfn_invalid c \<longleftrightarrow> c \<in> {32, 46, 34, 42, 43, 44, 47, 58, 59, 60, 61, 62, 63, 91, 92, 93, 124}"

definition build_sfn :: "str \<Rightarrow> bytes option" where
  "build_sfn name =
     (let (base, ext) = split_last_dot name
      in if base = [] \<or> 8 < length base \<or> 3 < length ext then None
         else if list_ex sfn_invalid base \<or> list_ex sfn_invalid ext then None
         else Some (overlay (overlay (replicate 11 32) 0 (map ascii_upper base)) 8 (map ascii_upper ext)))"

definition sfn_checksum :: "bytes \<Rightarrow> u8" where
  "sfn_checksum sfn = foldl (\<lambda>sum b. drop_bit 1 sum + push_bit 7 sum + b) 0 sfn"

text \<open>\<open>char::from_u32\<close> refuses surrogates; a character of at most 16 bits is one to three bytes of
  UTF-8.\<close>

definition char_of_u16 :: "u16 \<Rightarrow> bytes" where
  "char_of_u16 c =
     (if 0xD800 \<le> c \<and> c \<le> 0xDFFF then []
      else if c < 0x80 then [ucast c]
      else if c < 0x800 then [0xC0 OR ucast (drop_bit 6 c), 0x80 OR (ucast c AND 0x3F)]
      else [0xE0 OR ucast (drop_bit 12 c), 0x80 OR (ucast (drop_bit 6 c) AND 0x3F), 0x80 OR (ucast c AND 0x3F)])"

definition lfn_name :: "u16 list \<Rightarrow> str" where
  "lfn_name lfn_buf = concat (map char_of_u16 (takeWhile (\<lambda>c. c \<noteq> 0) lfn_buf))"

text \<open>\<open>str::encode_utf16\<close> on the UTF-8 bytes of a string.\<close>

function encode_utf16 :: "str \<Rightarrow> u16 list" where
  "encode_utf16 s =
     (case s of
        [] \<Rightarrow> []
      | b0 # r \<Rightarrow>
          if b0 < 0x80 then ucast b0 # encode_utf16 r
          else if b0 < 0xE0 then
            (case r of b1 # r \<Rightarrow> (push_bit 6 (ucast b0 AND 0x1F) OR (ucast b1 AND 0x3F)) # encode_utf16 r | _ \<Rightarrow> [])
          else if b0 < 0xF0 then
            (case r of
               b1 # b2 # r \<Rightarrow>
                 (push_bit 12 (ucast b0 AND 0x0F) OR push_bit 6 (ucast b1 AND 0x3F) OR (ucast b2 AND 0x3F)) # encode_utf16 r
             | _ \<Rightarrow> [])
          else
            (case r of
               b1 # b2 # b3 # r \<Rightarrow>
                 (let c = (push_bit 18 (ucast b0 AND 0x07) OR push_bit 12 (ucast b1 AND 0x3F)
                             OR push_bit 6 (ucast b2 AND 0x3F) OR (ucast b3 AND 0x3F)) - (0x10000 :: u32)
                  in (0xD800 OR ucast (drop_bit 10 c)) # (0xDC00 OR (ucast c AND 0x3FF)) # encode_utf16 r)
             | _ \<Rightarrow> []))"
  by pat_completeness auto
termination
  by (relation "measure length") (auto split: list.splits)

declare encode_utf16.simps [simp del]

section \<open>Reading a directory\<close>

text \<open>A slot is a sector, an offset in it and the 32 bytes there. The three nested loops over clusters,
  sectors and slots visit \<open>dir_slots\<close> in order.\<close>

type_synonym slot = "u64 \<times> nat \<times> bytes"

definition sector_slots :: "disk \<Rightarrow> u64 \<Rightarrow> slot list" where
  "sector_slots d sector =
     (let buf = read_sector d sector ZERO
      in map (\<lambda>entry_idx. (sector, entry_idx * DIR_ENTRY_SIZE, take 32 (drop (entry_idx * DIR_ENTRY_SIZE) buf)))
           [0..<SECTOR div DIR_ENTRY_SIZE])"

definition dir_slots :: "disk \<Rightarrow> Bpb \<Rightarrow> u32 list \<Rightarrow> slot list" where
  "dir_slots d bpb chain = concat (map (sector_slots d) (concat (map (cluster_sectors bpb) chain)))"

definition first_cluster_of :: "bytes \<Rightarrow> u32" where
  "first_cluster_of raw =
     push_bit 16 (ucast (of_le (take 2 (drop 20 raw)) :: u16)) OR ucast (of_le (take 2 (drop 26 raw)) :: u16)"

fun scan_dir :: "slot list \<Rightarrow> u16 list \<Rightarrow> (u64 \<times> nat) option \<Rightarrow> DirEntry list" where
  "scan_dir [] lfn_buf lfn_start = []"
| "scan_dir ((sector, offset, raw) # rest) lfn_buf lfn_start =
     (if raw ! 0 = 0x00 then []
      else if raw ! 0 = 0xE5 then scan_dir rest [] None
      else if raw ! 11 = ATTR_LFN then
        (let is_last = (raw ! 0 AND 0x40 \<noteq> 0);
             lfn_buf = (if is_last then [] else lfn_buf);
             lfn_start = (if is_last then Some (sector, offset) else lfn_start);
             chunk = takeWhile (\<lambda>c. c \<noteq> 0) (read_lfn_chars raw)
         in scan_dir rest (chunk @ lfn_buf) lfn_start)
      else if raw ! 11 AND ATTR_VOLUME_ID \<noteq> 0 \<and> raw ! 11 AND ATTR_DIRECTORY = 0 then scan_dir rest [] None
      else
        (let name = (if lfn_buf \<noteq> [] then lfn_name lfn_buf else parse_sfn (take 11 raw))
         in if name = [46] \<or> name = [46, 46] then scan_dir rest [] None
            else
              (let (ls, lo) = (case lfn_start of Some p \<Rightarrow> p | None \<Rightarrow> (sector, offset))
               in \<lparr> de_name = name, de_attr = raw ! 11, de_first_cluster = first_cluster_of raw,
                    de_size = of_le (take 4 (drop 28 raw)), entry_sector = sector, entry_offset = offset,
                    lfn_start_sector = ls, lfn_start_offset = lo \<rparr> # scan_dir rest [] None)))"

definition read_dir_entries :: "disk \<Rightarrow> Bpb \<Rightarrow> u32 \<Rightarrow> DirEntry list option" where
  "read_dir_entries d bpb first_cluster =
     do { chain \<leftarrow> cluster_chain d bpb first_cluster; Some (scan_dir (dir_slots d bpb chain) [] None) }"

definition find_entry_in_dir :: "disk \<Rightarrow> Bpb \<Rightarrow> u32 \<Rightarrow> str \<Rightarrow> DirEntry option option" where
  "find_entry_in_dir d bpb dir_cluster name =
     do { es \<leftarrow> read_dir_entries d bpb dir_cluster; Some (find (\<lambda>e. eq_ignore_ascii_case (de_name e) name) es) }"

section \<open>Creating an entry\<close>

text \<open>The first of \<open>needed\<close> consecutive free slots; \<open>cur\<close> is the run found so far, its start and length.\<close>

fun free_run :: "slot list \<Rightarrow> nat \<Rightarrow> u64 \<times> nat \<times> nat \<Rightarrow> (u64 \<times> nat) option" where
  "free_run [] needed cur = None"
| "free_run ((sector, off, raw) # rest) needed (first_sector, first_offset, consecutive) =
     (if raw ! 0 = 0x00 \<or> raw ! 0 = 0xE5 then
        (let (fs, fo) = (if consecutive = 0 then (sector, off) else (first_sector, first_offset));
             consecutive = consecutive + 1
         in if needed \<le> consecutive then Some (fs, fo) else free_run rest needed (fs, fo, consecutive))
      else free_run rest needed (first_sector, first_offset, 0))"

definition zero_cluster :: "disk \<Rightarrow> Bpb \<Rightarrow> u32 \<Rightarrow> disk" where
  "zero_cluster d bpb cluster = foldl (\<lambda>d sector. write_sector d sector ZERO) d (cluster_sectors bpb cluster)"

definition link_last :: "disk \<Rightarrow> Bpb \<Rightarrow> u32 list \<Rightarrow> u32 \<Rightarrow> disk" where
  "link_last d bpb chain new_cl = (if chain = [] then d else fat_write_entry d bpb (last chain) new_cl)"

definition find_free_dir_slots :: "disk \<Rightarrow> Bpb \<Rightarrow> u32 \<Rightarrow> nat \<Rightarrow> ((u64 \<times> nat) option \<times> disk) option" where
  "find_free_dir_slots d bpb dir_cluster needed =
     do { chain \<leftarrow> cluster_chain d bpb dir_cluster;
          case free_run (dir_slots d bpb chain) needed (0, 0, 0) of
            Some p \<Rightarrow> Some (Some p, d)
          | None \<Rightarrow>
              do { (a, d) \<leftarrow> fat_alloc_cluster d bpb;
                   case a of
                     None \<Rightarrow> Some (None, d)
                   | Some new_cl \<Rightarrow>
                       Some (Some (cluster_to_sector bpb new_cl, 0),
                             zero_cluster (link_last d bpb chain new_cl) bpb new_cl) } }"

definition fat_write_dir_entry :: "disk \<Rightarrow> u64 \<Rightarrow> nat \<Rightarrow> bytes \<Rightarrow> disk option" where
  "fat_write_dir_entry d sector offset entry =
     do { buf \<leftarrow> copy_slice (read_sector d sector ZERO) offset (offset + 32) entry; Some (write_sector d sector buf) }"

definition advance_dir_slot :: "u64 \<times> nat \<Rightarrow> u64 \<times> nat" where
  "advance_dir_slot p =
     (case p of (sector, offset) \<Rightarrow>
        if SECTOR \<le> offset + DIR_ENTRY_SIZE then (sector + 1, 0) else (sector, offset + DIR_ENTRY_SIZE))"

definition pad_name :: "u16 list \<Rightarrow> u16 list" where
  "pad_name n =
     (if length n mod 13 \<noteq> 0
      then n @ [0] @ replicate ((13 - Suc (length n) mod 13) mod 13) 0xFFFF
      else n)"

definition put_chars :: "u16 list \<Rightarrow> bytes \<Rightarrow> bytes" where
  "put_chars chunk entry = foldl (\<lambda>e (i, pos). overlay e pos (to_le 2 (chunk ! i))) entry (enumerate 0 LFN_OFFSETS)"

definition lfn_entry :: "u16 list \<Rightarrow> nat \<Rightarrow> nat \<Rightarrow> u8 \<Rightarrow> bytes option" where
  "lfn_entry padded lfn_count lfn_idx checksum =
     do { let seq_num = of_nat lfn_idx + 1;
          let flag = (if lfn_idx = lfn_count - 1 then seq_num OR 0x40 else seq_num);
          chunk \<leftarrow> slice padded (lfn_idx * 13) ((lfn_idx + 1) * 13);
          Some (put_chars chunk ((replicate 32 0)[0 := flag, 11 := ATTR_LFN, 13 := checksum])) }"

fun write_lfns :: "disk \<Rightarrow> u16 list \<Rightarrow> nat \<Rightarrow> u8 \<Rightarrow> nat list \<Rightarrow> u64 \<times> nat \<Rightarrow> (disk \<times> u64 \<times> nat) option" where
  "write_lfns d padded lfn_count checksum [] p = Some (d, p)"
| "write_lfns d padded lfn_count checksum (i # is) p =
     do { entry \<leftarrow> lfn_entry padded lfn_count i checksum;
          d \<leftarrow> fat_write_dir_entry d (fst p) (snd p) entry;
          write_lfns d padded lfn_count checksum is (advance_dir_slot p) }"

definition put_cluster :: "u32 \<Rightarrow> bytes \<Rightarrow> bytes" where
  "put_cluster cluster e =
     e[20 := ucast (drop_bit 16 cluster AND 0xFF), 21 := ucast (drop_bit 24 cluster AND 0xFF),
       26 := ucast (cluster AND 0xFF), 27 := ucast (drop_bit 8 cluster AND 0xFF)]"

definition sfn_entry :: "u64 \<Rightarrow> bytes \<Rightarrow> u8 \<Rightarrow> u32 \<Rightarrow> bytes" where
  "sfn_entry ticks sfn attr first_cluster =
     (let (time_word, date_word) = fat32_timestamp ticks;
          e = (overlay (replicate 32 0) 0 sfn)[11 := attr];
          e = overlay (overlay e 14 (to_le 2 time_word)) 16 (to_le 2 date_word);
          e = overlay (overlay e 22 (to_le 2 time_word)) 24 (to_le 2 date_word)
      in put_cluster first_cluster e)"

definition create_dir_entry :: "u64 \<Rightarrow> disk \<Rightarrow> Bpb \<Rightarrow> u32 \<Rightarrow> str \<Rightarrow> u8 \<Rightarrow> u32 \<Rightarrow> ((u64 \<times> nat) option \<times> disk) option" where
  "create_dir_entry ticks d bpb dir_cluster name attr first_cluster =
     (case build_sfn name of
        None \<Rightarrow> Some (None, d)
      | Some sfn \<Rightarrow>
          do { let checksum = sfn_checksum sfn;
               let name_utf16 = encode_utf16 name;
               let lfn_count = (length name_utf16 + 12) div 13;
               (p, d) \<leftarrow> find_free_dir_slots d bpb dir_cluster (lfn_count + 1);
               case p of
                 None \<Rightarrow> Some (None, d)
               | Some first \<Rightarrow>
                   do { (d, sfn_pos) \<leftarrow> write_lfns d (pad_name name_utf16) lfn_count checksum (rev [0..<lfn_count]) first;
                        d \<leftarrow> fat_write_dir_entry d (fst sfn_pos) (snd sfn_pos) (sfn_entry ticks sfn attr first_cluster);
                        Some (Some sfn_pos, d) } })"

end
