(* ===== verification/Fat_Vfs.thy ===== *)
theory Fat_Vfs
  imports Fat_Dir
begin

text \<open>
  fs/src/fat32/mod.rs, third part: file contents, the VFS nodes and the driver. The global
  \<open>FAT32\<close> is the parameter block of the first volume mounted, or \<open>None\<close>; a file node carries the
  size it was opened with.
\<close>

section \<open>File contents\<close>

text \<open>The state of the read loop: file position, bytes done, the caller's buffer and the sector buffer.\<close>

type_synonym rstate = "nat \<times> nat \<times> bytes \<times> bytes"

definition fr_sector :: "disk \<Rightarrow> nat \<Rightarrow> nat \<Rightarrow> u64 \<Rightarrow> rstate \<Rightarrow> rstate option" where
  "fr_sector d offset readable sector st =
     (case st of (file_pos, done, buf, sector_buf) \<Rightarrow>
        if file_pos + SECTOR \<le> offset \<or> offset + readable \<le> file_pos
        then Some (file_pos + SECTOR, done, buf, sector_buf)
        else
          do { let sector_buf = read_sector d sector sector_buf;
               let from = (if file_pos < offset then offset - file_pos else 0);
               let to = min SECTOR (offset + readable - file_pos);
               let buf_start = file_pos + from - offset;
               let copy_len = to - from;
               src \<leftarrow> slice sector_buf from to;
               buf \<leftarrow> copy_slice buf buf_start (buf_start + copy_len) src;
               Some (file_pos + SECTOR, done + copy_len, buf, sector_buf) })"

fun fr_sectors :: "disk \<Rightarrow> nat \<Rightarrow> nat \<Rightarrow> u64 list \<Rightarrow> rstate \<Rightarrow> rstate option" where
  "fr_sectors d offset readable [] st = Some st"
| "fr_sectors d offset readable (sector # ss) st =
     do { st \<leftarrow> fr_sector d offset readable sector st; fr_sectors d offset readable ss st }"

fun fr_clusters :: "disk \<Rightarrow> Bpb \<Rightarrow> nat \<Rightarrow> nat \<Rightarrow> u32 list \<Rightarrow> rstate \<Rightarrow> rstate option" where
  "fr_clusters d bpb offset readable [] st = Some st"
| "fr_clusters d bpb offset readable (cl # cls) (file_pos, done, buf, sector_buf) =
     (let cl_end = file_pos + cluster_size_bytes bpb
      in if cl_end \<le> offset then fr_clusters d bpb offset readable cls (cl_end, done, buf, sector_buf)
         else if offset + readable \<le> file_pos then Some (file_pos, done, buf, sector_buf)
         else do { st \<leftarrow> fr_sectors d offset readable (cluster_sectors bpb cl) (file_pos, done, buf, sector_buf);
                   fr_clusters d bpb offset readable cls st })"

text \<open>The number of bytes read and the caller's buffer.\<close>

definition fat_file_read :: "disk \<Rightarrow> Bpb \<Rightarrow> u32 \<Rightarrow> u32 \<Rightarrow> u64 \<Rightarrow> bytes \<Rightarrow> (nat \<times> bytes) option" where
  "fat_file_read d bpb cluster file_size offset buf =
     (if unat file_size \<le> unat offset \<or> buf = [] then Some (0, buf)
      else
        do { let readable = min (length buf) (unat file_size - unat offset);
             chain \<leftarrow> cluster_chain d bpb cluster;
             (file_pos, done, buf, sector_buf) \<leftarrow> fr_clusters d bpb (unat offset) readable chain (0, 0, buf, ZERO);
             Some (done, buf) })"

fun extend_chain :: "Bpb \<Rightarrow> nat \<Rightarrow> disk \<times> u32 list \<Rightarrow> (disk \<times> u32 list) option" where
  "extend_chain bpb 0 (d, chain) = Some (d, chain)"
| "extend_chain bpb (Suc n) (d, chain) =
     do { (a, d) \<leftarrow> fat_alloc_cluster d bpb;
          case a of
            None \<Rightarrow> Some (d, chain)
          | Some new_cl \<Rightarrow> extend_chain bpb n (link_last d bpb chain new_cl, chain @ [new_cl]) }"

text \<open>The write loop over the sectors of the chain; \<open>lim\<close> is \<open>offset + data.len()\<close>. Its state is the
  disk, the file position, the bytes done and the sector buffer.\<close>

type_synonym wstate = "disk \<times> nat \<times> nat \<times> bytes"

definition fw_sector :: "nat \<Rightarrow> nat \<Rightarrow> bytes \<Rightarrow> u64 \<Rightarrow> wstate \<Rightarrow> wstate option" where
  "fw_sector offset lim data sector st =
     (case st of (d, file_pos, done, sector_buf) \<Rightarrow>
        if file_pos + SECTOR \<le> offset \<or> lim \<le> file_pos
        then Some (d, file_pos + SECTOR, done, sector_buf)
        else
          do { let sector_buf = read_sector d sector sector_buf;
               let from = (if file_pos < offset then offset - file_pos else 0);
               let to = min SECTOR (lim - file_pos);
               let data_start = file_pos + from - offset;
               let copy_len = to - from;
               src \<leftarrow> slice data data_start (data_start + copy_len);
               sector_buf \<leftarrow> copy_slice sector_buf from to src;
               Some (write_sector d sector sector_buf, file_pos + SECTOR, done + copy_len, sector_buf) })"

fun fw_sectors :: "nat \<Rightarrow> nat \<Rightarrow> bytes \<Rightarrow> u64 list \<Rightarrow> wstate \<Rightarrow> wstate option" where
  "fw_sectors offset lim data [] st = Some st"
| "fw_sectors offset lim data (sector # ss) st =
     do { st \<leftarrow> fw_sector offset lim data sector st; fw_sectors offset lim data ss st }"

definition update_size :: "disk \<Rightarrow> u64 \<Rightarrow> nat \<Rightarrow> u32 \<Rightarrow> disk option" where
  "update_size d sector offset new_size =
     do { b \<leftarrow> put_le 4 (read_sector d sector ZERO) (offset + 28) new_size; Some (write_sector d sector b) }"

definition fat_file_write :: "disk \<Rightarrow> Bpb \<Rightarrow> u32 \<Rightarrow> u32 \<Rightarrow> u64 \<Rightarrow> bytes \<Rightarrow> u64 \<Rightarrow> nat \<Rightarrow> (nat \<times> disk) option" where
  "fat_file_write d bpb first_cluster old_size offset data e_sector e_offset =
     (if data = [] then Some (0, d)
      else
        do { let cluster_size = cluster_size_bytes bpb;
             let needed_size = offset + of_nat (length data);
             chain \<leftarrow> cluster_chain d bpb first_cluster;
             clusters_needed \<leftarrow> udiv (unat (needed_size + of_nat cluster_size - 1)) cluster_size;
             (d, chain) \<leftarrow> extend_chain bpb (clusters_needed - length chain) (d, chain);
             (d, file_pos, done, sector_buf) \<leftarrow>
               fw_sectors (unat offset) (unat needed_size) data (concat (map (cluster_sectors bpb) chain)) (d, 0, 0, ZERO);
             let new_size = (of_nat (max (unat old_size) (unat needed_size)) :: u32);
             d \<leftarrow> (if new_size \<noteq> old_size then update_size d e_sector e_offset new_size else Some d);
             Some (done, d) })"

section \<open>Nodes\<close>

datatype fat_node =
  FatDirINode u32
| FatFileINode (ff_cluster: u32) (ff_size: u32) (ff_sector: u64) (ff_offset: nat)

definition fat_root :: "Bpb option \<Rightarrow> fat_node" where
  "fat_root st = FatDirINode (case st of Some bpb \<Rightarrow> root_cluster bpb | None \<Rightarrow> 2)"

definition fat_metadata :: "fat_node \<Rightarrow> FileType" where
  "fat_metadata n = (case n of FatDirINode _ \<Rightarrow> Directory | FatFileINode _ _ _ _ \<Rightarrow> File)"

definition fat_lookup :: "Bpb option \<Rightarrow> disk \<Rightarrow> u32 \<Rightarrow> str \<Rightarrow> fat_node option option" where
  "fat_lookup st d cluster name =
     (case st of
        None \<Rightarrow> Some None
      | Some bpb \<Rightarrow>
          map_option
            (map_option (\<lambda>entry.
               if de_is_dir entry then FatDirINode (de_first_cluster entry)
               else FatFileINode (de_first_cluster entry) (de_size entry) (entry_sector entry) (entry_offset entry)))
            (find_entry_in_dir d bpb cluster name))"

text \<open>The common part of \<open>insert\<close> and \<open>create_file\<close>: the new cluster and the place of the entry.\<close>

definition fat_new_entry :: "u64 \<Rightarrow> Bpb option \<Rightarrow> disk \<Rightarrow> u32 \<Rightarrow> str \<Rightarrow> ((string + u32 \<times> u64 \<times> nat) \<times> disk) option" where
  "fat_new_entry ticks st d cluster name =
     (case st of
        None \<Rightarrow> Some (Inl ''fs not mounted'', d)
      | Some bpb \<Rightarrow>
          do { e \<leftarrow> find_entry_in_dir d bpb cluster name;
               if e \<noteq> None then Some (Inl ''file exists'', d)
               else
                 do { (a, d) \<leftarrow> fat_alloc_cluster d bpb;
                      case a of
                        None \<Rightarrow> Some (Inl ''disk full'', d)
                      | Some new_cluster \<Rightarrow>
                          do { (p, d) \<leftarrow> create_dir_entry ticks d bpb cluster name ATTR_ARCHIVE new_cluster;
                               case p of
                                 None \<Rightarrow> Some (Inl ''dir entry creation failed'', d)
                               | Some (es, eo) \<Rightarrow> Some (Inr (new_cluster, es, eo), d) } } })"

definition fat_insert :: "u64 \<Rightarrow> Bpb option \<Rightarrow> disk \<Rightarrow> u32 \<Rightarrow> str \<Rightarrow> ((string + unit) \<times> disk) option" where
  "fat_insert ticks st d cluster name =
     map_option (\<lambda>(r, d). (case r of Inl e \<Rightarrow> Inl e | Inr _ \<Rightarrow> Inr (), d)) (fat_new_entry ticks st d cluster name)"

definition fat_create_file :: "u64 \<Rightarrow> Bpb option \<Rightarrow> disk \<Rightarrow> u32 \<Rightarrow> str \<Rightarrow> ((string + fat_node) \<times> disk) option" where
  "fat_create_file ticks st d cluster name =
     map_option (\<lambda>(r, d). (case r of Inl e \<Rightarrow> Inl e | Inr (c, es, eo) \<Rightarrow> Inr (FatFileINode c 0 es eo), d))
       (fat_new_entry ticks st d cluster name)"

definition dot_entry :: "u64 \<Rightarrow> bytes \<Rightarrow> u32 \<Rightarrow> bytes" where
  "dot_entry ticks name cluster =
     (let (time_word, date_word) = fat32_timestamp ticks;
          e = (overlay (replicate 32 0) 0 (name @ replicate (11 - length name) 32))[11 := ATTR_DIRECTORY]
      in put_cluster cluster (overlay (overlay e 14 (to_le 2 time_word)) 16 (to_le 2 date_word)))"

definition fat_mkdir :: "u64 \<Rightarrow> Bpb option \<Rightarrow> disk \<Rightarrow> u32 \<Rightarrow> str \<Rightarrow> ((string + unit) \<times> disk) option" where
  "fat_mkdir ticks st d cluster name =
     (case st of
        None \<Rightarrow> Some (Inl ''fs not mounted'', d)
      | Some bpb \<Rightarrow>
          do { e \<leftarrow> find_entry_in_dir d bpb cluster name;
               if e \<noteq> None then Some (Inl ''file exists'', d)
               else
                 do { (a, d) \<leftarrow> fat_alloc_cluster d bpb;
                      case a of
                        None \<Rightarrow> Some (Inl ''disk full'', d)
                      | Some new_cluster \<Rightarrow>
                          do { let start_sector = cluster_to_sector bpb new_cluster;
                               let d = zero_cluster d bpb new_cluster;
                               d \<leftarrow> fat_write_dir_entry d start_sector 0 (dot_entry ticks [46] new_cluster);
                               d \<leftarrow> fat_write_dir_entry d start_sector 32 (dot_entry ticks [46, 46] cluster);
                               (p, d) \<leftarrow> create_dir_entry ticks d bpb cluster name ATTR_DIRECTORY new_cluster;
                               case p of
                                 None \<Rightarrow> Some (Inl ''dir entry creation failed'', d)
                               | Some _ \<Rightarrow> Some (Inr (), d) } } })"

text \<open>Marking slots from \<open>p\<close> on as deleted up to and including the slot \<open>q\<close>; \<open>None\<close> if it is never
  reached.\<close>

partial_function (option) delete_slots :: "disk \<Rightarrow> u64 \<times> nat \<Rightarrow> u64 \<times> nat \<Rightarrow> disk option" where
  "delete_slots d p q =
     Option.bind (store_at (read_sector d (fst p) ZERO) (snd p) 0xE5)
       (\<lambda>buf. if p = q then Some (write_sector d (fst p) buf)
              else delete_slots (write_sector d (fst p) buf) (advance_dir_slot p) q)"

definition fat_unlink :: "Bpb option \<Rightarrow> disk \<Rightarrow> u32 \<Rightarrow> str \<Rightarrow> ((string + unit) \<times> disk) option" where
  "fat_unlink st d cluster name =
     (case st of
        None \<Rightarrow> Some (Inl ''fs not mounted'', d)
      | Some bpb \<Rightarrow>
          do { e \<leftarrow> find_entry_in_dir d bpb cluster name;
               case e of
                 None \<Rightarrow> Some (Inl ''not found'', d)
               | Some entry \<Rightarrow>
                   do { chain \<leftarrow> cluster_chain d bpb (de_first_cluster entry);
                        let d = foldl (\<lambda>d cl. fat_write_entry d bpb cl FAT32_FREE) d chain;
                        d \<leftarrow> delete_slots d (lfn_start_sector entry, lfn_start_offset entry) (entry_sector entry, entry_offset entry);
                        Some (Inr (), d) } })"

definition fat_readdir :: "Bpb option \<Rightarrow> disk \<Rightarrow> u32 \<Rightarrow> (str \<times> FileType) list option option" where
  "fat_readdir st d cluster =
     (case st of
        None \<Rightarrow> Some None
      | Some bpb \<Rightarrow>
          do { es \<leftarrow> read_dir_entries d bpb cluster;
               Some (Some (map (\<lambda>e. (de_name e, if de_is_dir e then Directory else File)) es)) })"

text \<open>Reading and writing a file node; a write returns the node with its new size.\<close>

definition fat_node_read :: "Bpb option \<Rightarrow> disk \<Rightarrow> fat_node \<Rightarrow> u64 \<Rightarrow> bytes \<Rightarrow> (nat \<times> bytes) option" where
  "fat_node_read st d n offset buf =
     (case (st, n) of
        (Some bpb, FatFileINode c sz es eo) \<Rightarrow> fat_file_read d bpb c sz offset buf
      | _ \<Rightarrow> Some (0, buf))"

definition fat_node_write :: "Bpb option \<Rightarrow> disk \<Rightarrow> fat_node \<Rightarrow> u64 \<Rightarrow> bytes \<Rightarrow> (nat \<times> fat_node \<times> disk) option" where
  "fat_node_write st d n offset data =
     (case (st, n) of
        (Some bpb, FatFileINode c sz es eo) \<Rightarrow>
          do { (written, d) \<leftarrow> fat_file_write d bpb c sz offset data es eo;
               let sz = of_nat (max (unat sz) (unat (offset + of_nat written)));
               Some (written, FatFileINode c sz es eo, d) }
      | _ \<Rightarrow> Some (0, n, d))"

definition fat_node_size :: "fat_node \<Rightarrow> nat" where
  "fat_node_size n = (case n of FatFileINode c sz es eo \<Rightarrow> unat sz | FatDirINode _ \<Rightarrow> 0)"

section \<open>The driver\<close>

definition fat_probe :: "disk \<Rightarrow> bool" where
  "fat_probe dev =
     (let buf = read_sector dev 0 ZERO
      in buf ! 510 = 0x55 \<and> buf ! 511 = 0xAA \<and> take 8 (drop 82 buf) = FAT32_SIG)"

text \<open>Mounting reads sector 0 of the global device \<open>blk\<close>, not of the device it is given; the cell keeps
  the parameter block of the first successful mount.\<close>

definition fat_mount :: "disk \<Rightarrow> Bpb option \<Rightarrow> disk \<Rightarrow> (fat_node option \<times> Bpb option)" where
  "fat_mount blk st dev =
     (case bpb_parse (read_sector blk 0 ZERO) of
        None \<Rightarrow> (None, st)
      | Some bpb \<Rightarrow>
          (let st = (case st of Some b \<Rightarrow> Some b | None \<Rightarrow> Some bpb)
           in (Some (fat_root st), st)))"

definition fat_driver :: "disk \<Rightarrow> Bpb option \<Rightarrow> (fat_node \<times> Bpb option) FsDriver" where
  "fat_driver blk st =
     \<lparr> drv_name = ''fat32'', drv_probe = fat_probe,
       drv_mount = (\<lambda>dev. case fat_mount blk st dev of (Some n, st) \<Rightarrow> Some (Some (n, st)) | (None, st) \<Rightarrow> Some None) \<rparr>"

section \<open>The sector loops\<close>

text \<open>\<open>secs_byte\<close> is the byte at a position of the concatenation of some sectors.\<close>

definition secs_byte :: "disk \<Rightarrow> u64 list \<Rightarrow> nat \<Rightarrow> u8" where
  "secs_byte d secs x = the (d (secs ! (x div SECTOR))) ! (x mod SECTOR)"

lemma secs_byte_Cons:
  "x < SECTOR \<Longrightarrow> secs_byte d (s # secs) x = the (d s) ! x"
  "SECTOR \<le> x \<Longrightarrow> secs_byte d (s # secs) x = secs_byte d secs (x - SECTOR)"
  by (simp_all add: secs_byte_def le_div_geq le_mod_geq)

lemma secs_byte_cong:
  "x < SECTOR * length secs \<Longrightarrow> (\<And>s. s \<in> set secs \<Longrightarrow> d' s = d s) \<Longrightarrow> secs_byte d' secs x = secs_byte d secs x"
proof -
  assume "x < SECTOR * length secs" and *: "\<And>s. s \<in> set secs \<Longrightarrow> d' s = d s"
  then have "x div SECTOR < length secs" by (simp add: div_less_iff_less_mult mult.commute)
  then show ?thesis using * by (simp add: secs_byte_def)
qed

lemma fw_sector_spec:
  assumes "disk_wf d" "d s = Some b"
  obtains d' sb' where "fw_sector offset (offset + length data) data s (d, pos, n0, sb) =
      Some (d', pos + SECTOR, n0 + (min (offset + length data) (pos + SECTOR) - max offset pos), sb')"
    "disk_wf d'" "\<And>x. d' x = None \<longleftrightarrow> d x = None" "\<And>x. x \<noteq> s \<Longrightarrow> d' x = d x"
    "\<And>j. j < SECTOR \<Longrightarrow> the (d' s) ! j =
       (if offset \<le> pos + j \<and> pos + j < offset + length data then data ! (pos + j - offset) else b ! j)"
proof (cases "pos + SECTOR \<le> offset \<or> offset + length data \<le> pos")
  case True
  then show thesis using that[of d sb] assms by (auto simp: fw_sector_def)
next
  case False
  define f where "f = (if pos < offset then offset - pos else 0)"
  define t where "t = min SECTOR (offset + length data - pos)"
  have f: "pos + f = max offset pos" by (simp add: f_def max_def)
  have t: "pos + t = min (offset + length data) (pos + SECTOR)" using False unfolding t_def by linarith
  let ?src = "take (t - f) (drop (pos + f - offset) data)"
  have lb: "length b = SECTOR" using assms by (auto simp: disk_wf_def)
  have ft: "f \<le> t" "t \<le> SECTOR" "pos + f - offset + (t - f) \<le> length data" using False f t by linarith+
  have ls: "length ?src = t - f" using ft(3) by simp
  let ?b = "overlay b f ?src"
  have "fw_sector offset (offset + length data) data s (d, pos, n0, sb) = Some (write_sector d s ?b, pos + SECTOR, n0 + (t - f), ?b)"
    using False ft ls assms(2) lb
    by (simp add: fw_sector_def Let_def slice_def copy_slice_def read_sector_def f_def[symmetric] t_def[symmetric])
  moreover have "t - f = min (offset + length data) (pos + SECTOR) - max offset pos" using f t by linarith
  moreover have lb': "length ?b = SECTOR" using ft ls lb by simp
  moreover have "?b ! j = (if offset \<le> pos + j \<and> pos + j < offset + length data then data ! (pos + j - offset) else b ! j)"
    if "j < SECTOR" for j
  proof -
    have "?b ! j = (if f \<le> j \<and> j < f + (t - f) then ?src ! (j - f) else b ! j)"
      using nth_overlay[of f ?src b j] ft ls lb that by simp
    moreover have "f \<le> j \<and> j < f + (t - f) \<longleftrightarrow> offset \<le> pos + j \<and> pos + j < offset + length data"
      using ft(1) that f t by linarith
    moreover have "?src ! (j - f) = data ! (pos + j - offset)" if "f \<le> j" "j < f + (t - f)"
    proof -
      have "pos + f - offset + (j - f) = pos + j - offset" using that f by linarith
      then show ?thesis using that ft(3) by simp
    qed
    ultimately show ?thesis by metis
  qed
  ultimately show thesis
    using that[of "write_sector d s ?b" ?b] assms write_sector_wf[OF assms(1) lb', of s] by simp
qed

lemma fw_sectors_spec:
  assumes "disk_wf d" "distinct secs" "\<forall>s \<in> set secs. d s \<noteq> None"
  shows "\<exists>d' sb'. fw_sectors offset (offset + length data) data secs (d, pos, n0, sb) =
      Some (d', pos + SECTOR * length secs, n0 + (min (offset + length data) (pos + SECTOR * length secs) - max offset pos), sb') \<and>
    disk_wf d' \<and> (\<forall>x. d' x = None \<longleftrightarrow> d x = None) \<and> (\<forall>x. x \<notin> set secs \<longrightarrow> d' x = d x) \<and>
    (\<forall>x < SECTOR * length secs. secs_byte d' secs x =
       (if offset \<le> pos + x \<and> pos + x < offset + length data then data ! (pos + x - offset) else secs_byte d secs x))"
  using assms
proof (induction secs arbitrary: d pos n0 sb)
  case (Cons s secs)
  obtain b where b: "d s = Some b" using Cons.prems(3) by auto
  obtain d1 sb1 where o: "fw_sector offset (offset + length data) data s (d, pos, n0, sb) =
      Some (d1, pos + SECTOR, n0 + (min (offset + length data) (pos + SECTOR) - max offset pos), sb1)"
    "disk_wf d1" "\<And>x. d1 x = None \<longleftrightarrow> d x = None" "\<And>x. x \<noteq> s \<Longrightarrow> d1 x = d x"
    "\<And>j. j < SECTOR \<Longrightarrow> the (d1 s) ! j =
       (if offset \<le> pos + j \<and> pos + j < offset + length data then data ! (pos + j - offset) else b ! j)"
    by (rule fw_sector_spec[OF Cons.prems(1) b, of offset data pos n0 sb]) (rule that)
  obtain d' sb' where r: "fw_sectors offset (offset + length data) data secs
        (d1, pos + SECTOR, n0 + (min (offset + length data) (pos + SECTOR) - max offset pos), sb1) =
      Some (d', pos + SECTOR + SECTOR * length secs, n0 + (min (offset + length data) (pos + SECTOR) - max offset pos) +
        (min (offset + length data) (pos + SECTOR + SECTOR * length secs) - max offset (pos + SECTOR)), sb')"
    "disk_wf d'" "\<forall>x. d' x = None \<longleftrightarrow> d1 x = None" "\<forall>x. x \<notin> set secs \<longrightarrow> d' x = d1 x"
    "\<forall>x < SECTOR * length secs. secs_byte d' secs x =
       (if offset \<le> pos + SECTOR + x \<and> pos + SECTOR + x < offset + length data then data ! (pos + SECTOR + x - offset) else secs_byte d1 secs x)"
  proof -
    have "distinct secs" "\<forall>s \<in> set secs. d1 s \<noteq> None" using Cons.prems(2,3) o(3) by simp_all
    from Cons.IH[OF o(2) this] show thesis using that by blast
  qed
  have cnt: "(min (offset + length data) (pos + SECTOR) - max offset pos) +
      (min (offset + length data) (pos + SECTOR + SECTOR * length secs) - max offset (pos + SECTOR)) =
      min (offset + length data) (pos + SECTOR * length (s # secs)) - max offset pos"
    unfolding length_Cons mult_Suc_right by linarith
  have sd: "d' s = d1 s" using r(4) Cons.prems(2) by simp
  have byte: "secs_byte d' (s # secs) x =
      (if offset \<le> pos + x \<and> pos + x < offset + length data then data ! (pos + x - offset) else secs_byte d (s # secs) x)"
    if x: "x < SECTOR * length (s # secs)" for x
  proof (cases "x < SECTOR")
    case True
    then show ?thesis using o(5)[OF True] sd b by (simp add: secs_byte_Cons(1))
  next
    case False
    then have y: "x - SECTOR < SECTOR * length secs" "pos + SECTOR + (x - SECTOR) = pos + x" using x by simp_all
    have "secs_byte d1 secs (x - SECTOR) = secs_byte d secs (x - SECTOR)"
    proof (rule secs_byte_cong[OF y(1)])
      fix x assume "x \<in> set secs"
      then show "d1 x = d x" using Cons.prems(2) by (intro o(4)) auto
    qed
    then show ?thesis using r(5)[rule_format, OF y(1)] y(2) False by (simp add: secs_byte_Cons(2))
  qed
  have "fw_sectors offset (offset + length data) data (s # secs) (d, pos, n0, sb) =
      Some (d', pos + SECTOR * length (s # secs), n0 + (min (offset + length data) (pos + SECTOR * length (s # secs)) - max offset pos), sb')"
    using o(1) r(1) cnt by simp
  moreover have "d' x = None \<longleftrightarrow> d x = None" for x using r(3) o(3) by blast
  moreover have "d' x = d x" if "x \<notin> set (s # secs)" for x using r(4) o(4) that by simp
  ultimately show ?case using r(2) byte by blast
next
  case Nil
  have "min (offset + length data) pos - max offset pos = 0" by linarith
  then show ?case using Nil.prems by simp
qed

lemma fr_sector_spec:
  assumes "disk_wf d" "d s = Some b" "n \<le> length buf"
  obtains buf' sb' where "fr_sector d offset n s (pos, n0, buf, sb) =
      Some (pos + SECTOR, n0 + (min (offset + n) (pos + SECTOR) - max offset pos), buf', sb')"
    "length buf' = length buf"
    "\<And>i. i < length buf \<Longrightarrow> buf' ! i = (if i < n \<and> pos \<le> offset + i \<and> offset + i < pos + SECTOR then b ! (offset + i - pos) else buf ! i)"
proof (cases "pos + SECTOR \<le> offset \<or> offset + n \<le> pos")
  case True
  have "fr_sector d offset n s (pos, n0, buf, sb) = Some (pos + SECTOR, n0 + (min (offset + n) (pos + SECTOR) - max offset pos), buf, sb)"
    using True by (simp add: fr_sector_def) linarith
  moreover have "\<not> (i < n \<and> pos \<le> offset + i \<and> offset + i < pos + SECTOR)" for i using True by linarith
  ultimately show thesis by (intro that[of buf sb]) auto
next
  case False
  define f where "f = (if pos < offset then offset - pos else 0)"
  define t where "t = min SECTOR (offset + n - pos)"
  define a where "a = pos + f - offset"
  have f: "pos + f = max offset pos" by (simp add: f_def max_def)
  have t: "pos + t = min (offset + n) (pos + SECTOR)" using False unfolding t_def by linarith
  let ?src = "take (t - f) (drop f b)"
  have lb: "length b = SECTOR" using assms by (auto simp: disk_wf_def)
  have ft: "f \<le> t" "t \<le> SECTOR" "a + (t - f) \<le> length buf" "a + offset = pos + f" using False f t assms(3) a_def by linarith+
  have ls: "length ?src = t - f" using ft lb by simp
  let ?b = "overlay buf a ?src"
  have "fr_sector d offset n s (pos, n0, buf, sb) = Some (pos + SECTOR, n0 + (t - f), ?b, b)"
    using False ft ls assms(2) lb
    by (simp add: fr_sector_def Let_def slice_def copy_slice_def read_sector_def f_def[symmetric] t_def[symmetric] a_def[symmetric])
  moreover have "t - f = min (offset + n) (pos + SECTOR) - max offset pos" using f t by linarith
  moreover have "length ?b = length buf" using ft ls by simp
  moreover have "?b ! i = (if i < n \<and> pos \<le> offset + i \<and> offset + i < pos + SECTOR then b ! (offset + i - pos) else buf ! i)"
    if "i < length buf" for i
  proof -
    have "?b ! i = (if a \<le> i \<and> i < a + (t - f) then ?src ! (i - a) else buf ! i)"
      using nth_overlay[of a ?src buf i] ft ls that by simp
    moreover have "a \<le> i \<and> i < a + (t - f) \<longleftrightarrow> i < n \<and> pos \<le> offset + i \<and> offset + i < pos + SECTOR"
      using ft(1,4) f t by linarith
    moreover have "?src ! (i - a) = b ! (offset + i - pos)" if "a \<le> i" "i < a + (t - f)"
    proof -
      have "f + (i - a) = offset + i - pos" using that ft(4) f by linarith
      then show ?thesis using that ft lb by simp
    qed
    ultimately show ?thesis by metis
  qed
  ultimately show thesis by (intro that[of ?b b]) simp_all
qed

lemma fr_sectors_spec:
  assumes "disk_wf d" "\<forall>s \<in> set secs. d s \<noteq> None" "n \<le> length buf"
  shows "\<exists>buf' sb'. fr_sectors d offset n secs (pos, n0, buf, sb) =
      Some (pos + SECTOR * length secs, n0 + (min (offset + n) (pos + SECTOR * length secs) - max offset pos), buf', sb') \<and>
    length buf' = length buf \<and>
    (\<forall>i < length buf. buf' ! i =
       (if i < n \<and> pos \<le> offset + i \<and> offset + i < pos + SECTOR * length secs then secs_byte d secs (offset + i - pos) else buf ! i))"
  using assms(2,3)
proof (induction secs arbitrary: pos n0 buf sb)
  case Nil
  have "min (offset + n) pos - max offset pos = 0" by linarith
  then show ?case by auto
next
  case (Cons s secs)
  obtain b where b: "d s = Some b" using Cons.prems(1) by auto
  obtain buf1 sb1 where o: "fr_sector d offset n s (pos, n0, buf, sb) =
      Some (pos + SECTOR, n0 + (min (offset + n) (pos + SECTOR) - max offset pos), buf1, sb1)" "length buf1 = length buf"
    "\<And>i. i < length buf \<Longrightarrow> buf1 ! i = (if i < n \<and> pos \<le> offset + i \<and> offset + i < pos + SECTOR then b ! (offset + i - pos) else buf ! i)"
    by (rule fr_sector_spec[OF assms(1) b Cons.prems(2), of offset pos n0 sb]) (rule that)
  obtain buf' sb' where r: "fr_sectors d offset n secs (pos + SECTOR, n0 + (min (offset + n) (pos + SECTOR) - max offset pos), buf1, sb1) =
      Some (pos + SECTOR + SECTOR * length secs, n0 + (min (offset + n) (pos + SECTOR) - max offset pos) +
        (min (offset + n) (pos + SECTOR + SECTOR * length secs) - max offset (pos + SECTOR)), buf', sb')"
    "length buf' = length buf1"
    "\<forall>i < length buf1. buf' ! i = (if i < n \<and> pos + SECTOR \<le> offset + i \<and> offset + i < pos + SECTOR + SECTOR * length secs
       then secs_byte d secs (offset + i - (pos + SECTOR)) else buf1 ! i)"
  proof -
    have "\<forall>s \<in> set secs. d s \<noteq> None" "n \<le> length buf1" using Cons.prems o(2) by simp_all
    from Cons.IH[OF this] show thesis using that by blast
  qed
  have cnt: "(min (offset + n) (pos + SECTOR) - max offset pos) +
      (min (offset + n) (pos + SECTOR + SECTOR * length secs) - max offset (pos + SECTOR)) =
      min (offset + n) (pos + SECTOR * length (s # secs)) - max offset pos"
    unfolding length_Cons mult_Suc_right by linarith
  have byte: "buf' ! i = (if i < n \<and> pos \<le> offset + i \<and> offset + i < pos + SECTOR * length (s # secs)
      then secs_byte d (s # secs) (offset + i - pos) else buf ! i)" if i: "i < length buf" for i
  proof -
    have one: "buf1 ! i = (if i < n \<and> pos \<le> offset + i \<and> offset + i < pos + SECTOR then b ! (offset + i - pos) else buf ! i)"
      by (rule o(3)[OF i])
    have two: "buf' ! i = (if i < n \<and> pos + SECTOR \<le> offset + i \<and> offset + i < pos + SECTOR + SECTOR * length secs
       then secs_byte d secs (offset + i - (pos + SECTOR)) else buf1 ! i)" using r(3) i o(2) by simp
    consider "offset + i < pos + SECTOR" | "pos + SECTOR \<le> offset + i" by linarith
    then show ?thesis
    proof cases
      case 1
      then have "pos \<le> offset + i \<Longrightarrow> secs_byte d (s # secs) (offset + i - pos) = b ! (offset + i - pos)"
        using b by (simp add: secs_byte_Cons(1))
      then show ?thesis using 1 one two by auto
    next
      case 2
      then have "secs_byte d (s # secs) (offset + i - pos) = secs_byte d secs (offset + i - (pos + SECTOR))"
        by (simp add: secs_byte_Cons(2))
      then show ?thesis using 2 one two by auto
    qed
  qed
  have "fr_sectors d offset n (s # secs) (pos, n0, buf, sb) =
      Some (pos + SECTOR * length (s # secs), n0 + (min (offset + n) (pos + SECTOR * length (s # secs)) - max offset pos), buf', sb')"
    using o(1) r(1) cnt by simp
  then show ?case using r(2) o(2) byte by (simp del: fr_sectors.simps)
qed

text \<open>The shortcuts of the read loop on whole clusters change neither the bytes read nor the buffers.\<close>

lemma length_cluster_sectors [simp]: "length (cluster_sectors bpb c) = unat (sectors_per_cluster bpb)"
  by (simp add: cluster_sectors_def)

lemma fr_sectors_append:
  "fr_sectors d offset n (xs @ ys) st = Option.bind (fr_sectors d offset n xs st) (fr_sectors d offset n ys)"
  by (induction xs arbitrary: st) (auto split: Option.bind_splits)

lemma fr_sectors_skip:
  "pos + SECTOR * length secs \<le> offset \<or> offset + n \<le> pos \<Longrightarrow>
     fr_sectors d offset n secs (pos, n0, buf, sb) = Some (pos + SECTOR * length secs, n0, buf, sb)"
  by (induction secs arbitrary: pos) (auto simp: fr_sector_def)

lemma fr_clusters_sectors:
  "map_option snd (fr_clusters d bpb offset n cls (pos, n0, buf, sb)) =
     map_option snd (fr_sectors d offset n (concat (map (cluster_sectors bpb) cls)) (pos, n0, buf, sb))"
proof (induction cls arbitrary: pos n0 buf sb)
  case (Cons cl cls)
  let ?cs = "cluster_sectors bpb cl" and ?rest = "concat (map (cluster_sectors bpb) cls)"
  have len: "cluster_size_bytes bpb = SECTOR * length ?cs" by (simp add: cluster_size_bytes_def)
  consider "pos + cluster_size_bytes bpb \<le> offset" | "\<not> pos + cluster_size_bytes bpb \<le> offset" "offset + n \<le> pos"
    | "\<not> pos + cluster_size_bytes bpb \<le> offset" "\<not> offset + n \<le> pos" by blast
  then show ?case
  proof cases
    case 1
    then have "fr_sectors d offset n ?cs (pos, n0, buf, sb) = Some (pos + cluster_size_bytes bpb, n0, buf, sb)"
      unfolding len by (intro fr_sectors_skip) simp
    then show ?thesis using 1 Cons.IH by (simp add: fr_sectors_append Let_def)
  next
    case 2
    then show ?thesis using fr_sectors_skip[of pos "?cs @ ?rest" offset n] by (simp add: Let_def)
  next
    case 3
    show ?thesis
    proof (cases "fr_sectors d offset n ?cs (pos, n0, buf, sb)")
      case None
      then show ?thesis using 3 by (simp add: Let_def fr_sectors_append)
    next
      case (Some st)
      obtain p1 n1 b1 s1 where "st = (p1, n1, b1, s1)" by (cases st) auto
      then show ?thesis using 3 Some Cons.IH[of p1 n1 b1 s1] by (simp add: Let_def fr_sectors_append)
    qed
  qed
qed simp

section \<open>Files\<close>

abbreviation file_secs :: "Bpb \<Rightarrow> u32 list \<Rightarrow> u64 list" where
  "file_secs bpb chain \<equiv> concat (map (cluster_sectors bpb) chain)"

lemma length_file_secs [simp]: "length (file_secs bpb chain) = length chain * unat (sectors_per_cluster bpb)"
  by (induction chain) simp_all

lemma file_secs_distinct: "distinct chain \<Longrightarrow> \<forall>c \<in> set chain. 2 \<le> c \<Longrightarrow> distinct (file_secs bpb chain)"
proof (induction chain)
  case (Cons c chain)
  have "set (cluster_sectors bpb c) \<inter> set (cluster_sectors bpb x) = {}" if "x \<in> set chain" for x
    using Cons.prems that by (intro cluster_sectors_disjoint) auto
  then show ?case using Cons cluster_sectors_distinct[of c bpb] by auto
qed simp

lemma secs_byte_append: "x < SECTOR * length xs \<Longrightarrow> secs_byte d (xs @ ys) x = secs_byte d xs x"
  by (simp add: secs_byte_def nth_append div_less_iff_less_mult mult.commute)

text \<open>The file system's view: the clusters in use, and those free.\<close>

definition fat_free :: "disk \<Rightarrow> Bpb \<Rightarrow> u32 \<Rightarrow> u32 set" where
  "fat_free d bpb m = {c. 2 \<le> c \<and> c < m \<and> fat_read_entry d bpb c = FAT32_FREE}"

definition fat_chain :: "disk \<Rightarrow> Bpb \<Rightarrow> u32 \<Rightarrow> u32 \<Rightarrow> u32 list \<Rightarrow> bool" where
  "fat_chain d bpb m c xs \<longleftrightarrow> cluster_chain d bpb c = Some xs \<and> set xs \<subseteq> {..<m} \<and> set xs \<inter> fat_free d bpb m = {}"

lemma fat_chainD:
  assumes "fat_chain d bpb m c xs"
  shows "distinct xs" "\<forall>x \<in> set xs. 2 \<le> x \<and> x < m \<and> fat_read_entry d bpb x \<noteq> 0" "chain_path (fat_read_entry d bpb) c xs"
proof -
  show p: "chain_path (fat_read_entry d bpb) c xs" using assms by (simp add: fat_chain_def cluster_chain_iff)
  show "distinct xs" by (rule chain_path_distinct[OF p])
  have "\<forall>x \<in> set xs. in_chain x" using p by (induction xs arbitrary: c) auto
  then show "\<forall>x \<in> set xs. 2 \<le> x \<and> x < m \<and> fat_read_entry d bpb x \<noteq> 0"
    using assms by (auto simp: fat_chain_def fat_free_def in_chain_def)
qed

lemma cluster_mask: "c < m \<Longrightarrow> m \<le> FAT32_EOC \<Longrightarrow> c AND FAT32_MASK = c"
proof -
  assume "c < m" "m \<le> FAT32_EOC"
  then have "c < FAT32_EOC" by simp
  then have "unat c < 2 ^ 28" by (simp add: word_less_nat_alt)
  then have "take_bit 28 c = c" by (simp add: word_unat_eq_iff unsigned_take_bit_eq take_bit_nat_eq_self)
  moreover have "FAT32_MASK = mask 28" by (simp add: mask_eq_exp_minus_1)
  ultimately show ?thesis by (simp only: take_bit_eq_mask)
qed

lemma extend_step:
  assumes "fat_ok d bpb m" "fat_chain d bpb m c chain" "chain \<noteq> []" "fat_free d bpb m \<noteq> {}"
  obtains d1 x d2 where "fat_alloc_cluster d bpb = Some (Some x, d1)" "d2 = link_last d1 bpb chain x" "fat_ok d2 bpb m"
    "fat_chain d2 bpb m c (chain @ [x])" "x \<in> fat_free d bpb m" "fat_free d2 bpb m = fat_free d bpb m - {x}"
    "\<And>y. y < m \<Longrightarrow> y \<notin> set chain \<Longrightarrow> y \<noteq> x \<Longrightarrow> fat_read_entry d2 bpb y = fat_read_entry d bpb y"
    "\<And>c' s. 2 \<le> c' \<Longrightarrow> s \<in> set (cluster_sectors bpb c') \<Longrightarrow> d2 s = d s"
proof (rule fat_alloc_cases[OF assms(1)])
  assume "fat_alloc_cluster d bpb = Some (None, d)" "\<And>c. 2 \<le> c \<Longrightarrow> c < m \<Longrightarrow> fat_read_entry d bpb c \<noteq> 0"
  then show thesis using assms(4) by (auto simp: fat_free_def)
next
  fix x
  assume a: "fat_alloc_cluster d bpb = Some (Some x, fat_write_entry d bpb x FAT32_EOC)" "2 \<le> x" "x < m" "fat_read_entry d bpb x = 0"
  let ?d1 = "fat_write_entry d bpb x FAT32_EOC" and ?l = "last chain"
  let ?d2 = "link_last ?d1 bpb chain x"
  note C = fat_chainD[OF assms(2)]
  have eoc: "m \<le> FAT32_EOC" using assms(1) by (simp add: fat_ok_def)
  have l: "?l < m" "?l \<noteq> x" "x \<notin> set chain" using C(2) assms(3) a(4) by (auto dest: last_in_set)
  note W1 = fat_write_ok[OF assms(1) a(3), where v = FAT32_EOC]
  note W2 = fat_write_ok[OF W1(1) l(1), where v = x]
  have d2: "?d2 = fat_write_entry ?d1 bpb ?l x" using assms(3) by (simp add: link_last_def)
  have rd: "fat_read_entry ?d2 bpb y = (if y = ?l then x else if y = x then FAT32_EOC else fat_read_entry d bpb y)" if "y < m" for y
    unfolding d2 using fat_read_write[OF W1(1) l(1) that] fat_read_write[OF assms(1) a(3) that, of FAT32_EOC]
      cluster_mask[OF a(3) eoc] unfolding EOC_mask by simp
  have x: "in_chain x" using a(2,3) eoc by (simp add: in_chain_def)
  have "chain_path (fat_read_entry ?d2 bpb) c (chain @ [x])"
  proof (rule chain_path_snoc[OF C(3) assms(3) l(3) x])
    show "fat_read_entry ?d2 bpb ?l = x" using rd l(1) by simp
    show "\<not> in_chain (fat_read_entry ?d2 bpb x)" using rd[OF a(3)] l(2) EOC_out by simp
    fix y assume y: "y \<in> set (butlast chain)"
    have "y \<noteq> ?l" using C(1) y assms(3) by (metis append_butlast_last_id distinct_butlast not_distinct_conv_prefix)
    then show "fat_read_entry ?d2 bpb y = fat_read_entry d bpb y"
      using rd[of y] C(2) in_set_butlastD[OF y] l(3) by auto
  qed
  moreover have free: "fat_free ?d2 bpb m = fat_free d bpb m - {x}"
  proof -
    have "?l \<notin> fat_free d bpb m" "x \<noteq> 0" using C(2) assms(3) a(2) by (auto simp: fat_free_def)
    moreover have "FAT32_EOC \<noteq> 0" by simp
    ultimately show ?thesis using rd by (auto simp: fat_free_def split: if_splits)
  qed
  moreover have "set (chain @ [x]) \<subseteq> {..<m}" using C(2) a(3) by auto
  moreover have "set (chain @ [x]) \<inter> (fat_free d bpb m - {x}) = {}" using C(2) by (auto simp: fat_free_def)
  ultimately have "fat_chain ?d2 bpb m c (chain @ [x])" by (simp only: fat_chain_def cluster_chain_iff)
  moreover have "?d2 s = d s" if "2 \<le> c'" "s \<in> set (cluster_sectors bpb c')" for c' s
    unfolding d2 using W2(3)[OF that] W1(3)[OF that] by simp
  moreover have "fat_read_entry ?d2 bpb y = fat_read_entry d bpb y" if "y < m" "y \<notin> set chain" "y \<noteq> x" for y
    using rd[OF that(1)] that assms(3) by auto
  ultimately show thesis
    using that[OF a(1) refl] W2(1) a(2-4) free unfolding d2[symmetric] by (simp add: fat_free_def)
qed

lemma extend_chain_spec:
  assumes "fat_ok d bpb m" "fat_chain d bpb m c chain" "chain \<noteq> []" "k \<le> card (fat_free d bpb m)"
  shows "\<exists>d' new. extend_chain bpb k (d, chain) = Some (d', chain @ new) \<and> length new = k \<and> fat_ok d' bpb m \<and>
    fat_chain d' bpb m c (chain @ new) \<and> set new \<subseteq> fat_free d bpb m \<and>
    (\<forall>x < m. x \<notin> set chain \<and> x \<notin> set new \<longrightarrow> fat_read_entry d' bpb x = fat_read_entry d bpb x) \<and>
    (\<forall>c' s. 2 \<le> c' \<and> s \<in> set (cluster_sectors bpb c') \<longrightarrow> d' s = d s)"
  using assms
proof (induction k arbitrary: d chain)
  case (Suc k)
  have "fat_free d bpb m \<noteq> {}" using Suc.prems(4) by auto
  then obtain d1 x d2 where s: "fat_alloc_cluster d bpb = Some (Some x, d1)" "d2 = link_last d1 bpb chain x" "fat_ok d2 bpb m"
    "fat_chain d2 bpb m c (chain @ [x])" "x \<in> fat_free d bpb m" "fat_free d2 bpb m = fat_free d bpb m - {x}"
    "\<And>y. y < m \<Longrightarrow> y \<notin> set chain \<Longrightarrow> y \<noteq> x \<Longrightarrow> fat_read_entry d2 bpb y = fat_read_entry d bpb y"
    "\<And>c' s. 2 \<le> c' \<Longrightarrow> s \<in> set (cluster_sectors bpb c') \<Longrightarrow> d2 s = d s"
    using extend_step[OF Suc.prems(1-3)] by metis
  have "k \<le> card (fat_free d2 bpb m)" using Suc.prems(4) s(5,6) by simp
  from Suc.IH[OF s(3,4) _ this] obtain d' new where r: "extend_chain bpb k (d2, chain @ [x]) = Some (d', (chain @ [x]) @ new)"
    "length new = k" "fat_ok d' bpb m" "fat_chain d' bpb m c ((chain @ [x]) @ new)" "set new \<subseteq> fat_free d2 bpb m"
    "\<forall>y < m. y \<notin> set (chain @ [x]) \<and> y \<notin> set new \<longrightarrow> fat_read_entry d' bpb y = fat_read_entry d2 bpb y"
    "\<forall>c' s. 2 \<le> c' \<and> s \<in> set (cluster_sectors bpb c') \<longrightarrow> d' s = d2 s" by auto
  have "extend_chain bpb (Suc k) (d, chain) = Some (d', chain @ x # new)" using s(1,2) r(1) by simp
  moreover have "set (x # new) \<subseteq> fat_free d bpb m" using r(5) s(5,6) by auto
  moreover have "fat_read_entry d' bpb y = fat_read_entry d bpb y" if "y < m" "y \<notin> set chain" "y \<notin> set (x # new)" for y
    using r(6) s(7)[of y] that by simp
  moreover have "d' z = d z" if "2 \<le> c'" "z \<in> set (cluster_sectors bpb c')" for c' z using r(7) s(8)[OF that] that by simp
  ultimately show ?case using r(2-4) by (intro exI[of _ d'] exI[of _ "x # new"]) (simp del: extend_chain.simps, blast)
qed simp

text \<open>A change of data sectors leaves the table and the chains alone.\<close>

lemma data_only_chain:
  assumes "fat_ok d bpb m" "\<And>s. d' s \<noteq> d s \<Longrightarrow> \<exists>c'. 2 \<le> c' \<and> s \<in> set (cluster_sectors bpb c')"
  shows "x < m \<Longrightarrow> fat_read_entry d' bpb x = fat_read_entry d bpb x"
    and "fat_chain d bpb m c xs \<Longrightarrow> fat_chain d' bpb m c xs"
proof -
  have rd: "fat_read_entry d' bpb x = fat_read_entry d bpb x" if "x < m" for x
  proof -
    have "fat_slot bpb x" "0 < unat (fat_count bpb)" using assms(1) that by (simp_all add: fat_ok_def unat_gt_0 word_gt_0)
    then have "d' (fat_sec bpb 0 x) = d (fat_sec bpb 0 x)" using assms(2) fat_sec_not_data by blast
    then show ?thesis by (simp add: fat_read_entry_copy fat_entry_def read_sector_def)
  qed
  then show "x < m \<Longrightarrow> fat_read_entry d' bpb x = fat_read_entry d bpb x" .
  show "fat_chain d' bpb m c xs" if "fat_chain d bpb m c xs"
  proof -
    have "fat_free d' bpb m = fat_free d bpb m" using rd by (auto simp: fat_free_def)
    moreover have "chain_path (fat_read_entry d' bpb) c xs"
      using fat_chainD[OF that] rd by (intro chain_path_cong[OF fat_chainD(3)[OF that]]) auto
    ultimately show ?thesis using that by (simp add: fat_chain_def cluster_chain_iff)
  qed
qed

lemma update_size_spec:
  assumes "disk_wf d" "d s \<noteq> None" "eo + 32 \<le> SECTOR"
  obtains d' where "update_size d s eo v = Some d'" "disk_wf d'" "\<And>x. d' x = None \<longleftrightarrow> d x = None" "\<And>x. x \<noteq> s \<Longrightarrow> d' x = d x"
proof -
  let ?b = "overlay (read_sector d s ZERO) (eo + 28) (to_le 4 v)"
  have "length ?b = SECTOR" using assms by simp
  then show thesis using assms that[of "write_sector d s ?b"] write_sector_wf[of d ?b s] by (simp add: update_size_def put_le_Some)
qed

lemma fat_read_spec:
  assumes "disk_wf d" "cluster_chain d bpb c = Some chain" "\<forall>s \<in> set (file_secs bpb chain). d s \<noteq> None"
    and "unat offset + n \<le> unat fsz" "unat offset + n \<le> SECTOR * length (file_secs bpb chain)" "0 < n"
  shows "fat_file_read d bpb c fsz offset (replicate n 0) = Some (n, map (\<lambda>i. secs_byte d (file_secs bpb chain) (unat offset + i)) [0..<n])"
proof -
  let ?secs = "file_secs bpb chain" and ?o = "unat offset"
  obtain buf sb where r: "fr_sectors d ?o n ?secs (0, 0, replicate n 0, ZERO) =
      Some (SECTOR * length ?secs, min (?o + n) (SECTOR * length ?secs) - max ?o 0, buf, sb)" "length buf = n"
    "\<forall>i < n. buf ! i = (if i < n \<and> ?o + i < SECTOR * length ?secs then secs_byte d ?secs (?o + i) else 0)"
    using fr_sectors_spec[OF assms(1,3), of n "replicate n 0" ?o 0 0 ZERO] by auto
  have "min (?o + n) (SECTOR * length ?secs) - max ?o 0 = n" using assms(5) by linarith
  moreover have "buf = map (\<lambda>i. secs_byte d ?secs (?o + i)) [0..<n]"
    using r(2,3) assms(5) by (intro nth_equalityI) auto
  ultimately have "map_option snd (fr_clusters d bpb ?o n chain (0, 0, replicate n 0, ZERO)) =
      Some (n, map (\<lambda>i. secs_byte d ?secs (?o + i)) [0..<n], sb)"
    using r(1) by (simp only: fr_clusters_sectors) simp
  then obtain p where "fr_clusters d bpb ?o n chain (0, 0, replicate n 0, ZERO) = Some (p, n, map (\<lambda>i. secs_byte d ?secs (?o + i)) [0..<n], sb)"
    by auto
  moreover have "min n (unat fsz - ?o) = n" "\<not> unat fsz \<le> ?o" using assms(4,6) by linarith+
  ultimately show ?thesis using assms(2,6) by (simp add: fat_file_read_def Let_def)
qed

text \<open>The state after the data and the size have been written, from the state \<open>d1\<close> with the extended chain.\<close>

lemma fat_write_tail:
  assumes "fat_ok d1 bpb m" "fat_chain d1 bpb m c chain" "o' + length data \<le> SECTOR * length (file_secs bpb chain)"
    and "2 \<le> dc" "dc < m" "dc \<notin> set chain" "es \<in> set (cluster_sectors bpb dc)" "eo + 32 \<le> SECTOR"
  obtains d2 sb d3 where "fw_sectors o' (o' + length data) data (file_secs bpb chain) (d1, 0, 0, ZERO) =
      Some (d2, SECTOR * length (file_secs bpb chain), length data, sb)"
    "(if upd then update_size d2 es eo v else Some d2) = Some d3" "fat_ok d3 bpb m" "fat_chain d3 bpb m c chain"
    "\<And>x. x < m \<Longrightarrow> fat_read_entry d3 bpb x = fat_read_entry d1 bpb x"
    "\<And>s. s \<notin> set (file_secs bpb chain) \<Longrightarrow> s \<noteq> es \<Longrightarrow> d3 s = d1 s"
    "\<And>x. x < SECTOR * length (file_secs bpb chain) \<Longrightarrow> secs_byte d3 (file_secs bpb chain) x =
       (if o' \<le> x \<and> x < o' + length data then data ! (x - o') else secs_byte d1 (file_secs bpb chain) x)"
proof -
  let ?secs = "file_secs bpb chain"
  note C = fat_chainD[OF assms(2)]
  have wf: "disk_wf d1" using assms(1) by (simp add: fat_ok_def)
  have dom: "\<forall>s \<in> set ?secs. d1 s \<noteq> None" "d1 es \<noteq> None" using assms(1,4,5,7) C(2) by (auto simp: fat_ok_def)
  have dist: "distinct ?secs" using C(1,2) by (intro file_secs_distinct) auto
  have out: "es \<notin> set ?secs" using assms(4,6,7) C(2) cluster_sectors_disjoint[OF assms(4), of _ bpb] by fastforce
  obtain d2 sb where w: "fw_sectors o' (o' + length data) data ?secs (d1, 0, 0, ZERO) =
      Some (d2, SECTOR * length ?secs, min (o' + length data) (SECTOR * length ?secs) - max o' 0, sb)" "disk_wf d2"
    "\<forall>x. d2 x = None \<longleftrightarrow> d1 x = None" "\<forall>x. x \<notin> set ?secs \<longrightarrow> d2 x = d1 x"
    "\<forall>x < SECTOR * length ?secs. secs_byte d2 ?secs x = (if o' \<le> x \<and> x < o' + length data then data ! (x - o') else secs_byte d1 ?secs x)"
    using fw_sectors_spec[OF wf dist dom(1), of o' data 0 0 ZERO] by auto
  have len: "min (o' + length data) (SECTOR * length ?secs) - max o' 0 = length data" using assms(3) by linarith
  obtain d3 where u: "(if upd then update_size d2 es eo v else Some d2) = Some d3" "disk_wf d3"
    "\<And>x. d3 x = None \<longleftrightarrow> d2 x = None" "\<And>x. x \<noteq> es \<Longrightarrow> d3 x = d2 x"
  proof (cases upd)
    case True
    have "d2 es \<noteq> None" using w(3) dom(2) by simp
    then show thesis using True that by (elim update_size_spec[OF w(2) _ assms(8), where v = v]) simp
  next
    case False
    then show thesis using that[of d2] w(2) by simp
  qed
  have data: "\<exists>c'. 2 \<le> c' \<and> s \<in> set (cluster_sectors bpb c')" if "d3 s \<noteq> d1 s" for s
  proof (cases "s = es")
    case True
    then show ?thesis using assms(4,7) by blast
  next
    case False
    then have "s \<in> set ?secs" using that w(4) u(4) by metis
    then show ?thesis using C(2) by auto
  qed
  have "secs_byte d3 ?secs x = secs_byte d2 ?secs x" if "x < SECTOR * length ?secs" for x
  proof (rule secs_byte_cong[OF that])
    fix s assume "s \<in> set ?secs"
    then show "d3 s = d2 s" using out by (intro u(4)) auto
  qed
  then show thesis
    using that[of d2 sb d3] w u(1) len data_only_chain[OF assms(1) data] assms(2) u(2-4)
      fat_ok_cong[OF assms(1) u(2)] by simp
qed

section \<open>Properties\<close>

text \<open>C22: Writing a buffer into a file at any offset, with enough free clusters on a well-formed volume,
  writes all of it, and reading the range back with the new size returns the buffer. The chain of the
  file is extended by free clusters only, every byte of its old clusters outside the range keeps
  its value, and every other file keeps its chain and, apart from the directory that holds the
  entry, its contents.\<close>

theorem fat_write_read:
  assumes "fat_ok d bpb m" "fat_chain d bpb m c chain" "chain \<noteq> []" "data \<noteq> []"
    and "unat offset + length data < 2 ^ 32" "0 < sectors_per_cluster bpb"
    and "(unat offset + length data + cluster_size_bytes bpb - 1) div cluster_size_bytes bpb - length chain \<le> card (fat_free d bpb m)"
    and "2 \<le> dc" "dc < m" "dc \<notin> set chain" "dc \<notin> fat_free d bpb m" "es \<in> set (cluster_sectors bpb dc)" "eo + 32 \<le> SECTOR"
  shows "\<exists>d' new. fat_file_write d bpb c old_size offset data es eo = Some (length data, d') \<and> fat_ok d' bpb m \<and>
    fat_file_read d' bpb c (of_nat (max (unat old_size) (unat offset + length data))) offset (replicate (length data) 0) =
      Some (length data, data) \<and>
    fat_chain d' bpb m c (chain @ new) \<and> set new \<subseteq> fat_free d bpb m \<and>
    (\<forall>x < SECTOR * length (file_secs bpb chain). x < unat offset \<or> unat offset + length data \<le> x \<longrightarrow>
       secs_byte d' (file_secs bpb (chain @ new)) x = secs_byte d (file_secs bpb chain) x) \<and>
    (\<forall>y ys. fat_chain d bpb m y ys \<and> set ys \<inter> set chain = {} \<longrightarrow>
       cluster_chain d' bpb y = Some ys \<and> (\<forall>x \<in> set ys - {dc}. \<forall>s \<in> set (cluster_sectors bpb x). d' s = d s))"
proof -
  let ?cs = "cluster_size_bytes bpb" and ?o = "unat offset" and ?lim = "unat offset + length data"
  let ?need = "(?lim + ?cs - 1) div ?cs" and ?fs = "of_nat (max (unat old_size) ?lim) :: u32"
  have cs: "0 < ?cs" "?cs \<le> 130560"
    using assms(6) unat_u8_less[of "sectors_per_cluster bpb"] by (simp_all add: cluster_size_bytes_def unat_gt_0 word_gt_0)
  have lim: "unat (offset + of_nat (length data)) = ?lim" using assms(5) by (simp add: unat_word_ariths unat_of_nat)
  have need: "unat (offset + of_nat (length data) + of_nat ?cs - 1) = ?lim + ?cs - 1"
  proof -
    have "unat (offset + of_nat (length data) + of_nat ?cs) = ?lim + ?cs"
      unfolding unat_word_ariths(1)[of "offset + of_nat (length data)"] lim using assms(5) cs by (simp add: unat_of_nat)
    then show ?thesis using cs(1) by (simp add: unat_sub_if')
  qed
  obtain d1 new where e: "extend_chain bpb (?need - length chain) (d, chain) = Some (d1, chain @ new)"
    "length new = ?need - length chain" "fat_ok d1 bpb m" "fat_chain d1 bpb m c (chain @ new)" "set new \<subseteq> fat_free d bpb m"
    "\<forall>x < m. x \<notin> set chain \<and> x \<notin> set new \<longrightarrow> fat_read_entry d1 bpb x = fat_read_entry d bpb x"
    "\<forall>c' s. 2 \<le> c' \<and> s \<in> set (cluster_sectors bpb c') \<longrightarrow> d1 s = d s"
    using extend_chain_spec[OF assms(1-3,7)] by blast
  let ?secs = "file_secs bpb (chain @ new)"
  have "?need \<le> length (chain @ new)" using e(2) by simp
  then have "?need * ?cs \<le> length (chain @ new) * ?cs" by (rule mult_le_mono1)
  also have "\<dots> = SECTOR * length ?secs" unfolding length_file_secs by (simp add: cluster_size_bytes_def algebra_simps)
  finally have "?need * ?cs \<le> SECTOR * length ?secs" .
  moreover have "?lim \<le> ?need * ?cs"
    using cs(1) div_mult_mod_eq[of "?lim + ?cs - 1" ?cs] mod_less_divisor[OF cs(1), of "?lim + ?cs - 1"] by linarith
  ultimately have fit: "?lim \<le> SECTOR * length ?secs" by linarith
  have dc: "dc \<notin> set (chain @ new)" using assms(10,11) e(5) by auto
  obtain d2 sb d3 where t: "fw_sectors ?o ?lim data ?secs (d1, 0, 0, ZERO) = Some (d2, SECTOR * length ?secs, length data, sb)"
    "(if ?fs \<noteq> old_size then update_size d2 es eo ?fs else Some d2) = Some d3" "fat_ok d3 bpb m" "fat_chain d3 bpb m c (chain @ new)"
    "\<And>x. x < m \<Longrightarrow> fat_read_entry d3 bpb x = fat_read_entry d1 bpb x"
    "\<And>s. s \<notin> set ?secs \<Longrightarrow> s \<noteq> es \<Longrightarrow> d3 s = d1 s"
    "\<And>x. x < SECTOR * length ?secs \<Longrightarrow> secs_byte d3 ?secs x = (if ?o \<le> x \<and> x < ?lim then data ! (x - ?o) else secs_byte d1 ?secs x)"
    by (rule fat_write_tail[OF e(3,4) fit assms(8,9) dc assms(12,13), where upd = "?fs \<noteq> old_size" and v = ?fs]) (rule that)
  have wr: "fat_file_write d bpb c old_size offset data es eo = Some (length data, d3)"
    using assms(2,4) cs(1) e(1) t(1,2) by (simp add: fat_file_write_def fat_chain_def udiv_def lim need)
  have fs: "unat ?fs = max (unat old_size) ?lim"
    using assms(5) unat_u32_less[of old_size] by (intro unat_of_nat_less) simp
  have secs: "\<forall>s \<in> set ?secs. d3 s \<noteq> None" using t(3) fat_chainD(2)[OF t(4)] by (auto simp: fat_ok_def)
  have "map (\<lambda>i. secs_byte d3 ?secs (?o + i)) [0..<length data] = data"
    using t(7) fit by (intro nth_equalityI) simp_all
  moreover have "cluster_chain d3 bpb c = Some (chain @ new)" "disk_wf d3" using t(3,4) by (simp_all add: fat_chain_def fat_ok_def)
  ultimately have rd: "fat_file_read d3 bpb c ?fs offset (replicate (length data) 0) = Some (length data, data)"
    using fat_read_spec[OF _ _ secs, of c offset "length data" ?fs] fs fit assms(4) by simp
  have old: "secs_byte d3 ?secs x = secs_byte d (file_secs bpb chain) x"
    if x: "x < SECTOR * length (file_secs bpb chain)" "x < ?o \<or> ?lim \<le> x" for x
  proof -
    have "x < SECTOR * length ?secs" using x(1) by simp
    then have "secs_byte d3 ?secs x = secs_byte d1 ?secs x" using t(7) x(2) by auto
    also have "\<dots> = secs_byte d1 (file_secs bpb chain) x" using secs_byte_append[OF x(1)] by simp
    also have "\<dots> = secs_byte d (file_secs bpb chain) x"
      using fat_chainD(2)[OF assms(2)] e(7) by (intro secs_byte_cong[OF x(1)]) auto
    finally show ?thesis .
  qed
  have other: "cluster_chain d3 bpb y = Some ys \<and> (\<forall>x \<in> set ys - {dc}. \<forall>s \<in> set (cluster_sectors bpb x). d3 s = d s)"
    if y: "fat_chain d bpb m y ys" "set ys \<inter> set chain = {}" for y ys
  proof -
    note Y = fat_chainD[OF y(1)]
    have nn: "x \<notin> set (chain @ new)" if "x \<in> set ys" for x using that y e(5) by (auto simp: fat_chain_def)
    have "chain_path (fat_read_entry d3 bpb) y ys"
      using Y(2) nn t(5) e(6) by (intro chain_path_cong[OF Y(3)]) auto
    moreover have "d3 s = d s" if s: "x \<in> set ys - {dc}" "s \<in> set (cluster_sectors bpb x)" for x s
    proof -
      have x: "2 \<le> x" using Y(2) s(1) by auto
      have "s \<noteq> es" using cluster_sectors_disjoint[OF x assms(8), of bpb] s assms(12) by auto
      moreover have "s \<notin> set ?secs"
      proof
        assume "s \<in> set ?secs"
        then obtain z where z: "z \<in> set (chain @ new)" "s \<in> set (cluster_sectors bpb z)" by auto
        have "2 \<le> z" "x \<noteq> z" using fat_chainD(2)[OF t(4)] z(1) nn s(1) by auto
        then show False using cluster_sectors_disjoint[OF x, of z bpb] s(2) z(2) by auto
      qed
      ultimately show ?thesis using t(6) e(7) x s(2) by auto
    qed
    ultimately show ?thesis by (simp add: cluster_chain_iff)
  qed
  show ?thesis using wr t(3,4) rd e(5) old other by blast
qed

definition demo_file :: disk where
  "demo_file = fat_write_entry demo_fat demo_bpb 5 FAT32_EOC"

theorem fat_write_read_witness:
  "\<exists>d'. fat_file_write demo_file demo_bpb 5 0 100 (replicate 600 7) 3 0 = Some (600, d') \<and>
     fat_file_read d' demo_bpb 5 700 100 (replicate 600 0) = Some (600, replicate 600 7) \<and> fat_ok d' demo_bpb 12"
proof -
  have l: "(5 :: u32) < 12" "(3 :: u32) < 12" "(2 :: u32) < 12" by simp_all
  have ok: "fat_ok demo_file demo_bpb 12" unfolding demo_file_def by (rule fat_write_ok(1)[OF demo_fat_ok l(1)])
  have rd: "fat_read_entry demo_file demo_bpb x = (if x = 5 then FAT32_EOC else fat_read_entry demo_fat demo_bpb x)" if "x < 12" for x
    unfolding demo_file_def using fat_read_write[OF demo_fat_ok l(1) that, of FAT32_EOC] unfolding EOC_mask .
  have r: "fat_read_entry demo_file demo_bpb 5 = FAT32_EOC" "fat_read_entry demo_file demo_bpb 3 = 0"
    "fat_read_entry demo_file demo_bpb 2 = FAT32_MASK"
    using rd[OF l(1)] rd[OF l(2)] rd[OF l(3)] demo_fat_read[of 3] demo_fat_read[of 2] by simp_all
  have ch: "fat_chain demo_file demo_bpb 12 5 [5]"
    using r(1) by (simp add: fat_chain_def cluster_chain_iff in_chain_def fat_free_def)
  have fr: "3 \<in> fat_free demo_file demo_bpb 12" "2 \<notin> fat_free demo_file demo_bpb 12" using r by (simp_all add: fat_free_def)
  then have "0 < card (fat_free demo_file demo_bpb 12)" by (auto simp: card_gt_0_iff)
  moreover have es: "3 \<in> set (cluster_sectors demo_bpb 2)"
    by (simp add: cluster_sectors_def cluster_to_sector_def data_start_sector_def demo_bpb_facts)
  moreover have "cluster_size_bytes demo_bpb = 512" by (simp add: cluster_size_bytes_def demo_bpb_facts)
  ultimately show ?thesis
    using fat_write_read[OF ok ch, of "replicate 600 7" 100 2 3 0 0] fr(2) by (auto simp: demo_bpb_facts)
qed

end
