(* ===== verification/Virtqueue.thy ===== *)
theory Virtqueue
  imports Memory
begin

text \<open>
  drivers/src/virtqueue.rs: the split virtqueue of a VirtIO device. \<open>VirtqMem\<close> is the memory the driver
  shares with the device, one page each for the descriptor table and the two rings; \<open>Virtqueue\<close> is
  the driver's own state. An access outside a page is undefined, the outer \<open>None\<close>.
\<close>

unbundle bit_operations_syntax

abbreviation VIRTQ_DESC_F_NEXT :: u16 where "VIRTQ_DESC_F_NEXT \<equiv> 1"
abbreviation VIRTQ_DESC_F_WRITE :: u16 where "VIRTQ_DESC_F_WRITE \<equiv> 2"

record VirtqDesc =
  d_addr :: u64
  d_len :: u32
  d_flags :: u16
  d_next :: u16

text \<open>The entries of a ring are addressed modulo the queue size.\<close>

record VirtqMem =
  vm_desc :: "VirtqDesc list"
  vm_avail_idx :: u16
  vm_avail_ring :: "u16 list"
  vm_used_idx :: u16
  vm_used_ring :: "(u32 \<times> u32) list"

record Virtqueue =
  desc_phys :: u64
  avail_phys :: u64
  used_phys :: u64
  queue_size :: u16
  free_head :: u16
  num_free :: u16
  last_used_idx :: u16

text \<open>The page returned is zeroed. \<open>PAGE_ALLOC\<close> may not be initialised.\<close>

definition alloc_dma_page :: "u64 \<Rightarrow> 'm PageAllocator option \<Rightarrow> (u64 option \<times> 'm PageAllocator option) option" where
  "alloc_dma_page hhdm_offset pg =
     (case pg of
        None \<Rightarrow> Some (None, None)
      | Some pa \<Rightarrow>
          do { (f, fa) \<leftarrow> allocate_frame (pa_frames pa);
               Some (map_option (\<lambda>phys. hhdm_offset + phys) f, Some (pa\<lparr>pa_frames := fa\<rparr>)) })"

text \<open>A page of 4096 bytes holds 256 descriptors, 2046 available and 511 used ring entries.\<close>

definition zero_desc :: VirtqDesc where
  "zero_desc = \<lparr> d_addr = 0, d_len = 0, d_flags = 0, d_next = 0 \<rparr>"

definition zero_mem :: VirtqMem where
  "zero_mem = \<lparr> vm_desc = replicate 256 zero_desc, vm_avail_idx = 0, vm_avail_ring = replicate 2046 0,
     vm_used_idx = 0, vm_used_ring = replicate 511 (0, 0) \<rparr>"

fun init_descs :: "u16 \<Rightarrow> nat list \<Rightarrow> VirtqDesc list \<Rightarrow> VirtqDesc list option" where
  "init_descs qs [] ds = Some ds"
| "init_descs qs (i # is) ds =
     do { d \<leftarrow> index_at ds i;
          init_descs qs is
            (ds[i := d\<lparr>d_next := (if of_nat i + 1 < qs then of_nat i + 1 else 0), d_flags := 0\<rparr>]) }"

definition vq_allocate ::
    "u16 \<Rightarrow> u64 \<Rightarrow> 'm PageAllocator option \<Rightarrow> ((Virtqueue \<times> VirtqMem) option \<times> 'm PageAllocator option) option" where
  "vq_allocate qs hhdm_offset pg =
     do { (desc, pg) \<leftarrow> alloc_dma_page hhdm_offset pg;
          case desc of
            None \<Rightarrow> Some (None, pg)
          | Some desc_virt \<Rightarrow>
              do { (avail, pg) \<leftarrow> alloc_dma_page hhdm_offset pg;
                   case avail of
                     None \<Rightarrow> Some (None, pg)
                   | Some avail_virt \<Rightarrow>
                       do { (used, pg) \<leftarrow> alloc_dma_page hhdm_offset pg;
                            case used of
                              None \<Rightarrow> Some (None, pg)
                            | Some used_virt \<Rightarrow>
                                do { ds \<leftarrow> init_descs qs [0..<unat qs] (vm_desc zero_mem);
                                     Some (Some (\<lparr> desc_phys = desc_virt - hhdm_offset, avail_phys = avail_virt - hhdm_offset,
                                                   used_phys = used_virt - hhdm_offset, queue_size = qs, free_head = 0,
                                                   num_free = qs, last_used_idx = 0 \<rparr>,
                                                 zero_mem\<lparr>vm_desc := ds\<rparr>), pg) } } } }"

definition umod16 :: "u16 \<Rightarrow> u16 \<Rightarrow> nat option" where
  "umod16 a b = (if b = 0 then None else Some (unat (a mod b)))"

text \<open>Fill the descriptors of a chain along the free list; the last one gets no NEXT flag.\<close>

definition fill_desc :: "bool \<Rightarrow> u64 \<times> u32 \<times> u16 \<Rightarrow> VirtqDesc \<Rightarrow> VirtqDesc" where
  "fill_desc is_last x d =
     (case x of (addr, len, flags) \<Rightarrow>
        d\<lparr>d_addr := addr, d_len := len,
          d_flags := (if is_last then flags AND NOT VIRTQ_DESC_F_NEXT else flags OR VIRTQ_DESC_F_NEXT)\<rparr>)"

fun push_descs :: "(u64 \<times> u32 \<times> u16) list \<Rightarrow> u16 \<Rightarrow> Virtqueue \<times> VirtqDesc list \<Rightarrow> (Virtqueue \<times> VirtqDesc list) option" where
  "push_descs [] idx st = Some st"
| "push_descs (x # xs) idx (vq, ds) =
     do { d \<leftarrow> index_at ds (unat idx);
          let ds = ds[unat idx := fill_desc (xs = []) x d];
          let vq = vq\<lparr>num_free := num_free vq - 1\<rparr>;
          if xs = [] then Some (vq\<lparr>free_head := d_next d\<rparr>, ds) else push_descs xs (d_next d) (vq, ds) }"

definition push_chain :: "(u64 \<times> u32 \<times> u16) list \<Rightarrow> Virtqueue \<times> VirtqMem \<Rightarrow> (u16 option \<times> Virtqueue \<times> VirtqMem) option" where
  "push_chain descs st =
     (case st of (vq, vm) \<Rightarrow>
        if descs = [] \<or> num_free vq < of_nat (length descs) then Some (None, vq, vm)
        else
          do { let head = free_head vq;
               (vq, ds) \<leftarrow> push_descs descs head (vq, vm_desc vm);
               let avail_idx = vm_avail_idx vm;
               slot \<leftarrow> umod16 avail_idx (queue_size vq);
               ring \<leftarrow> store_at (vm_avail_ring vm) slot head;
               Some (Some head, vq, vm\<lparr>vm_desc := ds, vm_avail_ring := ring, vm_avail_idx := avail_idx + 1\<rparr>) })"

definition pop_used :: "Virtqueue \<times> VirtqMem \<Rightarrow> ((u32 \<times> u32) option \<times> Virtqueue) option" where
  "pop_used st =
     (case st of (vq, vm) \<Rightarrow>
        if last_used_idx vq = vm_used_idx vm then Some (None, vq)
        else
          do { slot \<leftarrow> umod16 (last_used_idx vq) (queue_size vq);
               elem \<leftarrow> index_at (vm_used_ring vm) slot;
               Some (Some elem, vq\<lparr>last_used_idx := last_used_idx vq + 1\<rparr>) })"

text \<open>Freeing a descriptor clears its flags, so the walk ends even on a chain with a cycle.\<close>

definition has_next :: "VirtqDesc \<Rightarrow> bool" where
  "has_next d \<longleftrightarrow> d_flags d AND VIRTQ_DESC_F_NEXT \<noteq> 0"

lemma count_next_update:
  assumes "i < length ds" "has_next (ds ! i)" "\<not> has_next d"
  shows "length (filter has_next (ds[i := d])) < length (filter has_next ds)"
proof -
  have "filter has_next (ds[i := d]) = filter has_next (take i ds) @ filter has_next (drop (Suc i) ds)"
    using assms(1,3) by (simp add: upd_conv_take_nth_drop)
  moreover have "filter has_next ds = filter has_next (take i ds) @ ds ! i # filter has_next (drop (Suc i) ds)"
    using assms(2) by (subst id_take_nth_drop[OF assms(1)]) simp
  ultimately show ?thesis by simp
qed

function free_chain :: "u16 \<Rightarrow> Virtqueue \<times> VirtqDesc list \<Rightarrow> (Virtqueue \<times> VirtqDesc list) option" where
  "free_chain idx (vq, ds) =
     (if unat idx < length ds then
        (let d = ds ! unat idx;
             ds' = ds[unat idx := d\<lparr>d_next := free_head vq, d_flags := 0\<rparr>];
             vq' = vq\<lparr>free_head := idx, num_free := num_free vq + 1\<rparr>
         in if has_next d then free_chain (d_next d) (vq', ds') else Some (vq', ds'))
      else None)"
  by pat_completeness auto
termination
  by (relation "measure (\<lambda>(idx, vq, ds). length (filter has_next ds))") (simp_all add: count_next_update has_next_def[of "_\<lparr>d_next := _, d_flags := 0\<rparr>"])

declare free_chain.simps [simp del]

section \<open>The free list and the chains in use\<close>

fun follow :: "VirtqDesc list \<Rightarrow> u16 \<Rightarrow> nat \<Rightarrow> u16 list" where
  "follow ds h 0 = []"
| "follow ds h (Suc n) = h # follow ds (d_next (ds ! unat h)) n"

fun chained :: "VirtqDesc list \<Rightarrow> u16 list \<Rightarrow> bool" where
  "chained ds [] = False"
| "chained ds [i] = (\<not> has_next (ds ! unat i))"
| "chained ds (i # j # cs) = (has_next (ds ! unat i) \<and> d_next (ds ! unat i) = j \<and> chained ds (j # cs))"

lemma length_follow [simp]: "length (follow ds h n) = n"
  by (induction n arbitrary: h) auto

lemma take_follow: "m \<le> n \<Longrightarrow> take m (follow ds h n) = follow ds h m"
proof (induction m arbitrary: n h)
  case (Suc m)
  then show ?case by (cases n) auto
qed simp

lemma follow_cong: "(\<And>i. i \<in> set (follow ds h n) \<Longrightarrow> d_next (ds' ! unat i) = d_next (ds ! unat i)) \<Longrightarrow> follow ds' h n = follow ds h n"
  by (induction n arbitrary: h) auto

lemma chained_cong: "(\<And>i. i \<in> set cs \<Longrightarrow> ds' ! unat i = ds ! unat i) \<Longrightarrow> chained ds' cs = chained ds cs"
  by (induction ds cs rule: chained.induct) auto

lemma has_next_bit: "has_next d \<longleftrightarrow> bit (d_flags d) 0"
  by (simp add: has_next_def and_one_eq bit_0 mod2_eq_if)

lemma has_next_fill: "has_next (fill_desc l x d) = (\<not> l)"
  by (simp add: has_next_bit fill_desc_def bit_and_iff bit_or_iff bit_not_iff bit_1_iff split: prod.splits)

lemma d_next_fill [simp]: "d_next (fill_desc l x d) = d_next d"
  by (simp add: fill_desc_def split: prod.splits)

lemma push_descs_ok:
  assumes "descs \<noteq> []" "length descs \<le> n" "distinct (follow ds idx n)" "\<forall>i \<in> set (follow ds idx n). unat i < length ds"
  shows "\<exists>ds' h. push_descs descs idx (vq, ds) = Some (vq\<lparr>num_free := num_free vq - of_nat (length descs), free_head := h\<rparr>, ds') \<and>
    length ds' = length ds \<and> (\<forall>i < length ds. d_next (ds' ! i) = d_next (ds ! i)) \<and>
    (\<forall>i. i \<notin> set (take (length descs) (follow ds idx n)) \<longrightarrow> ds' ! unat i = ds ! unat i) \<and>
    follow ds h (n - length descs) = drop (length descs) (follow ds idx n) \<and>
    (\<forall>k < length descs. ds' ! unat (follow ds idx n ! k) =
        fill_desc (Suc k = length descs) (descs ! k) (ds ! unat (follow ds idx n ! k)))"
  using assms
proof (induction descs arbitrary: n idx vq ds)
  case Nil
  from Nil(1) show ?case by simp
next
  case (Cons x xs)
  then obtain m where n: "n = Suc m" by (cases n) auto
  define nx0 where "nx0 = d_next (ds ! unat idx)"
  define d1 where "d1 = ds[unat idx := fill_desc (xs = []) x (ds ! unat idx)]"
  have fn: "follow ds idx n = idx # follow ds nx0 m" by (simp add: n nx0_def)
  have l1 [simp]: "length d1 = length ds" by (simp add: d1_def)
  have idx: "unat idx < length ds" "idx \<notin> set (follow ds nx0 m)" using Cons.prems fn by auto
  have nx: "d_next (d1 ! i) = d_next (ds ! i)" for i using idx(1) by (cases "i = unat idx") (auto simp: d1_def)
  have f1: "follow d1 h k = follow ds h k" for h k by (rule follow_cong) (rule nx)
  have dd: "d1 ! unat i = (if i = idx then fill_desc (xs = []) x (ds ! unat idx) else ds ! unat i)" for i
    using idx(1) by (auto simp: d1_def nth_list_update word_unat_eq_iff)
  show ?case
  proof (cases "xs = []")
    case True
    have "push_descs [x] idx (vq, ds) = Some (vq\<lparr>num_free := num_free vq - 1, free_head := nx0\<rparr>, d1)"
      using idx(1) True by (simp add: index_at_def d1_def nx0_def)
    moreover have "\<forall>i. i \<notin> {idx} \<longrightarrow> d1 ! unat i = ds ! unat i" "d1 ! unat idx = fill_desc True x (ds ! unat idx)"
      using dd True by simp_all
    ultimately show ?thesis using True fn n nx by (intro exI[of _ d1] exI[of _ nx0]) simp
  next
    case False
    have p: "length xs \<le> m" "distinct (follow d1 nx0 m)" "\<forall>i \<in> set (follow d1 nx0 m). unat i < length d1"
      using Cons.prems n fn f1 by auto
    define v1 where "v1 = vq\<lparr>num_free := num_free vq - 1\<rparr>"
    from Cons.IH[OF False p, of v1, unfolded f1] obtain ds' h where
      P: "push_descs xs nx0 (v1, d1) = Some (v1\<lparr>num_free := num_free v1 - of_nat (length xs), free_head := h\<rparr>, ds')"
      and L: "length ds' = length d1" and N: "\<forall>i < length d1. d_next (ds' ! i) = d_next (d1 ! i)"
      and O: "\<forall>i. i \<notin> set (take (length xs) (follow ds nx0 m)) \<longrightarrow> ds' ! unat i = d1 ! unat i"
      and F: "follow ds h (m - length xs) = drop (length xs) (follow ds nx0 m)"
      and K: "\<forall>k < length xs. ds' ! unat (follow ds nx0 m ! k) =
          fill_desc (Suc k = length xs) (xs ! k) (d1 ! unat (follow ds nx0 m ! k))"
      by blast
    have "ds' ! unat idx = d1 ! unat idx" using O idx(2) in_set_takeD by metis
    moreover have "d1 ! unat (follow ds nx0 m ! k) = ds ! unat (follow ds nx0 m ! k)" if "k < length xs" for k
    proof -
      have "follow ds nx0 m ! k \<in> set (follow ds nx0 m)" using that p(1) by (intro nth_mem) simp
      then show ?thesis using dd idx(2) by metis
    qed
    ultimately have "\<forall>k < length (x # xs). ds' ! unat (follow ds idx n ! k) =
        fill_desc (Suc k = length (x # xs)) ((x # xs) ! k) (ds ! unat (follow ds idx n ! k))"
      using K dd[of idx] False by (simp add: fn nth_Cons split: nat.splits)
    moreover have "push_descs (x # xs) idx (vq, ds) =
        Some (vq\<lparr>num_free := num_free vq - of_nat (length (x # xs)), free_head := h\<rparr>, ds')"
      using P False idx(1) by (simp add: index_at_def diff_diff_eq d1_def nx0_def v1_def)
    moreover have "\<forall>i < length ds. d_next (ds' ! i) = d_next (ds ! i)" using N nx by simp
    moreover have "\<forall>i. i \<notin> set (take (length (x # xs)) (follow ds idx n)) \<longrightarrow> ds' ! unat i = ds ! unat i"
      using O dd by (simp add: fn)
    moreover have "follow ds h (n - length (x # xs)) = drop (length (x # xs)) (follow ds idx n)" using F n by (simp add: fn nx0_def)
    moreover have "length ds' = length ds" using L by simp
    ultimately show ?thesis by (intro exI conjI)
  qed
qed

lemma chained_fill:
  assumes "\<forall>k < n. ds' ! unat (follow ds idx n ! k) = fill_desc (Suc k = n) (f k) (ds ! unat (follow ds idx n ! k))" "0 < n"
  shows "chained ds' (follow ds idx n)"
  using assms
proof (induction n arbitrary: idx f)
  case (Suc n)
  let ?nx = "d_next (ds ! unat idx)"
  have 0: "ds' ! unat idx = fill_desc (n = 0) (f 0) (ds ! unat idx)" using Suc.prems(1)[rule_format, of 0] by simp
  have k: "\<forall>k < n. ds' ! unat (follow ds ?nx n ! k) = fill_desc (Suc k = n) (f (Suc k)) (ds ! unat (follow ds ?nx n ! k))"
    using Suc.prems(1) by auto
  show ?case
  proof (cases n)
    case (Suc m)
    then have "chained ds' (follow ds ?nx n)" using Suc.IH[OF k] by simp
    then show ?thesis using 0 Suc by (simp add: has_next_fill)
  qed (use 0 in \<open>simp add: has_next_fill\<close>)
qed simp

lemma free_chain_ok:
  assumes "chained ds (i # cs)" "distinct (i # cs)" "\<forall>j \<in> set (i # cs). unat j < length ds"
  shows "\<exists>ds' h. free_chain i (vq, ds) = Some (vq\<lparr>free_head := h, num_free := num_free vq + of_nat (Suc (length cs))\<rparr>, ds') \<and>
    length ds' = length ds \<and> (\<forall>j. j \<notin> set (i # cs) \<longrightarrow> ds' ! unat j = ds ! unat j) \<and>
    (\<forall>n. set (i # cs) \<inter> set (follow ds (free_head vq) n) = {} \<longrightarrow>
       follow ds' h (n + Suc (length cs)) = rev (i # cs) @ follow ds (free_head vq) n)"
  using assms
proof (induction cs arbitrary: i vq ds)
  case Nil
  let ?d = "ds[unat i := (ds ! unat i)\<lparr>d_next := free_head vq, d_flags := 0\<rparr>]"
  have d: "?d ! unat j = ds ! unat j" if "j \<noteq> i" for j using that by (simp add: word_unat_eq_iff)
  have "follow ?d (free_head vq) n = follow ds (free_head vq) n" if "i \<notin> set (follow ds (free_head vq) n)" for n
    by (rule follow_cong) (use d that in metis)
  moreover have "free_chain i (vq, ds) = Some (vq\<lparr>free_head := i, num_free := num_free vq + 1\<rparr>, ?d)"
    using Nil by (simp add: free_chain.simps Let_def)
  ultimately show ?case using d Nil.prems(3) by (intro exI[of _ ?d] exI[of _ i]) simp
next
  case (Cons j cs)
  define d1 where "d1 = ds[unat i := (ds ! unat i)\<lparr>d_next := free_head vq, d_flags := 0\<rparr>]"
  define v1 where "v1 = vq\<lparr>free_head := i, num_free := num_free vq + 1\<rparr>"
  have i: "unat i < length ds" "i \<notin> set (j # cs)" using Cons.prems by simp_all
  have d: "d1 ! unat k = ds ! unat k" if "k \<noteq> i" for k using that by (simp add: word_unat_eq_iff d1_def)
  have l1: "length d1 = length ds" by (simp add: d1_def)
  have "chained d1 (j # cs) = chained ds (j # cs)" by (rule chained_cong) (use d i(2) in metis)
  then have p: "chained d1 (j # cs)" "distinct (j # cs)" "\<forall>k \<in> set (j # cs). unat k < length d1"
    using Cons.prems l1 by simp_all
  from Cons.IH[OF p, of v1] obtain ds' h where
    P: "free_chain j (v1, d1) = Some (v1\<lparr>free_head := h, num_free := num_free v1 + of_nat (Suc (length cs))\<rparr>, ds')"
    and L: "length ds' = length d1" and O: "\<forall>k. k \<notin> set (j # cs) \<longrightarrow> ds' ! unat k = d1 ! unat k"
    and F: "\<forall>n. set (j # cs) \<inter> set (follow d1 (free_head v1) n) = {} \<longrightarrow>
       follow ds' h (n + Suc (length cs)) = rev (j # cs) @ follow d1 (free_head v1) n"
    by blast
  have "follow ds' h (n + Suc (length (j # cs))) = rev (i # j # cs) @ follow ds (free_head vq) n"
    if "set (i # j # cs) \<inter> set (follow ds (free_head vq) n) = {}" for n
  proof -
    have "follow d1 (free_head vq) n = follow ds (free_head vq) n"
      by (rule follow_cong, rule arg_cong[where f = d_next], rule d) (use that in auto)
    then have "follow d1 (free_head v1) (Suc n) = i # follow ds (free_head vq) n" using i(1) by (simp add: v1_def d1_def)
    then show ?thesis using F[rule_format, of "Suc n"] that i(2) by auto
  qed
  moreover have "free_chain i (vq, ds) = Some (vq\<lparr>free_head := h, num_free := num_free vq + of_nat (Suc (length (j # cs)))\<rparr>, ds')"
    using P i(1) Cons.prems(1) by (subst free_chain.simps) (simp add: Let_def v1_def d1_def add.assoc)
  moreover have "\<forall>k. k \<notin> set (i # j # cs) \<longrightarrow> ds' ! unat k = ds ! unat k" using O d by simp
  ultimately show ?case using L l1 by (intro exI[of _ ds'] exI[of _ h] conjI) auto
qed

text \<open>The driver's view of the queue: the descriptors are the free list and the chains in use, each
  descriptor in exactly one of them.\<close>

definition free_of :: "Virtqueue \<Rightarrow> VirtqMem \<Rightarrow> u16 list" where
  "free_of vq vm = follow (vm_desc vm) (free_head vq) (unat (num_free vq))"

definition vq_inv :: "Virtqueue \<Rightarrow> VirtqMem \<Rightarrow> u16 list set \<Rightarrow> bool" where
  "vq_inv vq vm live \<longleftrightarrow>
     length (vm_desc vm) = 256 \<and> length (vm_avail_ring vm) = 2046 \<and> length (vm_used_ring vm) = 511 \<and>
     queue_size vq \<noteq> 0 \<and> unat (queue_size vq) \<le> 256 \<and> distinct (free_of vq vm) \<and>
     set (free_of vq vm) \<union> \<Union> (set ` live) = {i. i < queue_size vq} \<and>
     (\<forall>c \<in> live. chained (vm_desc vm) c \<and> distinct c \<and> set c \<inter> set (free_of vq vm) = {}) \<and>
     (\<forall>c \<in> live. \<forall>c' \<in> live. c \<noteq> c' \<longrightarrow> set c \<inter> set c' = {})"

text \<open>Submitting a chain, a completion seen by the driver, and releasing a chain in use. The device writes
  the used ring at any time.\<close>

inductive vq_step :: "Virtqueue \<times> VirtqMem \<times> u16 list set \<Rightarrow> Virtqueue \<times> VirtqMem \<times> u16 list set \<Rightarrow> bool" where
  push: "length descs < 65536 \<Longrightarrow> push_chain descs (vq, vm) = Some (Some h, vq', vm') \<Longrightarrow>
     vq_step (vq, vm, live) (vq', vm', insert (take (length descs) (free_of vq vm)) live)"
| push_full: "push_chain descs (vq, vm) = Some (None, vq', vm') \<Longrightarrow> vq_step (vq, vm, live) (vq', vm', live)"
| pop: "pop_used (vq, vm) = Some (e, vq') \<Longrightarrow> vq_step (vq, vm, live) (vq', vm, live)"
| free: "c \<in> live \<Longrightarrow> free_chain (hd c) (vq, vm_desc vm) = Some (vq', ds) \<Longrightarrow>
     vq_step (vq, vm, live) (vq', vm\<lparr>vm_desc := ds\<rparr>, live - {c})"
| device: "length ring = 511 \<Longrightarrow> vq_step (vq, vm, live) (vq, vm\<lparr>vm_used_idx := i, vm_used_ring := ring\<rparr>, live)"

lemma card_u16_less: "card {i :: u16. i < q} = unat q"
proof -
  have "x \<in> unat ` {i. i < q}" if "x < unat q" for x
    using that unat_u16_less[of q] unat_of_nat_less[of x, where 'a = 16]
    by (intro image_eqI[of _ _ "of_nat x"]) (simp_all add: word_less_nat_alt)
  then have "unat ` {i. i < q} = {..<unat q}" by (auto simp: word_less_nat_alt)
  moreover have "inj_on unat {i. i < q}" by (rule inj_onI) (simp add: word_unat_eq_iff)
  ultimately show ?thesis by (metis card_image card_lessThan)
qed

lemma vq_inv_less: "vq_inv vq vm live \<Longrightarrow> i \<in> set (free_of vq vm) \<union> \<Union> (set ` live) \<Longrightarrow> unat i < 256"
  unfolding vq_inv_def by (metis (mono_tags, lifting) less_le_trans mem_Collect_eq word_less_nat_alt)

lemma unat_umod16: "q \<noteq> 0 \<Longrightarrow> unat q \<le> 256 \<Longrightarrow> \<exists>k. umod16 a q = Some k \<and> k < 256"
  by (simp add: umod16_def unat_mod) (metis less_le_trans mod_less_divisor unat_gt_0)

lemma push_chain_ok:
  assumes "vq_inv vq vm live" "descs \<noteq> []" "length descs \<le> unat (num_free vq)"
  obtains vq' vm' cs where "cs = take (length descs) (free_of vq vm)" "push_chain descs (vq, vm) = Some (Some (hd cs), vq', vm')"
    "vq_inv vq' vm' (insert cs live)" "cs \<notin> live"
    "free_of vq' vm' = drop (length descs) (free_of vq vm)"
    "\<forall>k < length descs. vm_desc vm' ! unat (cs ! k) = fill_desc (Suc k = length descs) (descs ! k) (vm_desc vm ! unat (cs ! k))"
    "vm_avail_idx vm' = vm_avail_idx vm + 1" "vm_avail_ring vm' ! unat (vm_avail_idx vm mod queue_size vq) = hd cs"
    "vm_used_idx vm' = vm_used_idx vm" "vm_used_ring vm' = vm_used_ring vm"
    "queue_size vq' = queue_size vq" "last_used_idx vq' = last_used_idx vq"
proof -
  note I = assms(1)[unfolded vq_inv_def]
  let ?n = "unat (num_free vq)" and ?m = "length descs"
  define fl where "fl = free_of vq vm"
  have fl: "fl = follow (vm_desc vm) (free_head vq) ?n" by (simp add: fl_def free_of_def)
  have "\<forall>i \<in> set fl. unat i < length (vm_desc vm)" using vq_inv_less[OF assms(1)] I by (auto simp: fl_def)
  then obtain ds h where
    P: "push_descs descs (free_head vq) (vq, vm_desc vm) = Some (vq\<lparr>num_free := num_free vq - of_nat ?m, free_head := h\<rparr>, ds)"
    and L: "length ds = length (vm_desc vm)" and N: "\<forall>i < length (vm_desc vm). d_next (ds ! i) = d_next (vm_desc vm ! i)"
    and O: "\<forall>i. i \<notin> set (take ?m fl) \<longrightarrow> ds ! unat i = vm_desc vm ! unat i"
    and F: "follow (vm_desc vm) h (?n - ?m) = drop ?m fl"
    and K: "\<forall>k < ?m. ds ! unat (fl ! k) = fill_desc (Suc k = ?m) (descs ! k) (vm_desc vm ! unat (fl ! k))"
    using push_descs_ok[OF assms(2,3), of "vm_desc vm" "free_head vq" vq] I fl unfolding fl_def[symmetric] by metis
  let ?cs = "take ?m fl" and ?vq = "vq\<lparr>num_free := num_free vq - of_nat ?m, free_head := h\<rparr>"
  have m: "unat (of_nat ?m :: u16) = ?m" using assms(3) unat_u16_less[of "num_free vq"] by (simp add: unat_of_nat_less)
  have nf: "unat (num_free ?vq) = ?n - ?m" using assms(3) m by (simp add: unat_sub word_le_nat_alt)
  obtain slot where slot: "umod16 (vm_avail_idx vm) (queue_size vq) = Some slot" "slot < 256"
    using unat_umod16[of "queue_size vq" "vm_avail_idx vm"] I by (elim conjE) blast
  then have sl: "slot = unat (vm_avail_idx vm mod queue_size vq)" by (simp add: umod16_def split: if_splits)
  let ?vm = "vm\<lparr>vm_desc := ds, vm_avail_ring := (vm_avail_ring vm)[slot := free_head vq], vm_avail_idx := vm_avail_idx vm + 1\<rparr>"
  have hd: "hd ?cs = free_head vq" using assms(2,3) by (cases ?n) (auto simp: fl hd_conv_nth)
  have ge: "\<not> num_free vq < of_nat ?m" using assms(3) m by (simp add: word_less_nat_alt)
  have push: "push_chain descs (vq, vm) = Some (Some (hd ?cs), ?vq, ?vm)"
    using assms(2) ge P slot I by (simp add: push_chain_def Let_def store_at_def hd)
  have "follow ds h (?n - ?m) = follow (vm_desc vm) h (?n - ?m)"
    by (rule follow_cong) (use N L vq_inv_less[OF assms(1)] I F in \<open>auto simp: fl_def dest: in_set_dropD\<close>)
  then have free: "free_of ?vq ?vm = drop ?m fl" using F nf by (simp add: free_of_def)
  have fill: "\<forall>k < ?m. ds ! unat (?cs ! k) = fill_desc (Suc k = ?m) (descs ! k) (vm_desc vm ! unat (?cs ! k))" using K by simp
  have "?cs = follow (vm_desc vm) (free_head vq) ?m" using assms(3) by (simp add: fl take_follow)
  then have ch: "chained ds ?cs" using chained_fill fill assms(2) by (metis length_greater_0_conv)
  have dis: "distinct fl" "set ?cs \<inter> set (drop ?m fl) = {}" "set ?cs \<union> set (drop ?m fl) = set fl"
    using I set_take_disj_set_drop_if_distinct[of fl ?m ?m] set_append[of "take ?m fl" "drop ?m fl"] by (simp_all add: fl_def)
  have sep: "set c \<inter> set ?cs = {}" "set c \<inter> set (drop ?m fl) = {}" if "c \<in> live" for c
    using that I dis(3) unfolding fl_def by blast+
  have live: "chained ds c" if "c \<in> live" for c
  proof -
    have "chained ds c = chained (vm_desc vm) c" by (rule chained_cong, rule O[rule_format]) (use sep(1)[OF that] in auto)
    then show ?thesis using that I by blast
  qed
  have parts: "(set fl \<union> \<Union> (set ` live)) = {i. i < queue_size vq}" "\<forall>c \<in> live. distinct c"
    "\<forall>c \<in> live. \<forall>c' \<in> live. c \<noteq> c' \<longrightarrow> set c \<inter> set c' = {}" using I unfolding fl_def by blast+
  have "vq_inv ?vq ?vm (insert ?cs live)"
    unfolding vq_inv_def free
  proof (intro conjI)
    show "set (drop ?m fl) \<union> \<Union> (set ` insert ?cs live) = {i. i < queue_size ?vq}" using parts(1) dis(3) by auto
    show "\<forall>c \<in> insert ?cs live. chained (vm_desc ?vm) c \<and> distinct c \<and> set c \<inter> set (drop ?m fl) = {}"
      using ch live sep(2) dis parts(2) by simp
    show "\<forall>c \<in> insert ?cs live. \<forall>c' \<in> insert ?cs live. c \<noteq> c' \<longrightarrow> set c \<inter> set c' = {}"
      using sep(1) parts(3) by blast
  qed (use I L dis(1) in simp_all)
  moreover have "?cs \<notin> live" using sep(1)[of ?cs] ch by (cases ?cs) auto
  moreover have "vm_avail_ring ?vm ! unat (vm_avail_idx vm mod queue_size vq) = hd ?cs" using slot(2) I sl hd by simp
  ultimately show thesis using that[of ?cs ?vq ?vm] push free fill unfolding fl_def by simp
qed

lemma unat_add_nat16: "unat a + n < 65536 \<Longrightarrow> unat (a + of_nat n :: u16) = unat a + n"
proof -
  assume "unat a + n < 65536"
  then have "unat (of_nat (unat a + n) :: u16) = unat a + n" by (intro unat_of_nat_less) simp
  moreover have "a + of_nat n = of_nat (unat a + n)" by simp
  ultimately show ?thesis by (simp only:)
qed

lemma vq_free_room: "vq_inv vq vm live \<Longrightarrow> c \<in> live \<Longrightarrow> unat (num_free vq) + length c \<le> 256"
proof -
  assume inv: "vq_inv vq vm live" "c \<in> live"
  note I = inv(1)[unfolded vq_inv_def]
  have "distinct (free_of vq vm @ c)" using I inv(2) by (simp add: inf_commute)
  then have "length (free_of vq vm @ c) = card (set (free_of vq vm @ c))" by (metis distinct_card)
  also have "\<dots> \<le> card {i. i < queue_size vq}" using I inv(2) by (intro card_mono) auto
  also have "\<dots> \<le> 256" using I by (simp add: card_u16_less)
  finally show "unat (num_free vq) + length c \<le> 256" by (simp add: free_of_def)
qed

lemma vq_free_ok:
  assumes "vq_inv vq vm live" "c \<in> live"
  obtains vq' ds where "free_chain (hd c) (vq, vm_desc vm) = Some (vq', ds)" "vq_inv vq' (vm\<lparr>vm_desc := ds\<rparr>) (live - {c})"
    "free_of vq' (vm\<lparr>vm_desc := ds\<rparr>) = rev c @ free_of vq vm" "queue_size vq' = queue_size vq" "last_used_idx vq' = last_used_idx vq"
proof -
  note I = assms(1)[unfolded vq_inv_def]
  have c0: "chained (vm_desc vm) c" "distinct c" "set c \<inter> set (free_of vq vm) = {}" using I assms(2) by blast+
  then obtain i cs where c: "c = i # cs" by (cases c) auto
  have "\<forall>j \<in> set c. unat j < length (vm_desc vm)" using vq_inv_less[OF assms(1)] assms(2) I by auto
  then obtain ds h where
    P: "free_chain i (vq, vm_desc vm) = Some (vq\<lparr>free_head := h, num_free := num_free vq + of_nat (Suc (length cs))\<rparr>, ds)"
    and L: "length ds = length (vm_desc vm)" and O: "\<forall>j. j \<notin> set c \<longrightarrow> ds ! unat j = vm_desc vm ! unat j"
    and F: "\<forall>n. set c \<inter> set (follow (vm_desc vm) (free_head vq) n) = {} \<longrightarrow>
       follow ds h (n + Suc (length cs)) = rev c @ follow (vm_desc vm) (free_head vq) n"
    using free_chain_ok[of "vm_desc vm" i cs vq] c0 c by metis
  let ?vq = "vq\<lparr>free_head := h, num_free := num_free vq + of_nat (Suc (length cs))\<rparr>" and ?vm = "vm\<lparr>vm_desc := ds\<rparr>"
  have "unat (num_free vq) + Suc (length cs) < 65536" using vq_free_room[OF assms] c by simp
  then have nf: "unat (num_free ?vq) = unat (num_free vq) + Suc (length cs)"
    using unat_add_nat16[of "num_free vq" "Suc (length cs)"] by (simp del: of_nat_Suc)
  have free: "free_of ?vq ?vm = rev c @ free_of vq vm" using F c0(3) nf by (simp add: free_of_def)
  have live: "chained ds c'" if "c' \<in> live - {c}" for c'
  proof -
    have "set c' \<inter> set c = {}" using I that assms(2) by blast
    then have "chained ds c' = chained (vm_desc vm) c'" by (intro chained_cong O[rule_format]) auto
    then show ?thesis using that I by blast
  qed
  have U: "set (free_of vq vm) \<union> \<Union> (set ` live) = {i. i < queue_size vq}"
    "\<forall>c' \<in> live. distinct c' \<and> set c' \<inter> set (free_of vq vm) = {}"
    "\<forall>x \<in> live. \<forall>y \<in> live. x \<noteq> y \<longrightarrow> set x \<inter> set y = {}" using I by blast+
  have "vq_inv ?vq ?vm (live - {c})"
    unfolding vq_inv_def free
  proof (intro conjI)
    show "set (rev c @ free_of vq vm) \<union> \<Union> (set ` (live - {c})) = {i. i < queue_size ?vq}" using U(1) assms(2) by auto
    show "\<forall>c' \<in> live - {c}. chained (vm_desc ?vm) c' \<and> distinct c' \<and> set c' \<inter> set (rev c @ free_of vq vm) = {}"
      using live U(2,3) assms(2) by (simp add: Int_Un_distrib)
    show "\<forall>x \<in> live - {c}. \<forall>y \<in> live - {c}. x \<noteq> y \<longrightarrow> set x \<inter> set y = {}" using U(3) by blast
    show "distinct (rev c @ free_of vq vm)" using I c0 by simp
  qed (use I L in simp_all)
  then show thesis using that[of ?vq ds] P free c by simp
qed

lemma vq_inv_device [simp]:
  "vq_inv (vq\<lparr>last_used_idx := u\<rparr>) vm live = vq_inv vq vm live"
  "length ring = 511 \<Longrightarrow> vq_inv vq vm live \<Longrightarrow> vq_inv vq (vm\<lparr>vm_used_idx := i, vm_used_ring := ring\<rparr>) live"
  by (simp_all add: vq_inv_def free_of_def)

lemma vq_step_inv: "vq_step st st' \<Longrightarrow> vq_inv (fst st) (fst (snd st)) (snd (snd st)) \<Longrightarrow> vq_inv (fst st') (fst (snd st')) (snd (snd st'))"
proof (induction rule: vq_step.induct)
  case (push descs vq vm h vq' vm' live)
  then have d: "descs \<noteq> []" "\<not> num_free vq < of_nat (length descs)" by (auto simp: push_chain_def split: if_splits)
  then have "length descs \<le> unat (num_free vq)" using push(1) unat_of_nat_less[of "length descs", where 'a = 16] by (simp add: word_less_nat_alt)
  then show ?case using push_chain_ok[of vq vm live descs] push d(1) by auto
next
  case (push_full descs vq vm vq' vm' live)
  then show ?case by (auto simp: push_chain_def Let_def split: if_splits Option.bind_splits prod.splits)
next
  case (pop vq vm e vq' live)
  then have "vq' = vq \<or> vq' = vq\<lparr>last_used_idx := last_used_idx vq + 1\<rparr>"
    by (auto simp: pop_used_def split: if_splits Option.bind_splits)
  then show ?case using pop(2) by (elim disjE) simp_all
next
  case (free c live vq vm vq' ds)
  then show ?case using vq_free_ok[of vq vm live c] by auto
next
  case (device ring vq vm live i)
  then show ?case by simp
qed

lemma init_descs_ok:
  assumes "\<forall>i \<in> set js. i < length ds" "distinct js"
  shows "\<exists>ds'. init_descs qs js ds = Some ds' \<and> length ds' = length ds \<and>
    (\<forall>i \<in> set js. d_next (ds' ! i) = (if of_nat i + 1 < qs then of_nat i + 1 else 0))"
  using assms
proof (induction js arbitrary: ds)
  case (Cons j js)
  define d1 where "d1 = ds[j := (ds ! j)\<lparr>d_next := (if of_nat j + 1 < qs then of_nat j + 1 else 0), d_flags := 0\<rparr>]"
  have other: "init_descs qs js ds = Some ds' \<Longrightarrow> i \<notin> set js \<Longrightarrow> ds' ! i = ds ! i" for i js ds ds'
    by (induction js arbitrary: ds) (auto split: Option.bind_splits)
  have l: "length d1 = length ds" and j: "j < length ds" using Cons.prems by (simp_all add: d1_def)
  obtain ds' where P: "init_descs qs js d1 = Some ds'" "length ds' = length ds"
    "\<forall>i \<in> set js. d_next (ds' ! i) = (if of_nat i + 1 < qs then of_nat i + 1 else 0)"
    using Cons.IH[of d1] Cons.prems l by auto
  moreover have "ds' ! j = d1 ! j" using other[OF P(1)] Cons.prems by simp
  moreover have "init_descs qs (j # js) ds = Some ds'" using P(1) j by (simp add: index_at_def d1_def)
  ultimately show ?case using j by (intro exI[of _ ds']) (simp add: d1_def)
qed simp

lemma follow_init:
  fixes qs :: u16
  assumes "\<forall>i < unat qs. d_next (ds ! i) = (if of_nat i + 1 < qs then of_nat i + 1 else 0)" "a + n \<le> unat qs"
  shows "follow ds (of_nat a) n = map of_nat [a..<a + n]"
  using assms(2)
proof (induction n arbitrary: a)
  case (Suc n)
  have a: "unat (of_nat a :: u16) = a" using Suc.prems unat_u16_less[of qs] by (intro unat_of_nat_less) simp
  show ?case
  proof (cases n)
    case 0
    then show ?thesis by simp
  next
    case (Suc k)
    have "unat (of_nat (Suc a) :: u16) = Suc a" using Suc Suc.prems unat_u16_less[of qs] by (intro unat_of_nat_less) simp
    then have "of_nat (Suc a) < qs" using Suc Suc.prems by (simp add: word_less_nat_alt del: of_nat_Suc)
    then have "d_next (ds ! a) = of_nat (Suc a)" using assms(1) Suc.prems by (simp add: add.commute)
    moreover have "[a..<a + Suc n] = a # [Suc a..<Suc a + n]" by (simp add: upt_conv_Cons del: upt_Suc)
    ultimately show ?thesis using a Suc.IH[of "Suc a"] Suc.prems by (simp del: of_nat_Suc upt_Suc)
  qed
qed simp

lemma zero_mem_simps [simp]:
  "length (vm_desc zero_mem) = 256" "length (vm_avail_ring zero_mem) = 2046" "length (vm_used_ring zero_mem) = 511"
  "vm_avail_idx zero_mem = 0" "vm_used_idx zero_mem = 0"
  by (simp_all add: zero_mem_def)

lemma vq_allocate_inv:
  assumes "vq_allocate qs hhdm pg = Some (Some (vq, vm), pg')" "qs \<noteq> 0" "unat qs \<le> 256"
  shows "vq_inv vq vm {} \<and> last_used_idx vq = 0 \<and> vm_used_idx vm = 0 \<and> vm_avail_idx vm = 0 \<and> num_free vq = qs \<and> queue_size vq = qs"
proof -
  have z: "\<forall>i \<in> set [0..<unat qs]. i < length (vm_desc zero_mem)" using assms(3) by auto
  obtain ds where D: "init_descs qs [0..<unat qs] (vm_desc zero_mem) = Some ds" "length ds = 256"
    "\<forall>i < unat qs. d_next (ds ! i) = (if of_nat i + 1 < qs then of_nat i + 1 else 0)"
    using init_descs_ok[OF z distinct_upt, of qs] by auto
  have V: "vm = zero_mem\<lparr>vm_desc := ds\<rparr>" "free_head vq = 0" "num_free vq = qs" "queue_size vq = qs" "last_used_idx vq = 0"
    using assms(1) D(1) by (auto simp: vq_allocate_def split: Option.bind_splits option.splits)
  have f: "free_of vq vm = map of_nat [0..<unat qs]" using follow_init[OF D(3), of 0] V by (simp add: free_of_def)
  have u: "unat (of_nat i :: u16) = i" if "i < unat qs" for i using that assms(3) by (intro unat_of_nat_less) simp
  have d: "distinct (free_of vq vm)" unfolding f distinct_map
    by (intro conjI distinct_upt inj_onI) (use u in \<open>auto dest: arg_cong[where f = unat]\<close>)
  have "card (set (free_of vq vm)) = card {i. i < qs}" using distinct_card[OF d] by (simp add: f card_u16_less)
  moreover have "set (free_of vq vm) \<subseteq> {i. i < qs}"
    using u by (auto simp: f word_less_nat_alt)
  ultimately have "set (free_of vq vm) = {i. i < qs}" by (intro card_subset_eq) auto
  then show ?thesis using d V D(2) assms(2,3) by (simp add: vq_inv_def)
qed

section \<open>Properties\<close>

text \<open>C27: Whatever chains the driver submits and releases and whatever the device reports, every descriptor is
  either free or in exactly one chain in use, and each chain in use stays linked. A chain is
  refused exactly when fewer descriptors are free than it needs, and otherwise gets descriptors
  that no other chain holds; releasing a chain returns and makes its descriptors free.\<close>

theorem vq_descriptors_partitioned:
  assumes "vq_allocate qs hhdm pg = Some (Some (vq0, vm0), pg')" "qs \<noteq> 0" "unat qs \<le> 256"
    and "vq_step\<^sup>*\<^sup>* (vq0, vm0, {}) (vq, vm, live)"
  shows "set (free_of vq vm) \<union> \<Union> (set ` live) = {i. i < queue_size vq} \<and>
    (\<forall>c \<in> live. chained (vm_desc vm) c \<and> set c \<inter> set (free_of vq vm) = {}) \<and>
    (\<forall>c \<in> live. \<forall>c' \<in> live. c \<noteq> c' \<longrightarrow> set c \<inter> set c' = {}) \<and>
    (\<forall>descs. descs \<noteq> [] \<and> length descs < 65536 \<longrightarrow>
       (if length descs \<le> length (free_of vq vm)
        then \<exists>vq' vm'. push_chain descs (vq, vm) = Some (Some (hd (free_of vq vm)), vq', vm') \<and>
               chained (vm_desc vm') (take (length descs) (free_of vq vm))
        else push_chain descs (vq, vm) = Some (None, vq, vm))) \<and>
    (\<forall>c \<in> live. \<exists>vq' ds. free_chain (hd c) (vq, vm_desc vm) = Some (vq', ds) \<and>
       free_of vq' (vm\<lparr>vm_desc := ds\<rparr>) = rev c @ free_of vq vm)"
proof -
  have inv: "vq_inv vq vm live"
    using assms(4)
  proof (induction "(vq, vm, live)" arbitrary: vq vm live rule: rtranclp_induct)
    case base
    show ?case using vq_allocate_inv[OF assms(1-3)] by simp
  next
    case (step y)
    then show ?case using vq_step_inv[OF step(2)] by (cases y) auto
  qed
  have push: "if length descs \<le> length (free_of vq vm)
      then \<exists>vq' vm'. push_chain descs (vq, vm) = Some (Some (hd (free_of vq vm)), vq', vm') \<and>
             chained (vm_desc vm') (take (length descs) (free_of vq vm))
      else push_chain descs (vq, vm) = Some (None, vq, vm)" if d: "descs \<noteq> []" "length descs < 65536" for descs
  proof (cases "length descs \<le> unat (num_free vq)")
    case True
    obtain vq' vm' cs where P: "cs = take (length descs) (free_of vq vm)" "push_chain descs (vq, vm) = Some (Some (hd cs), vq', vm')"
      "vq_inv vq' vm' (insert cs live)"
      by (rule push_chain_ok[OF inv d(1) True]) (rule that)
    moreover have "chained (vm_desc vm') cs" using P(3) unfolding vq_inv_def by blast
    moreover have "hd cs = hd (free_of vq vm)" using P(1) d(1) by (simp add: hd_take)
    ultimately show ?thesis using True by (simp add: free_of_def)
  next
    case False
    then have "num_free vq < of_nat (length descs)" using d(2) unat_of_nat_less[of "length descs", where 'a = 16] by (simp add: word_less_nat_alt)
    then show ?thesis using False by (simp add: push_chain_def free_of_def)
  qed
  have free: "\<exists>vq' ds. free_chain (hd c) (vq, vm_desc vm) = Some (vq', ds) \<and>
       free_of vq' (vm\<lparr>vm_desc := ds\<rparr>) = rev c @ free_of vq vm" if "c \<in> live" for c
    using vq_free_ok[OF inv that] by metis
  have I: "set (free_of vq vm) \<union> \<Union> (set ` live) = {i. i < queue_size vq}"
    "\<forall>c \<in> live. chained (vm_desc vm) c \<and> set c \<inter> set (free_of vq vm) = {}"
    "\<forall>c \<in> live. \<forall>c' \<in> live. c \<noteq> c' \<longrightarrow> set c \<inter> set c' = {}" using inv unfolding vq_inv_def by blast+
  show ?thesis by (intro conjI I allI ballI impI free push) auto
qed

theorem vq_descriptors_partitioned_witness:
  "\<exists>vq0 vm0 pg' vq vm. vq_allocate 4 0 (Some demo_pages) = Some (Some (vq0, vm0), pg') \<and> set (free_of vq0 vm0) = {i. i < 4} \<and>
     push_chain [(0x5000, 16, 0), (0x5010, 512, 2), (0x5210, 1, 2)] (vq0, vm0) = Some (Some (hd (free_of vq0 vm0)), vq, vm) \<and>
     chained (vm_desc vm) (take 3 (free_of vq0 vm0))"
proof -
  have z: "\<forall>i \<in> set [0..<unat (4 :: u16)]. i < length (vm_desc zero_mem)" by simp
  obtain ds where "init_descs 4 [0..<unat (4 :: u16)] (vm_desc zero_mem) = Some ds" using init_descs_ok[OF z distinct_upt] by blast
  then obtain vq0 vm0 pg' where A: "vq_allocate 4 0 (Some demo_pages) = Some (Some (vq0, vm0), pg')" and q: "queue_size vq0 = 4"
    by (simp add: vq_allocate_def alloc_dma_page_def demo_pages_def static_alloc_new_def allocate_frame.simps)
  note D = vq_descriptors_partitioned[OF A _ _ rtranclp.rtrancl_refl, simplified]
  have "unat (num_free vq0) = 4" using vq_allocate_inv[OF A] by simp
  then show ?thesis using A q D[THEN conjunct2, rule_format, of "[(0x5000, 16, 0), (0x5010, 512, 2), (0x5210, 1, 2)]"] D[THEN conjunct1]
    by (auto simp: free_of_def numeral_3_eq_3)
qed

end
