(* ===== verification/Pci.thy ===== *)
theory Pci
  imports Prelude
begin

text \<open>
  drivers/src/pci.rs: PCI configuration space through the address and data ports. The space is
  what the data port returns for each value of the address port; a write to the data port is
  an argument, since the device decides which bits of a register it keeps.
\<close>

unbundle bit_operations_syntax

type_synonym pci_space = "u32 \<Rightarrow> u32"

record PciDevice =
  bus :: u8
  device :: u8
  pci_function :: u8
  vendor_id :: u16
  device_id :: u16

abbreviation REG_COMMAND :: u8 where "REG_COMMAND \<equiv> 0x04"
abbreviation REG_HEADER_TYPE :: u8 where "REG_HEADER_TYPE \<equiv> 0x0E"
abbreviation REG_BAR0 :: u8 where "REG_BAR0 \<equiv> 0x10"
abbreviation REG_CAP_PTR :: u8 where "REG_CAP_PTR \<equiv> 0x34"

definition pci_address :: "PciDevice \<Rightarrow> u8 \<Rightarrow> u32" where
  "pci_address dev offset =
     0x80000000 OR push_bit 16 (ucast (bus dev)) OR push_bit 11 (ucast (device dev))
       OR push_bit 8 (ucast (pci_function dev)) OR (ucast offset AND 0xFC)"

definition pci_read_u8 :: "pci_space \<Rightarrow> PciDevice \<Rightarrow> u8 \<Rightarrow> u8" where
  "pci_read_u8 sp dev offset = ucast (drop_bit (unat ((offset AND 3) * 8)) (sp (pci_address dev offset)) AND 0xFF)"

definition pci_read_u16 :: "pci_space \<Rightarrow> PciDevice \<Rightarrow> u8 \<Rightarrow> u16" where
  "pci_read_u16 sp dev offset = ucast (drop_bit (unat ((offset AND 2) * 8)) (sp (pci_address dev offset)) AND 0xFFFF)"

definition pci_read_u32 :: "pci_space \<Rightarrow> PciDevice \<Rightarrow> u8 \<Rightarrow> u32" where
  "pci_read_u32 sp dev offset = sp (pci_address dev offset)"

definition get_bar :: "pci_space \<Rightarrow> PciDevice \<Rightarrow> u8 \<Rightarrow> (u64 \<times> u32) option" where
  "get_bar sp dev index =
     (if 5 < index then None
      else let offset = REG_BAR0 + index * 4;
               bar_low = pci_read_u32 sp dev offset
           in if bar_low AND 1 \<noteq> 0 then None
              else let bar_type = drop_bit 1 bar_low AND 3;
                       address = ucast (bar_low AND 0xFFFFFFF0) :: u64
                   in if bar_type = 2
                      then Some (address OR push_bit 32 (ucast (pci_read_u32 sp dev (offset + 4))), 0)
                      else Some (address, 0))"

definition pci_write_u16 :: "(u32 \<Rightarrow> u32 \<Rightarrow> pci_space \<Rightarrow> pci_space) \<Rightarrow> PciDevice \<Rightarrow> u8 \<Rightarrow> u16 \<Rightarrow> pci_space \<Rightarrow> pci_space" where
  "pci_write_u16 cfg_write dev offset value sp =
     (let address = pci_address dev offset;
          current = sp address;
          sh = unat ((offset AND 2) * 8);
          msk = push_bit sh (0xFFFF :: u32)
      in cfg_write address ((current AND NOT msk) OR push_bit sh (ucast value)) sp)"

definition enable_bus_master :: "(u32 \<Rightarrow> u32 \<Rightarrow> pci_space \<Rightarrow> pci_space) \<Rightarrow> PciDevice \<Rightarrow> pci_space \<Rightarrow> pci_space" where
  "enable_bus_master cfg_write dev sp =
     pci_write_u16 cfg_write dev REG_COMMAND (pci_read_u16 sp dev REG_COMMAND OR 0x06) sp"

definition interrupt_line :: "pci_space \<Rightarrow> PciDevice \<Rightarrow> u8" where
  "interrupt_line sp dev = pci_read_u8 sp dev 0x3C"

definition interrupt_pin :: "pci_space \<Rightarrow> PciDevice \<Rightarrow> u8" where
  "interrupt_pin sp dev = pci_read_u8 sp dev 0x3D"

text \<open>The walk along the capability list has no bound: \<open>None\<close> when it never ends.\<close>

partial_function (option) find_cap_from :: "pci_space \<Rightarrow> PciDevice \<Rightarrow> u8 \<Rightarrow> u8 \<Rightarrow> u8 option option" where
  "find_cap_from sp dev cap_id ptr =
     (if ptr = 0 then Some None
      else if pci_read_u8 sp dev ptr = cap_id then Some (Some ptr)
      else find_cap_from sp dev cap_id (pci_read_u8 sp dev (ptr + 1)))"

definition find_capability :: "pci_space \<Rightarrow> PciDevice \<Rightarrow> u8 \<Rightarrow> u8 option option" where
  "find_capability sp dev cap_id =
     (if pci_read_u16 sp dev 0x06 AND 0x10 = 0 then Some None
      else find_cap_from sp dev cap_id (pci_read_u8 sp dev REG_CAP_PTR))"

definition pci_at :: "nat \<Rightarrow> nat \<Rightarrow> nat \<Rightarrow> PciDevice" where
  "pci_at b s f = \<lparr> bus = of_nat b, device = of_nat s, pci_function = of_nat f, vendor_id = 0, device_id = 0 \<rparr>"

definition probe_function :: "pci_space \<Rightarrow> PciDevice \<Rightarrow> PciDevice list" where
  "probe_function sp dev =
     (let vendor = pci_read_u16 sp dev 0
      in if vendor \<noteq> 0xFFFF then [dev\<lparr>vendor_id := vendor, device_id := pci_read_u16 sp dev 2\<rparr>] else [])"

definition func_count :: "pci_space \<Rightarrow> PciDevice \<Rightarrow> nat" where
  "func_count sp dummy = (if pci_read_u8 sp dummy REG_HEADER_TYPE AND 0x80 \<noteq> 0 then 8 else 1)"

definition probe_slot :: "pci_space \<Rightarrow> nat \<Rightarrow> nat \<Rightarrow> PciDevice list" where
  "probe_slot sp b s =
     (if pci_read_u16 sp (pci_at b s 0) 0 = 0xFFFF then []
      else concat (map (\<lambda>f. probe_function sp (pci_at b s f)) [0..<func_count sp (pci_at b s 0)]))"

definition enumerate_pci :: "pci_space \<Rightarrow> PciDevice list" where
  "enumerate_pci sp = concat (map (\<lambda>b. concat (map (probe_slot sp b) [0..<32])) [0..<256])"

section \<open>Registers never alias\<close>

lemma bit_pci_address:
  "bit (pci_address dev off) n \<longleftrightarrow>
     n = 31 \<or> (16 \<le> n \<and> bit (bus dev) (n - 16)) \<or> (11 \<le> n \<and> bit (device dev) (n - 11)) \<or>
     (8 \<le> n \<and> bit (pci_function dev) (n - 8)) \<or> (2 \<le> n \<and> bit off n)"
  if "n < 32"
proof -
  have m: "(0xFC :: u32) = push_bit 2 (mask 6)" "(0x80000000 :: u32) = push_bit 31 1" by (simp_all add: mask_eq_exp_minus_1)
  have h: "bit (0x80000000 :: u32) n \<longleftrightarrow> n = 31" unfolding m(2) bit_push_bit_iff bit_1_iff using that by auto
  have o: "bit (ucast off AND 0xFC :: u32) n \<longleftrightarrow> 2 \<le> n \<and> bit off n"
    unfolding m(1) bit_and_iff bit_push_bit_iff bit_mask_iff bit_ucast_iff using that bit_imp_le_length[of off n] by auto
  show ?thesis
    unfolding pci_address_def bit_or_iff h o bit_push_bit_iff bit_ucast_iff using that by auto
qed

lemma u8_bits_small: "unat (w :: u8) < 2 ^ k \<Longrightarrow> k \<le> n \<Longrightarrow> \<not> bit w n"
proof -
  assume "unat w < 2 ^ k" "k \<le> n"
  then have "unat w < 2 ^ n" by (meson less_le_trans one_le_numeral power_increasing)
  then have "unat w div 2 ^ n = 0" by simp
  then have "\<not> bit (unat w) n" by (simp add: bit_iff_odd)
  then show ?thesis using bit_imp_le_length[of w n] by (auto simp: bit_unsigned_iff)
qed

lemma u8_eqI: "(\<And>n. n < 8 \<Longrightarrow> bit (a :: u8) n = bit b n) \<Longrightarrow> a = b"
  by (rule bit_word_eqI) simp

text \<open>Two registers with the same address are the same register of the same function.\<close>

lemma pci_address_inj:
  assumes "pci_address d a = pci_address e b"
    and "unat (device d) < 32" "unat (device e) < 32" "unat (pci_function d) < 8" "unat (pci_function e) < 8"
  shows "bus d = bus e \<and> device d = device e \<and> pci_function d = pci_function e \<and> a AND 0xFC = b AND 0xFC"
proof -
  have dv: "\<not> bit (device d) n" "\<not> bit (device e) n" if "5 \<le> n" for n using u8_bits_small[of _ 5 n] assms(2,3) that by auto
  have fn: "\<not> bit (pci_function d) n" "\<not> bit (pci_function e) n" if "3 \<le> n" for n using u8_bits_small[of _ 3 n] assms(4,5) that by auto
  have hi: "\<not> bit (w :: u8) n" if "8 \<le> n" for w n using that bit_imp_le_length[of w n] by auto
  note B = bit_pci_address[of _ d a] bit_pci_address[of _ e b]
  have eq: "bit (pci_address d a) n = bit (pci_address e b) n" for n using assms(1) by simp
  have 1: "bus d = bus e"
  proof (rule u8_eqI)
    fix n :: nat assume "n < 8"
    then show "bit (bus d) n = bit (bus e) n" using eq[of "n + 16"] by (simp add: B dv fn hi)
  qed
  have 2: "device d = device e"
  proof (rule u8_eqI)
    fix n :: nat assume "n < 8"
    then show "bit (device d) n = bit (device e) n" using eq[of "n + 11"] by (cases "n < 5") (simp_all add: B dv fn hi)
  qed
  have 3: "pci_function d = pci_function e"
  proof (rule u8_eqI)
    fix n :: nat assume "n < 8"
    then show "bit (pci_function d) n = bit (pci_function e) n" using eq[of "n + 8"] by (cases "n < 3") (simp_all add: B dv fn hi)
  qed
  have m: "(0xFC :: u8) = push_bit 2 (mask 6)" by (simp add: mask_eq_exp_minus_1)
  have "a AND 0xFC = b AND 0xFC"
  proof (rule u8_eqI)
    fix n :: nat assume "n < 8"
    then show "bit (a AND 0xFC) n = bit (b AND 0xFC) n"
      using eq[of n] unfolding m bit_and_iff bit_push_bit_iff by (cases "2 \<le> n") (simp_all add: B)
  qed
  then show ?thesis using 1 2 3 by simp
qed

text \<open>The scan lists exactly the functions whose vendor is not all ones, provided that function 0 of the slot
  exists and, for the other functions, announces several functions.\<close>

lemma enumerate_pci_exact:
  "d \<in> set (enumerate_pci sp) \<longleftrightarrow>
     (\<exists>b < 256. \<exists>s < 32. \<exists>f < func_count sp (pci_at b s 0).
        pci_read_u16 sp (pci_at b s 0) 0 \<noteq> 0xFFFF \<and> pci_read_u16 sp (pci_at b s f) 0 \<noteq> 0xFFFF \<and>
        d = (pci_at b s f)\<lparr>vendor_id := pci_read_u16 sp (pci_at b s f) 0, device_id := pci_read_u16 sp (pci_at b s f) 2\<rparr>)"
proof -
  have f: "d \<in> set (probe_function sp p) \<longleftrightarrow> pci_read_u16 sp p 0 \<noteq> 0xFFFF \<and>
      d = p\<lparr>vendor_id := pci_read_u16 sp p 0, device_id := pci_read_u16 sp p 2\<rparr>" for p
    by (auto simp: probe_function_def Let_def)
  have s: "d \<in> set (probe_slot sp b s) \<longleftrightarrow> pci_read_u16 sp (pci_at b s 0) 0 \<noteq> 0xFFFF \<and>
      (\<exists>f < func_count sp (pci_at b s 0). d \<in> set (probe_function sp (pci_at b s f)))" for b s
    by (auto simp: probe_slot_def)
  have "d \<in> set (enumerate_pci sp) \<longleftrightarrow> (\<exists>b < 256. \<exists>s < 32. d \<in> set (probe_slot sp b s))"
    unfolding enumerate_pci_def set_concat set_map set_upt by (simp del: upt_Suc upt_rec_numeral) (meson atLeastLessThan_iff le0)
  then show ?thesis unfolding s f by blast
qed

end
