(* ===== verification/Virtio.thy ===== *)
theory Virtio
  imports Virtqueue Pci Block_Dev
begin

text \<open>
  drivers/src/virtio.rs and block.rs: the VirtIO block driver. The device is not part of the
  repository: it is an argument \<open>step\<close>, what the device does to the shared state while the driver
  waits, an argument \<open>notify\<close>, its reaction to a doorbell write, and an argument \<open>react\<close>, its
  reaction to a write of a configuration register. \<open>blk_device\<close> states what the VirtIO
  specification promises of \<open>step\<close>.
\<close>

datatype BlockError = IoError | Unsupported

record VirtioCommonCfg =
  device_feature_select :: u32
  device_feature :: u32
  driver_feature_select :: u32
  driver_feature :: u32
  msix_config :: u16
  num_queues :: u16
  device_status :: u8
  config_generation :: u8
  queue_select :: u16
  cfg_queue_size :: u16
  queue_msix_vector :: u16
  queue_enable :: u16
  queue_notify_off :: u16
  queue_desc_lo :: u32
  queue_desc_hi :: u32
  queue_avail_lo :: u32
  queue_avail_hi :: u32
  queue_used_lo :: u32
  queue_used_hi :: u32

text \<open>Pointers are addresses, 0 the null pointer. The registers behind \<open>common_cfg\<close> are \<open>hw_cfg\<close>, the memory
  of the queue \<open>hw_vm\<close>; \<open>hw_mem\<close> is physical memory, which holds the DMA buffer.\<close>

record VirtioBlock =
  common_cfg :: u64
  notify_cfg_base :: u64
  notify_off_multiplier :: u32
  isr_cfg :: u64
  device_cfg :: u64
  pci_dev :: PciDevice
  queue :: "Virtqueue option"
  vb_hhdm_offset :: u64
  dma_buf :: u64

record 'd hw =
  hw_dev :: 'd
  hw_cfg :: VirtioCommonCfg
  hw_vm :: VirtqMem
  hw_mem :: "u64 \<Rightarrow> u8"

abbreviation STATUS_ACKNOWLEDGE :: u8 where "STATUS_ACKNOWLEDGE \<equiv> 1"
abbreviation STATUS_DRIVER :: u8 where "STATUS_DRIVER \<equiv> 2"
abbreviation STATUS_DRIVER_OK :: u8 where "STATUS_DRIVER_OK \<equiv> 4"
abbreviation STATUS_FEATURES_OK :: u8 where "STATUS_FEATURES_OK \<equiv> 8"
abbreviation VIRTIO_BLK_T_IN :: u32 where "VIRTIO_BLK_T_IN \<equiv> 0"
abbreviation VIRTIO_BLK_T_OUT :: u32 where "VIRTIO_BLK_T_OUT \<equiv> 1"
abbreviation VIRTIO_BLK_S_OK :: u8 where "VIRTIO_BLK_S_OK \<equiv> 0"

section \<open>Initialisation\<close>

record VirtioCaps =
  cap_common :: "u64 option"
  cap_notify :: u64
  cap_multiplier :: u32
  cap_isr :: u64
  cap_device :: u64

text \<open>One capability; \<open>map_mmio\<close> is the caller's closure with its state \<open>'s\<close>.\<close>

definition virtio_cap ::
    "pci_space \<Rightarrow> PciDevice \<Rightarrow> (u64 \<Rightarrow> u64 \<Rightarrow> 's \<Rightarrow> u64 \<times> 's) \<Rightarrow> u8 \<Rightarrow> VirtioCaps \<times> 's \<Rightarrow> VirtioCaps \<times> 's" where
  "virtio_cap sp dev map_mmio offset st =
     (case st of (caps, s) \<Rightarrow>
        let cfg_type = pci_read_u8 sp dev (offset + 3);
            bar_idx = pci_read_u8 sp dev (offset + 4);
            offset_in_bar = pci_read_u32 sp dev (offset + 8);
            len = pci_read_u32 sp dev (offset + 12)
        in case get_bar sp dev bar_idx of
             None \<Rightarrow> (caps, s)
           | Some (bar_phys, _) \<Rightarrow>
               (case map_mmio (bar_phys + ucast offset_in_bar) (ucast len) s of (base, s) \<Rightarrow>
                  (if cfg_type = 1 then caps\<lparr>cap_common := Some base\<rparr>
                   else if cfg_type = 2 then caps\<lparr>cap_notify := base, cap_multiplier := pci_read_u32 sp dev (offset + 16)\<rparr>
                   else if cfg_type = 3 then caps\<lparr>cap_isr := base\<rparr>
                   else if cfg_type = 4 then caps\<lparr>cap_device := base\<rparr>
                   else caps, s)))"

partial_function (option) walk_caps ::
    "pci_space \<Rightarrow> PciDevice \<Rightarrow> (u64 \<Rightarrow> u64 \<Rightarrow> 's \<Rightarrow> u64 \<times> 's) \<Rightarrow> u8 option \<Rightarrow> VirtioCaps \<times> 's \<Rightarrow> (VirtioCaps \<times> 's) option" where
  "walk_caps sp dev map_mmio ptr st =
     (case ptr of
        None \<Rightarrow> Some st
      | Some offset \<Rightarrow>
          (let nxt = pci_read_u8 sp dev (offset + 1)
           in walk_caps sp dev map_mmio (if nxt \<noteq> 0 then Some nxt else None) (virtio_cap sp dev map_mmio offset st)))"

text \<open>Every register write is followed by the device's reaction.\<close>

definition or_status :: "(VirtioCommonCfg \<Rightarrow> VirtioCommonCfg) \<Rightarrow> u8 \<Rightarrow> VirtioCommonCfg \<Rightarrow> VirtioCommonCfg" where
  "or_status react b cfg = react (cfg\<lparr>device_status := device_status cfg OR b\<rparr>)"

definition negotiate :: "(VirtioCommonCfg \<Rightarrow> VirtioCommonCfg) \<Rightarrow> VirtioCommonCfg \<Rightarrow> bool \<times> VirtioCommonCfg" where
  "negotiate react cfg =
     (let cfg = react (cfg\<lparr>device_status := 0\<rparr>);
          cfg = or_status react STATUS_ACKNOWLEDGE cfg;
          cfg = or_status react STATUS_DRIVER cfg;
          cfg = react (cfg\<lparr>device_feature_select := 0\<rparr>);
          features = device_feature cfg;
          cfg = react (cfg\<lparr>driver_feature_select := 0\<rparr>);
          cfg = react (cfg\<lparr>driver_feature := features\<rparr>);
          cfg = react (cfg\<lparr>device_feature_select := 1\<rparr>);
          features_hi = device_feature cfg;
          cfg = react (cfg\<lparr>driver_feature_select := 1\<rparr>);
          cfg = react (cfg\<lparr>driver_feature := features_hi AND 1\<rparr>);
          cfg = or_status react STATUS_FEATURES_OK cfg
      in (device_status cfg AND STATUS_FEATURES_OK \<noteq> 0, cfg))"

definition virtio_init ::
    "(VirtioCommonCfg \<Rightarrow> VirtioCommonCfg) \<Rightarrow> (u32 \<Rightarrow> u32 \<Rightarrow> pci_space \<Rightarrow> pci_space) \<Rightarrow>
     (u64 \<Rightarrow> u64 \<Rightarrow> 's \<Rightarrow> u64 \<times> 's) \<Rightarrow> PciDevice \<Rightarrow> u64 \<Rightarrow> pci_space \<times> VirtioCommonCfg \<times> 's \<Rightarrow>
     (VirtioBlock option \<times> pci_space \<times> VirtioCommonCfg \<times> 's) option" where
  "virtio_init react cfg_write map_mmio dev hhdm_offset st =
     (case st of (sp, cfg, s) \<Rightarrow>
        if vendor_id dev \<noteq> 0x1AF4 \<or> device_id dev < 0x1040 then Some (None, st)
        else
          do { let sp = enable_bus_master cfg_write dev sp;
               ptr \<leftarrow> find_capability sp dev 0x09;
               (caps, s) \<leftarrow> walk_caps sp dev map_mmio ptr
                 (\<lparr> cap_common = None, cap_notify = 0, cap_multiplier = 0, cap_isr = 0, cap_device = 0 \<rparr>, s);
               case cap_common caps of
                 None \<Rightarrow> Some (None, sp, cfg, s)
               | Some cfg_ptr \<Rightarrow>
                   (case negotiate react cfg of
                      (False, cfg) \<Rightarrow> Some (None, sp, cfg, s)
                    | (True, cfg) \<Rightarrow>
                        Some (Some \<lparr> common_cfg = cfg_ptr, notify_cfg_base = cap_notify caps,
                                notify_off_multiplier = cap_multiplier caps, isr_cfg = cap_isr caps,
                                device_cfg = cap_device caps, pci_dev = dev, queue = None,
                                vb_hhdm_offset = hhdm_offset, dma_buf = 0 \<rparr>, sp, cfg, s)) })"

definition program_queue :: "(VirtioCommonCfg \<Rightarrow> VirtioCommonCfg) \<Rightarrow> Virtqueue \<Rightarrow> VirtioCommonCfg \<Rightarrow> VirtioCommonCfg" where
  "program_queue react vq cfg =
     (let cfg = react (cfg\<lparr>queue_desc_lo := ucast (desc_phys vq)\<rparr>);
          cfg = react (cfg\<lparr>queue_desc_hi := ucast (drop_bit 32 (desc_phys vq))\<rparr>);
          cfg = react (cfg\<lparr>queue_avail_lo := ucast (avail_phys vq)\<rparr>);
          cfg = react (cfg\<lparr>queue_avail_hi := ucast (drop_bit 32 (avail_phys vq))\<rparr>);
          cfg = react (cfg\<lparr>queue_used_lo := ucast (used_phys vq)\<rparr>);
          cfg = react (cfg\<lparr>queue_used_hi := ucast (drop_bit 32 (used_phys vq))\<rparr>)
      in react (cfg\<lparr>queue_enable := 1\<rparr>))"

definition setup_queues ::
    "(VirtioCommonCfg \<Rightarrow> VirtioCommonCfg) \<Rightarrow> VirtioBlock \<times> 'd hw \<times> 'm PageAllocator option \<Rightarrow>
     (bool \<times> VirtioBlock \<times> 'd hw \<times> 'm PageAllocator option) option" where
  "setup_queues react st =
     (case st of (vb, hw, pg) \<Rightarrow>
        let cfg = react ((hw_cfg hw)\<lparr>queue_select := 0\<rparr>);
            qs = cfg_queue_size cfg;
            hw = hw\<lparr>hw_cfg := cfg\<rparr>
        in if qs = 0 then Some (False, vb, hw, pg)
           else
             do { (q, pg) \<leftarrow> vq_allocate qs (vb_hhdm_offset vb) pg;
                  case q of
                    None \<Rightarrow> Some (False, vb, hw, pg)
                  | Some (vq, vm) \<Rightarrow>
                      do { let cfg = program_queue react vq cfg;
                           let vb = vb\<lparr>queue := Some vq\<rparr>;
                           let hw = hw\<lparr>hw_cfg := cfg, hw_vm := vm\<rparr>;
                           (buf, pg) \<leftarrow> alloc_dma_page (vb_hhdm_offset vb) pg;
                           case buf of
                             None \<Rightarrow> Some (False, vb, hw, pg)
                           | Some p \<Rightarrow>
                               Some (True, vb\<lparr>dma_buf := p\<rparr>,
                                     hw\<lparr>hw_cfg := or_status react STATUS_DRIVER_OK cfg,
                                        hw_mem := mem_write (p - vb_hhdm_offset vb) (replicate 4096 0) (hw_mem hw)\<rparr>, pg) } })"

section \<open>Requests\<close>

text \<open>The DMA buffer: the header at offset 0, the data at 16, the status at 528.\<close>

abbreviation DMA_DATA :: u64 where "DMA_DATA \<equiv> 16"
abbreviation DMA_STATUS :: u64 where "DMA_STATUS \<equiv> 528"

definition blk_header :: "u32 \<Rightarrow> u64 \<Rightarrow> bytes" where
  "blk_header ty sector = to_le 4 ty @ to_le 4 (0 :: u32) @ to_le 8 sector"

definition blk_prepare :: "u32 \<Rightarrow> u64 \<Rightarrow> u64 \<Rightarrow> (u64 \<Rightarrow> u8) \<Rightarrow> u64 \<Rightarrow> u8" where
  "blk_prepare ty sector base m = mem_write (base + DMA_STATUS) [0xFF] (mem_write base (blk_header ty sector) m)"

definition notify_queue :: "(u64 \<Rightarrow> 'd \<Rightarrow> 'd) \<Rightarrow> VirtioBlock \<Rightarrow> 'd hw \<Rightarrow> 'd hw" where
  "notify_queue notify vb hw =
     hw\<lparr>hw_dev := notify (notify_cfg_base vb + ucast (ucast (queue_notify_off (hw_cfg hw)) * notify_off_multiplier vb)) (hw_dev hw)\<rparr>"

text \<open>The driver polls until the device has used a chain; \<open>None\<close> when it never does.\<close>

partial_function (option) wait_used :: "('d hw \<Rightarrow> 'd hw) \<Rightarrow> Virtqueue \<Rightarrow> 'd hw \<Rightarrow> (Virtqueue \<times> 'd hw) option" where
  "wait_used step vq hw =
     do { (e, vq) \<leftarrow> pop_used (vq, hw_vm hw);
          case e of
            Some _ \<Rightarrow> Some (vq, hw)
          | None \<Rightarrow> wait_used step vq (step hw) }"

definition blk_submit ::
    "('d hw \<Rightarrow> 'd hw) \<Rightarrow> (u64 \<Rightarrow> 'd \<Rightarrow> 'd) \<Rightarrow> VirtioBlock \<Rightarrow> (u64 \<times> u32 \<times> u16) list \<Rightarrow> Virtqueue \<times> 'd hw \<Rightarrow>
     (u16 option \<times> Virtqueue \<times> 'd hw) option" where
  "blk_submit step notify vb chain st =
     (case st of (vq, hw) \<Rightarrow>
        do { (h, vq, vm) \<leftarrow> push_chain chain (vq, hw_vm hw);
             let hw = hw\<lparr>hw_vm := vm\<rparr>;
             case h of
               None \<Rightarrow> Some (None, vq, hw)
             | Some head \<Rightarrow>
                 do { (vq, hw) \<leftarrow> wait_used step vq (notify_queue notify vb hw);
                      Some (Some head, vq, hw) } })"

definition blk_release :: "u16 \<Rightarrow> Virtqueue \<times> 'd hw \<Rightarrow> (Virtqueue \<times> 'd hw) option" where
  "blk_release head st =
     (case st of (vq, hw) \<Rightarrow>
        do { (vq, ds) \<leftarrow> free_chain head (vq, vm_desc (hw_vm hw));
             Some (vq, hw\<lparr>hw_vm := (hw_vm hw)\<lparr>vm_desc := ds\<rparr>\<rparr>) })"

definition blk_read_sector ::
    "('d hw \<Rightarrow> 'd hw) \<Rightarrow> (u64 \<Rightarrow> 'd \<Rightarrow> 'd) \<Rightarrow> u64 \<Rightarrow> VirtioBlock \<times> 'd hw \<Rightarrow> ((BlockError + bytes) \<times> VirtioBlock \<times> 'd hw) option" where
  "blk_read_sector step notify sector st =
     (case st of (vb, hw) \<Rightarrow>
        case queue vb of
          None \<Rightarrow> Some (Inl IoError, vb, hw)
        | Some vq \<Rightarrow>
            if dma_buf vb = 0 then Some (Inl IoError, vb, hw)
            else
              do { let base = dma_buf vb - vb_hhdm_offset vb;
                   let hw = hw\<lparr>hw_mem := blk_prepare VIRTIO_BLK_T_IN sector base (hw_mem hw)\<rparr>;
                   (h, vq, hw) \<leftarrow> blk_submit step notify vb
                     [(base, 16, 0), (base + DMA_DATA, 512, VIRTQ_DESC_F_WRITE), (base + DMA_STATUS, 1, VIRTQ_DESC_F_WRITE)] (vq, hw);
                   case h of
                     None \<Rightarrow> Some (Inl IoError, vb\<lparr>queue := Some vq\<rparr>, hw)
                   | Some head \<Rightarrow>
                       do { let status = hw_mem hw (base + DMA_STATUS);
                            let data = mem_read (hw_mem hw) (base + DMA_DATA) 512;
                            (vq, hw) \<leftarrow> blk_release head (vq, hw);
                            Some (if status \<noteq> VIRTIO_BLK_S_OK then Inl IoError else Inr data, vb\<lparr>queue := Some vq\<rparr>, hw) } })"

definition blk_write_sector ::
    "('d hw \<Rightarrow> 'd hw) \<Rightarrow> (u64 \<Rightarrow> 'd \<Rightarrow> 'd) \<Rightarrow> u64 \<Rightarrow> bytes \<Rightarrow> VirtioBlock \<times> 'd hw \<Rightarrow> ((BlockError + unit) \<times> VirtioBlock \<times> 'd hw) option" where
  "blk_write_sector step notify sector buf st =
     (case st of (vb, hw) \<Rightarrow>
        case queue vb of
          None \<Rightarrow> Some (Inl IoError, vb, hw)
        | Some vq \<Rightarrow>
            if dma_buf vb = 0 then Some (Inl IoError, vb, hw)
            else
              do { let base = dma_buf vb - vb_hhdm_offset vb;
                   let hw = hw\<lparr>hw_mem := mem_write (base + DMA_DATA) buf (blk_prepare VIRTIO_BLK_T_OUT sector base (hw_mem hw))\<rparr>;
                   (h, vq, hw) \<leftarrow> blk_submit step notify vb
                     [(base, 16, 0), (base + DMA_DATA, 512, 0), (base + DMA_STATUS, 1, VIRTQ_DESC_F_WRITE)] (vq, hw);
                   case h of
                     None \<Rightarrow> Some (Inl IoError, vb\<lparr>queue := Some vq\<rparr>, hw)
                   | Some head \<Rightarrow>
                       do { let status = hw_mem hw (base + DMA_STATUS);
                            (vq, hw) \<leftarrow> blk_release head (vq, hw);
                            Some (if status \<noteq> VIRTIO_BLK_S_OK then Inl IoError else Inr (), vb\<lparr>queue := Some vq\<rparr>, hw) } })"

text \<open>The capacity is the first field of the device configuration, \<open>cap\<close>.\<close>

definition blk_capacity :: "('d \<Rightarrow> u64) \<Rightarrow> VirtioBlock \<times> 'd hw \<Rightarrow> u64" where
  "blk_capacity cap st = (case st of (vb, hw) \<Rightarrow> if device_cfg vb = 0 then 0 else cap (hw_dev hw))"

section \<open>The block device node\<close>

text \<open>drivers/src/block.rs, over the sectors the driver reads and writes. \<open>pos\<close> and \<open>end_pos\<close> are byte
  positions; the sum \<open>offset + buf.len()\<close> wraps.\<close>

lemma chunk_advance:
  fixes pos end_pos :: u64
  assumes "pos < end_pos" "chunk \<le> unat (end_pos - pos)"
  shows "unat (end_pos - (pos + of_nat chunk)) = unat (end_pos - pos) - chunk" "pos + of_nat chunk \<le> end_pos"
proof -
  have c: "unat (of_nat chunk :: u64) = chunk" using assms(2) unat_u64_less[of "end_pos - pos"] by (intro unat_of_nat_less) simp
  then have "of_nat chunk \<le> end_pos - pos" using assms(2) by (simp add: word_le_nat_alt)
  then have "unat (end_pos - pos - of_nat chunk) = unat (end_pos - pos) - chunk" using c by (simp add: unat_sub)
  then show "unat (end_pos - (pos + of_nat chunk)) = unat (end_pos - pos) - chunk" by (simp add: diff_diff_add)
  have d: "unat (end_pos - pos) = unat end_pos - unat pos" using assms(1) by (intro unat_sub) simp
  then have "unat (pos + of_nat chunk) = unat pos + chunk"
    using assms c unat_u64_less[of end_pos] by (subst unat_plus_if_size) (simp add: word_size word_less_nat_alt)
  then show "pos + of_nat chunk \<le> end_pos" using d assms by (simp add: word_le_nat_alt word_less_nat_alt)
qed

lemma chunk_pos: "pos < end_pos \<Longrightarrow> 0 < min (SECTOR - unat ((pos :: u64) mod 512)) (unat (end_pos - pos))"
  using sector_offset_less[of pos] by (simp add: unat_gt_0 word_neq_0_conv)

function blk_node_read_loop :: "disk \<Rightarrow> u64 \<Rightarrow> u64 \<Rightarrow> bytes" where
  "blk_node_read_loop dev pos end_pos =
     (if pos < end_pos then
        (let sector = pos div 512; off_in_sector = unat (pos mod 512);
             chunk = min (SECTOR - off_in_sector) (unat (end_pos - pos))
         in case dev_read dev sector of
              None \<Rightarrow> []
            | Some sector_buf \<Rightarrow>
                take chunk (drop off_in_sector sector_buf) @ blk_node_read_loop dev (pos + of_nat chunk) end_pos)
      else [])"
  by pat_completeness auto
termination
  by (relation "measure (\<lambda>(dev, pos, end_pos). unat (end_pos - pos))") (use chunk_advance(1) chunk_pos in \<open>auto simp: Let_def\<close>)

function blk_node_write_loop :: "bytes \<Rightarrow> u64 \<Rightarrow> u64 \<Rightarrow> bytes \<Rightarrow> disk \<Rightarrow> nat \<times> disk" where
  "blk_node_write_loop sector_buf pos end_pos buf dev =
     (if pos < end_pos then
        (let sector = pos div 512; off_in_sector = unat (pos mod 512);
             chunk = min (SECTOR - off_in_sector) (unat (end_pos - pos))
         in case (if chunk < SECTOR then dev_read dev sector else Some sector_buf) of
              None \<Rightarrow> (0, dev)
            | Some sb \<Rightarrow>
                (let sb = overlay sb off_in_sector (take chunk buf)
                 in case dev_write dev sector sb of
                      (False, dev1) \<Rightarrow> (0, dev1)
                    | (True, dev1) \<Rightarrow>
                        let (n, dev2) = blk_node_write_loop sb (pos + of_nat chunk) end_pos (drop chunk buf) dev1
                        in (chunk + n, dev2)))
      else (0, dev))"
  by pat_completeness auto
termination
  by (relation "measure (\<lambda>(sb, pos, end_pos, buf, dev). unat (end_pos - pos))") (use chunk_advance(1) chunk_pos in \<open>auto simp: Let_def\<close>)

declare blk_node_read_loop.simps [simp del] blk_node_write_loop.simps [simp del]

definition blk_node_read :: "disk option \<Rightarrow> u64 \<Rightarrow> u64 \<Rightarrow> nat \<Rightarrow> bytes" where
  "blk_node_read blk capacity offset len =
     (case blk of
        None \<Rightarrow> []
      | Some dev \<Rightarrow>
          (let capacity_bytes = capacity * 512
           in if capacity_bytes \<le> offset \<or> len = 0 then []
              else blk_node_read_loop dev offset (min (offset + of_nat len) capacity_bytes)))"

definition blk_node_write :: "disk option \<Rightarrow> u64 \<Rightarrow> u64 \<Rightarrow> bytes \<Rightarrow> nat \<times> disk option" where
  "blk_node_write blk capacity offset buf =
     (case blk of
        None \<Rightarrow> (0, None)
      | Some dev \<Rightarrow>
          (let capacity_bytes = capacity * 512
           in if capacity_bytes \<le> offset \<or> buf = [] then (0, Some dev)
              else case blk_node_write_loop (replicate SECTOR 0) offset (min (offset + of_nat (length buf)) capacity_bytes) buf dev of
                     (n, dev) \<Rightarrow> (n, Some dev)))"

definition blk_node_size :: "disk option \<Rightarrow> u64 \<Rightarrow> u64" where
  "blk_node_size blk capacity = (case blk of None \<Rightarrow> 0 | Some _ \<Rightarrow> capacity * 512)"

lemma blk_node_read_loop_eq: "pos \<le> end_pos \<Longrightarrow> blk_node_read_loop dev pos end_pos = bdev_read_loop dev pos (unat (end_pos - pos))"
proof (induction dev pos end_pos rule: blk_node_read_loop.induct)
  case (1 dev pos end_pos)
  let ?c = "min (SECTOR - unat (pos mod 512)) (unat (end_pos - pos))"
  show ?case
  proof (cases "pos < end_pos")
    case True
    then have "blk_node_read_loop dev (pos + of_nat ?c) end_pos = bdev_read_loop dev (pos + of_nat ?c) (unat (end_pos - pos) - ?c)"
      if "dev_read dev (pos div 512) = Some b" for b
      using "1.IH"[OF True refl refl refl that] chunk_advance[OF True, of ?c] by simp
    moreover have "unat (end_pos - pos) \<noteq> 0" using chunk_pos[OF True] by linarith
    ultimately show ?thesis using True
      by (subst blk_node_read_loop.simps, subst bdev_read_loop.simps) (simp add: Let_def split: option.splits)
  next
    case False
    then have "pos = end_pos" using "1.prems" by simp
    then show ?thesis by (simp add: blk_node_read_loop.simps bdev_read_loop.simps)
  qed
qed

lemma blk_node_write_loop_eq:
  "pos \<le> end_pos \<Longrightarrow> unat (end_pos - pos) = length buf \<Longrightarrow>
     blk_node_write_loop old pos end_pos buf dev = bdev_write_loop old pos buf dev"
proof (induction old pos end_pos buf dev rule: blk_node_write_loop.induct)
  case (1 old pos end_pos buf dev)
  define c where "c = min (SECTOR - unat (pos mod 512)) (length buf)"
  show ?case
  proof (cases "pos < end_pos")
    case True
    have nz: "buf \<noteq> []" and c: "c \<le> unat (end_pos - pos)" using chunk_pos[OF True] "1.prems"(2) by (auto simp: c_def)
    have guard: "c < SECTOR \<longleftrightarrow> unat (pos mod 512) \<noteq> 0 \<or> length buf < SECTOR" using sector_offset_less[of pos] by (auto simp: c_def)
    have IH: "blk_node_write_loop (overlay sb (unat (pos mod 512)) (take c buf)) (pos + of_nat c) end_pos (drop c buf) d1 =
        bdev_write_loop (overlay sb (unat (pos mod 512)) (take c buf)) (pos + of_nat c) (drop c buf) d1"
      if "(if c < SECTOR then dev_read dev (pos div 512) else Some old) = Some sb"
        "dev_write dev (pos div 512) (overlay sb (unat (pos mod 512)) (take c buf)) = (True, d1)" for sb d1
      using "1.IH"[OF True refl refl _ _ refl _ refl] that chunk_advance[OF True c] "1.prems"(2) c_def by simp
    define rd where "rd = (if c < SECTOR then dev_read dev (pos div 512) else Some old)"
    have L: "blk_node_write_loop old pos end_pos buf dev = (case rd of None \<Rightarrow> (0, dev) | Some sb \<Rightarrow>
        (let sb = overlay sb (unat (pos mod 512)) (take c buf)
         in case dev_write dev (pos div 512) sb of (False, dev1) \<Rightarrow> (0, dev1)
            | (True, dev1) \<Rightarrow> let (n, dev2) = blk_node_write_loop sb (pos + of_nat c) end_pos (drop c buf) dev1 in (c + n, dev2)))"
      using True "1.prems"(2) by (subst blk_node_write_loop.simps) (simp only: Let_def c_def[symmetric] rd_def if_True)
    have R: "bdev_write_loop old pos buf dev = (case rd of None \<Rightarrow> (0, dev) | Some sb \<Rightarrow>
        (let sb = overlay sb (unat (pos mod 512)) (take c buf)
         in case dev_write dev (pos div 512) sb of (False, dev1) \<Rightarrow> (0, dev1)
            | (True, dev1) \<Rightarrow> let (n, dev2) = bdev_write_loop sb (pos + of_nat c) (drop c buf) dev1 in (c + n, dev2)))"
      using nz by (subst bdev_write_loop.simps) (simp only: Let_def c_def[symmetric] rd_def guard[symmetric] if_False)
    show ?thesis
    proof (cases rd)
      case (Some sb)
      then show ?thesis using IH[of sb] unfolding L R rd_def[symmetric]
        by (cases "dev_write dev (pos div 512) (overlay sb (unat (pos mod 512)) (take c buf))") (auto simp: Let_def split: bool.splits)
    qed (simp add: L R)
  next
    case False
    then have "pos = end_pos" using "1.prems" by simp
    then show ?thesis using "1.prems"(2) by (simp add: blk_node_write_loop.simps bdev_write_loop.simps)
  qed
qed

text \<open>Inside the capacity the node of block.rs and the node of the file system adapter are the same.\<close>

lemma blk_node_equivalent:
  assumes "unat offset + len \<le> unat (capacity * 512)" "unat offset + length buf \<le> unat (capacity * 512)"
  shows "blk_node_read (Some dev) capacity offset len = bdev_read dev offset len"
    "blk_node_write (Some dev) capacity offset buf = map_prod id Some (bdev_write offset buf dev)"
proof -
  have e: "unat (offset + of_nat n) = unat offset + n \<and> unat (offset + of_nat n - offset) = n \<and> offset \<le> offset + of_nat n \<and>
      min (offset + of_nat n) (capacity * 512) = offset + of_nat n"
    if "unat offset + n \<le> unat (capacity * 512)" for n
  proof -
    have n: "unat (of_nat n :: u64) = n" using that unat_u64_less[of "capacity * 512"] by (intro unat_of_nat_less) simp
    moreover have "unat (offset + of_nat n) = unat offset + n"
      using that n unat_u64_less[of "capacity * 512"] by (subst unat_plus_if_size) (simp add: word_size)
    ultimately show ?thesis using that by (simp add: word_le_nat_alt min_def)
  qed
  show "blk_node_read (Some dev) capacity offset len = bdev_read dev offset len"
    using e[OF assms(1)] assms(1) blk_node_read_loop_eq[of offset "offset + of_nat len" dev]
    by (auto simp: blk_node_read_def bdev_read_def Let_def word_le_nat_alt bdev_read_loop.simps)
  show "blk_node_write (Some dev) capacity offset buf = map_prod id Some (bdev_write offset buf dev)"
  proof (cases "buf = []")
    case True
    then show ?thesis by (simp add: blk_node_write_def bdev_write_def bdev_write_loop.simps Let_def)
  next
    case False
    then have "\<not> capacity * 512 \<le> offset" using assms(2) by (cases buf) (simp_all add: word_le_nat_alt)
    then show ?thesis
      using False e[OF assms(2)] blk_node_write_loop_eq[of offset "offset + of_nat (length buf)" buf "replicate SECTOR 0" dev]
      by (simp add: blk_node_write_def bdev_write_def Let_def split: prod.splits)
  qed
qed

section \<open>What a VirtIO block device does\<close>

text \<open>The next available chain is a block request: a header, a data buffer the device may write exactly for a
  read, and a status byte it may write.\<close>

definition blk_request :: "u16 \<Rightarrow> 'd hw \<Rightarrow> u16 \<Rightarrow> u32 \<Rightarrow> u64 \<Rightarrow> u64 \<Rightarrow> u64 \<Rightarrow> bool" where
  "blk_request qs hw head ty sector data st \<longleftrightarrow>
     (let vm = hw_vm hw; ds = vm_desc vm; m = hw_mem hw; a = d_addr (ds ! unat head); i = d_next (ds ! unat head); j = d_next (ds ! unat i)
      in vm_avail_idx vm = vm_used_idx vm + 1 \<and> vm_avail_ring vm ! unat (vm_used_idx vm mod qs) = head \<and>
         chained ds [head, i, j] \<and> d_len (ds ! unat head) = 16 \<and> d_len (ds ! unat i) = 512 \<and> d_len (ds ! unat j) = 1 \<and>
         of_le (mem_read m a 4) = ty \<and> of_le (mem_read m (a + 8) 8) = sector \<and>
         d_addr (ds ! unat i) = data \<and> d_addr (ds ! unat j) = st \<and> 512 \<le> unat (st - data) \<and>
         \<not> bit (d_flags (ds ! unat head)) 1 \<and> (bit (d_flags (ds ! unat i)) 1 \<longleftrightarrow> ty = VIRTIO_BLK_T_IN) \<and> bit (d_flags (ds ! unat j)) 1)"

text \<open>The effect of serving it on the sectors \<open>c\<close> and memory \<open>m\<close>.\<close>

definition blk_served :: "u32 \<Rightarrow> u64 \<Rightarrow> u64 \<Rightarrow> u64 \<Rightarrow> disk \<times> (u64 \<Rightarrow> u8) \<Rightarrow> disk \<times> (u64 \<Rightarrow> u8) \<Rightarrow> bool" where
  "blk_served ty sector data st cm cm' \<longleftrightarrow>
     (case (cm, cm') of ((c, m), (c', m')) \<Rightarrow>
        if ty = VIRTIO_BLK_T_IN then
          c' = c \<and> (case dev_read c sector of Some b \<Rightarrow> mem_read m' data 512 = b \<and> m' st = 0 | None \<Rightarrow> m' st \<noteq> 0)
        else
          c' = snd (dev_write c sector (mem_read m data 512)) \<and> (m' st = 0 \<longleftrightarrow> fst (dev_write c sector (mem_read m data 512))))"

text \<open>A device with sectors \<open>content\<close> serves every request after finitely many steps and then reports it
  in the used ring.\<close>

definition blk_device :: "('d hw \<Rightarrow> 'd hw) \<Rightarrow> ('d \<Rightarrow> disk) \<Rightarrow> u16 \<Rightarrow> bool" where
  "blk_device step content qs \<longleftrightarrow>
     (\<forall>hw head ty sector data st. blk_request qs hw head ty sector data st \<and> ty \<in> {VIRTIO_BLK_T_IN, VIRTIO_BLK_T_OUT} \<and>
          disk_wf (content (hw_dev hw)) \<longrightarrow>
        (\<exists>n len. (\<forall>k < n. vm_used_idx (hw_vm ((step ^^ k) hw)) = vm_used_idx (hw_vm hw)) \<and>
           hw_vm ((step ^^ n) hw) = (hw_vm hw)\<lparr>vm_used_idx := vm_used_idx (hw_vm hw) + 1,
             vm_used_ring := (vm_used_ring (hw_vm hw))[unat (vm_used_idx (hw_vm hw) mod qs) := (ucast head, len)]\<rparr> \<and>
           blk_served ty sector data st (content (hw_dev hw), hw_mem hw)
             (content (hw_dev ((step ^^ n) hw)), hw_mem ((step ^^ n) hw))))"

section \<open>The driver serves requests\<close>

definition queue_ok :: "u16 \<Rightarrow> Virtqueue \<Rightarrow> VirtqMem \<Rightarrow> bool" where
  "queue_ok qs vq vm \<longleftrightarrow> vq_inv vq vm {} \<and> queue_size vq = qs \<and> 3 \<le> unat qs \<and>
     last_used_idx vq = vm_used_idx vm \<and> vm_avail_idx vm = vm_used_idx vm"

definition virtio_ok :: "u16 \<Rightarrow> VirtioBlock \<Rightarrow> 'd hw \<Rightarrow> bool" where
  "virtio_ok qs vb hw \<longleftrightarrow> dma_buf vb \<noteq> 0 \<and> (\<exists>vq. queue vb = Some vq \<and> queue_ok qs vq (hw_vm hw))"

lemma wait_used_ok:
  assumes "\<forall>k < n. vm_used_idx (hw_vm ((step ^^ k) hw)) = last_used_idx vq"
    and "pop_used (vq, hw_vm ((step ^^ n) hw)) = Some (Some e, vq')"
  shows "wait_used step vq hw = Some (vq', (step ^^ n) hw)"
  using assms
proof (induction n arbitrary: hw)
  case 0
  then show ?case by (subst wait_used.simps) simp
next
  case (Suc n)
  have s: "(step ^^ k) (step hw) = (step ^^ Suc k) hw" for k by (simp add: funpow_swap1)
  have "wait_used step vq (step hw) = Some (vq', (step ^^ n) (step hw))"
    by (rule Suc.IH) (use Suc.prems in \<open>simp_all only: s, auto\<close>)
  moreover have "pop_used (vq, hw_vm hw) = Some (None, vq)" using Suc.prems(1)[rule_format, of 0] by (simp add: pop_used_def)
  ultimately show ?case by (subst wait_used.simps) (simp only: s Option.bind.bind_lunit prod.case option.case)
qed

lemma queue_ok_room: "queue_ok qs vq vm \<Longrightarrow> 3 \<le> unat (num_free vq)"
proof -
  assume "queue_ok qs vq vm"
  then have "set (free_of vq vm) = {i. i < qs}" "distinct (free_of vq vm)" "3 \<le> unat qs" by (auto simp: queue_ok_def vq_inv_def)
  then show ?thesis using distinct_card[of "free_of vq vm"] by (simp add: card_u16_less free_of_def)
qed

definition blk_chain :: "u32 \<Rightarrow> u64 \<Rightarrow> (u64 \<times> u32 \<times> u16) list" where
  "blk_chain ty base = [(base, 16, 0), (base + DMA_DATA, 512, if ty = VIRTIO_BLK_T_IN then VIRTQ_DESC_F_WRITE else 0),
     (base + DMA_STATUS, 1, VIRTQ_DESC_F_WRITE)]"

lemma blk_push_request:
  assumes "queue_ok qs vq (hw_vm hw)" "of_le (mem_read (hw_mem hw) base 4) = ty" "of_le (mem_read (hw_mem hw) (base + 8) 8) = sector"
  obtains head i j vq' vm' where "push_chain (blk_chain ty base) (vq, hw_vm hw) = Some (Some head, vq', vm')"
    "vq_inv vq' vm' {[head, i, j]}" "queue_size vq' = qs" "last_used_idx vq' = vm_used_idx vm'"
    "\<And>d. blk_request qs (hw\<lparr>hw_dev := d, hw_vm := vm'\<rparr>) head ty sector (base + DMA_DATA) (base + DMA_STATUS)"
proof -
  note Q = assms(1)[unfolded queue_ok_def]
  have "blk_chain ty base \<noteq> []" "length (blk_chain ty base) \<le> unat (num_free vq)"
    using queue_ok_room[OF assms(1)] by (simp_all add: blk_chain_def)
  then obtain vq' vm' cs where c: "cs = take (length (blk_chain ty base)) (free_of vq (hw_vm hw))"
    and P: "push_chain (blk_chain ty base) (vq, hw_vm hw) = Some (Some (hd cs), vq', vm')" "vq_inv vq' vm' {cs}"
    and F: "\<forall>k < length (blk_chain ty base). vm_desc vm' ! unat (cs ! k) =
        fill_desc (Suc k = length (blk_chain ty base)) (blk_chain ty base ! k) (vm_desc (hw_vm hw) ! unat (cs ! k))"
    and A: "vm_avail_idx vm' = vm_avail_idx (hw_vm hw) + 1" "vm_avail_ring vm' ! unat (vm_avail_idx (hw_vm hw) mod queue_size vq) = hd cs"
    and U: "vm_used_idx vm' = vm_used_idx (hw_vm hw)" "queue_size vq' = queue_size vq" "last_used_idx vq' = last_used_idx vq"
    using Q by (elim conjE) (rule push_chain_ok[of vq "hw_vm hw" "{}" "blk_chain ty base"], auto)
  have "length cs = 3" using c queue_ok_room[OF assms(1)] by (simp add: blk_chain_def free_of_def)
  then obtain h i j where hij: "cs = [h, i, j]" by (auto simp: numeral_3_eq_3 length_Suc_conv)
  have ds: "vm_desc vm' ! unat h = fill_desc False (base, 16, 0) (vm_desc (hw_vm hw) ! unat h)"
    "vm_desc vm' ! unat i = fill_desc False (base + DMA_DATA, 512, if ty = VIRTIO_BLK_T_IN then VIRTQ_DESC_F_WRITE else 0) (vm_desc (hw_vm hw) ! unat i)"
    "vm_desc vm' ! unat j = fill_desc True (base + DMA_STATUS, 1, VIRTQ_DESC_F_WRITE) (vm_desc (hw_vm hw) ! unat j)"
    using F[rule_format, of 0] F[rule_format, of 1] F[rule_format, of 2] by (simp_all add: hij blk_chain_def)
  have ch: "chained (vm_desc vm') [h, i, j]" using P(2) hij by (simp add: vq_inv_def)
  then have nx: "d_next (vm_desc vm' ! unat h) = i" "d_next (vm_desc vm' ! unat i) = j" by simp_all
  have fl: "\<not> bit (d_flags (vm_desc vm' ! unat h)) 1" "bit (d_flags (vm_desc vm' ! unat i)) 1 \<longleftrightarrow> ty = VIRTIO_BLK_T_IN"
    "bit (d_flags (vm_desc vm' ! unat j)) 1" unfolding ds fill_desc_def by (auto simp: bit_simps)
  have "blk_request qs (hw\<lparr>hw_dev := d, hw_vm := vm'\<rparr>) h ty sector (base + DMA_DATA) (base + DMA_STATUS)" for d
    unfolding blk_request_def Let_def using A U Q fl ch assms(2,3) hij
    by (simp add: nx) (simp add: ds fill_desc_def)
  then show thesis using that[of h vq' vm' i j] P hij U Q by simp
qed

lemma blk_submit_ok:
  fixes hw :: "'d hw"
  assumes dev: "blk_device step content qs" "\<forall>a d. content (notify a d) = content d"
    and ok: "queue_ok qs vq (hw_vm hw)" "disk_wf (content (hw_dev hw))" "ty \<in> {VIRTIO_BLK_T_IN, VIRTIO_BLK_T_OUT}"
    and hdr: "of_le (mem_read (hw_mem hw) base 4) = ty" "of_le (mem_read (hw_mem hw) (base + 8) 8) = sector"
  obtains head vq' hw' vq'' hw'' where "blk_submit step notify vb (blk_chain ty base) (vq, hw) = Some (Some head, vq', hw')"
    "blk_served ty sector (base + DMA_DATA) (base + DMA_STATUS) (content (hw_dev hw), hw_mem hw) (content (hw_dev hw'), hw_mem hw')"
    "blk_release head (vq', hw') = Some (vq'', hw'')" "queue_ok qs vq'' (hw_vm hw'')" "hw_dev hw'' = hw_dev hw'" "hw_mem hw'' = hw_mem hw'"
proof -
  obtain head i j vq1 vm1 where P: "push_chain (blk_chain ty base) (vq, hw_vm hw) = Some (Some head, vq1, vm1)"
    and V: "vq_inv vq1 vm1 {[head, i, j]}" "queue_size vq1 = qs" "last_used_idx vq1 = vm_used_idx vm1"
    and R: "\<And>d. blk_request qs (hw\<lparr>hw_dev := d, hw_vm := vm1\<rparr>) head ty sector (base + DMA_DATA) (base + DMA_STATUS)"
    by (rule blk_push_request[OF ok(1) hdr]) (rule that)
  define h1 where "h1 = notify_queue notify vb (hw\<lparr>hw_vm := vm1\<rparr>)"
  then have h1: "h1 = hw\<lparr>hw_dev := hw_dev h1, hw_vm := vm1\<rparr>" and c1: "content (hw_dev h1) = content (hw_dev hw)"
    using dev(2) by (simp_all add: notify_queue_def)
  have "blk_request qs h1 head ty sector (base + DMA_DATA) (base + DMA_STATUS)" using R[of "hw_dev h1"] h1 by metis
  moreover have "hw_vm h1 = vm1" "hw_mem h1 = hw_mem hw" by (subst h1; simp)+
  ultimately obtain n len where W: "\<forall>k < n. vm_used_idx (hw_vm ((step ^^ k) h1)) = vm_used_idx vm1"
    and D: "hw_vm ((step ^^ n) h1) = vm1\<lparr>vm_used_idx := vm_used_idx vm1 + 1,
             vm_used_ring := (vm_used_ring vm1)[unat (vm_used_idx vm1 mod qs) := (ucast head, len)]\<rparr>"
    and S: "blk_served ty sector (base + DMA_DATA) (base + DMA_STATUS) (content (hw_dev hw), hw_mem hw)
             (content (hw_dev ((step ^^ n) h1)), hw_mem ((step ^^ n) h1))"
    using dev(1) ok(2,3) c1 unfolding blk_device_def by metis
  let ?h = "(step ^^ n) h1" and ?vq = "vq1\<lparr>last_used_idx := last_used_idx vq1 + 1\<rparr>"
  have I: "length (vm_used_ring vm1) = 511" "qs \<noteq> 0" "unat qs \<le> 256" using V by (auto simp: vq_inv_def)
  obtain slot where sl: "umod16 (vm_used_idx vm1) qs = Some slot" "slot < 256" using unat_umod16[OF I(2,3)] by blast
  have "pop_used (vq1, hw_vm ?h) = Some (Some (ucast head, len), ?vq)"
    using sl V(2,3) I(1) by (simp add: pop_used_def D index_at_def) (simp add: umod16_def split: if_splits)
  then have "wait_used step vq1 h1 = Some (?vq, ?h)" by (intro wait_used_ok) (use W V(3) in simp_all)
  then have sub: "blk_submit step notify vb (blk_chain ty base) (vq, hw) = Some (Some head, ?vq, ?h)"
    using P by (simp add: blk_submit_def h1_def)
  have inv: "vq_inv ?vq (hw_vm ?h) {[head, i, j]}" using V(1) I(1) by (simp add: D)
  obtain vq2 ds where F: "free_chain head (?vq, vm_desc (hw_vm ?h)) = Some (vq2, ds)" "vq_inv vq2 ((hw_vm ?h)\<lparr>vm_desc := ds\<rparr>) {}"
    "queue_size vq2 = queue_size ?vq" "last_used_idx vq2 = last_used_idx ?vq"
    by (rule vq_free_ok[OF inv, of "[head, i, j]"]) (simp, rule that, simp_all)
  have av: "vm_avail_idx vm1 = vm_used_idx vm1 + 1" using R[of undefined] by (simp add: blk_request_def Let_def)
  have "queue_ok qs vq2 ((hw_vm ?h)\<lparr>vm_desc := ds\<rparr>)" using F V ok(1) av by (simp add: queue_ok_def D)
  then show thesis using that[OF sub S, of vq2 "?h\<lparr>hw_vm := (hw_vm ?h)\<lparr>vm_desc := ds\<rparr>\<rparr>"] F(1) by (simp add: blk_release_def)
qed

lemma length_blk_header [simp]: "length (blk_header ty sector) = 16"
  by (simp add: blk_header_def)

lemma blk_header_fields:
  assumes "mem_read m base 16 = blk_header ty sector"
  shows "of_le (mem_read m base 4) = ty" "of_le (mem_read m (base + 8) 8) = sector"
  using mem_read_sub[of 0 4 16 m base] mem_read_sub[of 8 8 16 m base] assms by (simp_all add: blk_header_def)

lemma blk_prepare_header:
  "mem_read (blk_prepare ty sector base m) base 16 = blk_header ty sector"
  "length buf = 512 \<Longrightarrow> mem_read (mem_write (base + DMA_DATA) buf (blk_prepare ty sector base m)) base 16 = blk_header ty sector"
proof -
  have "mem_read (blk_prepare ty sector base m) base 16 = mem_read (mem_write base (blk_header ty sector) m) base 16"
    using mem_read_write_other[of 0 16 528 "[0xFF]" base] by (simp add: blk_prepare_def)
  then show 1: "mem_read (blk_prepare ty sector base m) base 16 = blk_header ty sector" by simp
  show "mem_read (mem_write (base + DMA_DATA) buf (blk_prepare ty sector base m)) base 16 = blk_header ty sector" if "length buf = 512"
    using mem_read_write_other[of 0 16 16 buf base] that 1 by simp
qed

text \<open>Setting up the queue establishes the condition of the driver.\<close>

lemma setup_queues_ok:
  assumes "setup_queues react (vb, hw, pg) = Some (True, vb', hw', pg')"
    and "cfg_queue_size (react ((hw_cfg hw)\<lparr>queue_select := 0\<rparr>)) = qs" "3 \<le> unat qs" "unat qs \<le> 256" "dma_buf vb' \<noteq> 0"
  shows "virtio_ok qs vb' hw' \<and> hw_dev hw' = hw_dev hw"
proof -
  obtain vq vm pg1 where A: "vq_allocate qs (vb_hhdm_offset vb) pg = Some (Some (vq, vm), pg1)"
    and V: "queue vb' = Some vq" "hw_vm hw' = vm" "hw_dev hw' = hw_dev hw"
    using assms(1,2) by (auto simp: setup_queues_def Let_def split: if_splits Option.bind_splits option.splits prod.splits)
  have "qs \<noteq> 0" using assms(3) by auto
  then show ?thesis using vq_allocate_inv[OF A _ assms(4)] V assms(3,5) by (simp add: virtio_ok_def queue_ok_def)
qed

text \<open>A device that serves a request in one step; its state is its sectors.\<close>

definition demo_serve :: "disk \<times> (u64 \<Rightarrow> u8) \<Rightarrow> u32 \<Rightarrow> u64 \<Rightarrow> u64 \<Rightarrow> u64 \<Rightarrow> disk \<times> (u64 \<Rightarrow> u8)" where
  "demo_serve cm ty sector data st =
     (case cm of (c, m) \<Rightarrow>
        if ty = VIRTIO_BLK_T_IN then
          (case dev_read c sector of
             Some b \<Rightarrow> (c, (mem_write data b m)(st := 0))
           | None \<Rightarrow> (c, m(st := 1)))
        else (case dev_write c sector (mem_read m data 512) of (ok, c') \<Rightarrow> (c', m(st := if ok then 0 else 1))))"

definition demo_step :: "u16 \<Rightarrow> disk hw \<Rightarrow> disk hw" where
  "demo_step qs hw =
     (let vm = hw_vm hw; ds = vm_desc vm; m = hw_mem hw
      in if vm_avail_idx vm = vm_used_idx vm then hw
         else let slot = unat (vm_used_idx vm mod qs); head = vm_avail_ring vm ! slot; i = d_next (ds ! unat head); j = d_next (ds ! unat i);
                  a = d_addr (ds ! unat head);
                  cm = demo_serve (hw_dev hw, m) (of_le (mem_read m a 4)) (of_le (mem_read m (a + 8) 8)) (d_addr (ds ! unat i)) (d_addr (ds ! unat j))
              in hw\<lparr>hw_dev := fst cm, hw_mem := snd cm,
                   hw_vm := vm\<lparr>vm_used_idx := vm_used_idx vm + 1, vm_used_ring := (vm_used_ring vm)[slot := (ucast head, 1)]\<rparr>\<rparr>)"

lemma demo_serve_served:
  assumes "512 \<le> unat (st - data)" "disk_wf c"
  shows "blk_served ty sector data st (c, m) (demo_serve (c, m) ty sector data st)"
proof -
  have "data + of_nat k \<noteq> st" if "k < 512" for k
  proof
    assume "data + of_nat k = st"
    then have "unat (st - data) = unat (of_nat k :: u64)" by auto
    then show False using assms(1) that by (simp add: unat_of_nat_less)
  qed
  then have "mem_read (m'(st := v)) data 512 = mem_read m' data 512" for m' v by (auto simp: mem_read_def simp del: upt_rec_numeral)
  then show ?thesis using assms(2)
    by (auto simp: blk_served_def demo_serve_def disk_wf_def dev_read_def dev_write_def split: option.splits)
qed

lemma demo_step_device: "blk_device (demo_step qs) (\<lambda>c. c) qs"
  unfolding blk_device_def
proof (intro allI impI, elim conjE, intro exI[of _ 1] conjI)
  fix hw head ty sector data st
  assume r: "blk_request qs hw head ty sector data st" "disk_wf (hw_dev hw)"
  let ?c = "demo_serve (hw_dev hw, hw_mem hw) ty sector data st"
  have "demo_step qs hw = hw\<lparr>hw_dev := fst ?c, hw_mem := snd ?c,
      hw_vm := (hw_vm hw)\<lparr>vm_used_idx := vm_used_idx (hw_vm hw) + 1,
        vm_used_ring := (vm_used_ring (hw_vm hw))[unat (vm_used_idx (hw_vm hw) mod qs) := (ucast head, 1)]\<rparr>\<rparr>"
    using r(1) by (simp add: blk_request_def demo_step_def Let_def)
  then show "hw_vm ((demo_step qs ^^ 1) hw) = (hw_vm hw)\<lparr>vm_used_idx := vm_used_idx (hw_vm hw) + 1,
        vm_used_ring := (vm_used_ring (hw_vm hw))[unat (vm_used_idx (hw_vm hw) mod qs) := (ucast head, 1)]\<rparr>"
    "blk_served ty sector data st (hw_dev hw, hw_mem hw) (hw_dev ((demo_step qs ^^ 1) hw), hw_mem ((demo_step qs ^^ 1) hw))"
    using demo_serve_served[of st data "hw_dev hw" ty sector "hw_mem hw"] r by (simp_all add: blk_request_def Let_def)
qed simp

definition demo_cfg :: VirtioCommonCfg where
  "demo_cfg = \<lparr> device_feature_select = 0, device_feature = 0, driver_feature_select = 0, driver_feature = 0, msix_config = 0,
     num_queues = 1, device_status = 11, config_generation = 0, queue_select = 0, cfg_queue_size = 4, queue_msix_vector = 0,
     queue_enable = 0, queue_notify_off = 0, queue_desc_lo = 0, queue_desc_hi = 0, queue_avail_lo = 0, queue_avail_hi = 0,
     queue_used_lo = 0, queue_used_hi = 0 \<rparr>"

definition demo_vb :: VirtioBlock where
  "demo_vb = \<lparr> common_cfg = 0x1000, notify_cfg_base = 0x2000, notify_off_multiplier = 4, isr_cfg = 0x3000, device_cfg = 0x4000,
     pci_dev = pci_at 0 4 0, queue = None, vb_hhdm_offset = 0xFFFF800000000000, dma_buf = 0 \<rparr>"

definition demo_hw :: "disk hw" where
  "demo_hw = \<lparr> hw_dev = [7 \<mapsto> replicate SECTOR 0x55], hw_cfg = demo_cfg, hw_vm = zero_mem, hw_mem = \<lambda>_. 0 \<rparr>"

section \<open>Properties\<close>

text \<open>C26: The driver refines the sector device the file systems are built on. On a device that behaves as the
  VirtIO specification says, from a set-up driver, reading a sector returns: the contents of the
  sector, or an error exactly when the device has no such sector. Writing 512 bytes returns and
  replaces exactly that sector, or reports an error and changes nothing. All descriptors are free
  again afterwards, so the next request finds the driver in the same condition.\<close>

theorem virtio_refines_disk:
  assumes dev: "blk_device step content qs" "\<forall>a d. content (notify a d) = content d"
    and ok: "virtio_ok qs vb hw" "disk_wf (content (hw_dev hw))"
  shows "(\<exists>vb' hw'. blk_read_sector step notify sector (vb, hw) =
        Some (case dev_read (content (hw_dev hw)) sector of None \<Rightarrow> Inl IoError | Some b \<Rightarrow> Inr b, vb', hw') \<and>
        virtio_ok qs vb' hw' \<and> content (hw_dev hw') = content (hw_dev hw)) \<and>
    (length buf = 512 \<longrightarrow> (\<exists>vb' hw'. blk_write_sector step notify sector buf (vb, hw) =
        Some (if fst (dev_write (content (hw_dev hw)) sector buf) then Inr () else Inl IoError, vb', hw') \<and>
        virtio_ok qs vb' hw' \<and> content (hw_dev hw') = snd (dev_write (content (hw_dev hw)) sector buf)))"
proof (intro conjI impI)
  let ?b = "dma_buf vb - vb_hhdm_offset vb"
  obtain vq where q: "queue vb = Some vq" "queue_ok qs vq (hw_vm hw)" and d: "dma_buf vb \<noteq> 0" using ok(1) by (auto simp: virtio_ok_def)
  let ?r = "hw\<lparr>hw_mem := blk_prepare VIRTIO_BLK_T_IN sector ?b (hw_mem hw)\<rparr>"
  have H: "mem_read (hw_mem ?r) ?b 16 = blk_header VIRTIO_BLK_T_IN sector" by (simp add: blk_prepare_header)
  have pre: "queue_ok qs vq (hw_vm ?r)" "disk_wf (content (hw_dev ?r))" using q ok by simp_all
  obtain head v1 h1 v2 h2 where R: "blk_submit step notify vb (blk_chain VIRTIO_BLK_T_IN ?b) (vq, ?r) = Some (Some head, v1, h1)"
    "blk_served VIRTIO_BLK_T_IN sector (?b + DMA_DATA) (?b + DMA_STATUS) (content (hw_dev ?r), hw_mem ?r) (content (hw_dev h1), hw_mem h1)"
    "blk_release head (v1, h1) = Some (v2, h2)" "queue_ok qs v2 (hw_vm h2)" "hw_dev h2 = hw_dev h1" "hw_mem h2 = hw_mem h1"
    by (rule blk_submit_ok[OF dev pre _ blk_header_fields[OF H]]) (simp, rule that)
  show "\<exists>vb' hw'. blk_read_sector step notify sector (vb, hw) =
        Some (case dev_read (content (hw_dev hw)) sector of None \<Rightarrow> Inl IoError | Some b \<Rightarrow> Inr b, vb', hw') \<and>
        virtio_ok qs vb' hw' \<and> content (hw_dev hw') = content (hw_dev hw)"
    using R q d by (intro exI[of _ "vb\<lparr>queue := Some v2\<rparr>"] exI[of _ h2])
      (simp add: blk_read_sector_def blk_chain_def blk_served_def virtio_ok_def split: option.splits)
  assume len: "length buf = 512"
  let ?w = "hw\<lparr>hw_mem := mem_write (?b + DMA_DATA) buf (blk_prepare VIRTIO_BLK_T_OUT sector ?b (hw_mem hw))\<rparr>"
  have H: "mem_read (hw_mem ?w) ?b 16 = blk_header VIRTIO_BLK_T_OUT sector" using blk_prepare_header(2)[OF len] by simp
  have pre: "queue_ok qs vq (hw_vm ?w)" "disk_wf (content (hw_dev ?w))" using q ok by simp_all
  obtain head v1 h1 v2 h2 where W: "blk_submit step notify vb (blk_chain VIRTIO_BLK_T_OUT ?b) (vq, ?w) = Some (Some head, v1, h1)"
    "blk_served VIRTIO_BLK_T_OUT sector (?b + DMA_DATA) (?b + DMA_STATUS) (content (hw_dev ?w), hw_mem ?w) (content (hw_dev h1), hw_mem h1)"
    "blk_release head (v1, h1) = Some (v2, h2)" "queue_ok qs v2 (hw_vm h2)" "hw_dev h2 = hw_dev h1" "hw_mem h2 = hw_mem h1"
    by (rule blk_submit_ok[OF dev pre _ blk_header_fields[OF H]]) (simp, rule that)
  show "\<exists>vb' hw'. blk_write_sector step notify sector buf (vb, hw) =
        Some (if fst (dev_write (content (hw_dev hw)) sector buf) then Inr () else Inl IoError, vb', hw') \<and>
        virtio_ok qs vb' hw' \<and> content (hw_dev hw') = snd (dev_write (content (hw_dev hw)) sector buf)"
    using W q d len by (intro exI[of _ "vb\<lparr>queue := Some v2\<rparr>"] exI[of _ h2])
      (simp add: blk_write_sector_def blk_chain_def blk_served_def virtio_ok_def)
qed

theorem virtio_refines_disk_witness:
  "\<exists>vb hw pg. setup_queues (\<lambda>c. c) (demo_vb, demo_hw, Some demo_pages) = Some (True, vb, hw, pg) \<and>
     (\<exists>vb' hw'. blk_read_sector (demo_step 4) (\<lambda>_ d. d) 7 (vb, hw) = Some (Inr (replicate SECTOR 0x55), vb', hw')) \<and>
     (\<exists>vb' hw'. blk_write_sector (demo_step 4) (\<lambda>_ d. d) 9 (replicate 512 1) (vb, hw) = Some (Inl IoError, vb', hw'))"
proof -
  have z: "\<forall>i \<in> set [0..<unat (4 :: u16)]. i < length (vm_desc zero_mem)" by simp
  obtain ds where "init_descs 4 [0..<unat (4 :: u16)] (vm_desc zero_mem) = Some ds" using init_descs_ok[OF z distinct_upt] by blast
  then obtain vb hw pg where S: "setup_queues (\<lambda>c. c) (demo_vb, demo_hw, Some demo_pages) = Some (True, vb, hw, pg)" and d: "dma_buf vb \<noteq> 0"
    by (simp add: setup_queues_def vq_allocate_def alloc_dma_page_def demo_pages_def static_alloc_new_def allocate_frame.simps
      demo_hw_def demo_cfg_def demo_vb_def)
  have c: "virtio_ok 4 vb hw" "hw_dev hw = hw_dev demo_hw" using setup_queues_ok[OF S, of 4] d by (simp_all add: demo_hw_def demo_cfg_def)
  have "disk_wf (hw_dev hw)" using c(2) by (simp add: demo_hw_def disk_wf_def)
  note D = virtio_refines_disk[where content = "\<lambda>c. c" and notify = "\<lambda>_ d. d", simplified, OF demo_step_device c(1) this]
  show ?thesis
    using S D[of 7 "replicate 512 0"] D[of 9 "replicate 512 1"] c(2) by (simp add: demo_hw_def dev_read_def dev_write_def) blast
qed

end
