(* ===== verification/Spec2Isabelle.thy ===== *)
theory Spec2Isabelle
  imports Kernel_Types Capability Index_Sched Ext2_Vfs Fat_Vfs Virtio
begin

text \<open>
  Verification of the Serix kernel, a single-CPU x86-64 kernel in Rust (sources under src/).

  \<^bold>\<open>The program.\<close> The kernel runs user processes and kernel tasks from one run queue (task/, kernel/src/process.rs,
  loader/), serves their system calls (kernel/src/syscall.rs) through a descriptor table (kernel/src/fd.rs, stdio.rs),
  a virtual file system (vfs/), pipes (kernel/src/pipe.rs), message ports (ipc/), a keyboard buffer (keyboard/) and
  a text terminal on the framebuffer (graphics/), keeps files on ext2 and FAT32 volumes (fs/) behind a VirtIO block
  device (drivers/), and manages physical frames, kernel memory and page tables (memory/). Capabilities
  (capability/) are a library of their own.

  \<^bold>\<open>Conventions.\<close> u8 to u64 are words, usize is u64, or a natural number where every value is bounded by the
  width of the fields it is computed from; arithmetic wraps as in a release build. A definition of
  type option returns \<open>None\<close> where the source panics, reads or writes outside an object, or loops for ever;
  an error the source returns is the left part of a sum or an inner \<open>None\<close>. Strings are their UTF-8 bytes. An
  Arc is a reference into a heap that is part of the state. Locks are not modelled: there is one CPU and
  every operation runs with interrupts masked or to its end; where a task blocks and another
  continues, the step is explicit. Code outside the repository is an argument: the page mapper of the x86_64 crate
  (\<open>map_to\<close>), the VirtIO device (\<open>step\<close>, \<open>notify\<close>, \<open>react\<close>), configuration writes (\<open>cfg_write\<close>), the
  time stamp counter, and the address of the assembly trampoline.

  \<^bold>\<open>Shared theories.\<close>
  \<^item> Prelude: machine integers, panicking slices, little-endian fields, UTF-8, byte-addressed memory.
  \<^item> BTree\_Map: Rust's BTreeMap; locale \<open>keyed_map\<close>, interpreted on it.
  \<^item> Fifo: locale \<open>bounded_fifo\<close>, interpreted on the keyboard buffer and on a port.
  \<^item> Ring: contents of a circular buffer.

  \<^bold>\<open>Tasks and processes.\<close>
  \<^item> Task (task/src/lib.rs, scheduler.rs, context\_switch.rs): control blocks, run queue, preemption,
    blocking, waking, zombies, the register switch. Proc (exit and wait of syscall.rs) and the step relation of all scheduler operations:
    no task is in two places, a preempted task gets all its registers back, scheduling is round robin, an exit
    status is delivered once; a parent blocked in wait is not woken.
  \<^item> Wait\_List: tasks blocked on a resource; locale \<open>blocking_resource\<close>, interpreted on pipes and ports: no wake-up is lost.
  \<^item> Executor (task/src/executor.rs, lib.rs): the two asynchronous executors poll every future once per round.
  \<^item> Index\_Sched (task/src/lib.rs): the task builder and the index-based scheduler, which the kernel creates and does not run from.
  \<^item> Loader (loader/src): a loaded image has exactly the segments of the loadable headers.
  \<^item> Process (kernel/src/process.rs): address space, stacks and task of a new process, over the memory of
    the machine: every byte of every segment is where the file says, and the task enters at the entry point.

  \<^bold>\<open>System calls and their objects.\<close>
  \<^item> Pipe, Ipc, Keyboard: byte stream, exactly-once messages and key queue, each as a refinement or an invariant
    over every sequence of operations.
  \<^item> Vfs (vfs/src/lib.rs): mounts, path resolution by longest prefix, RAM files and directories.
  \<^item> Console (graphics/src): both consoles and the screen fills; the framebuffer shows the character grid of a
    terminal pixel by pixel, and printing panics exactly on characters without a glyph.
  \<^item> Fd (kernel/src/fd.rs, stdio.rs): the kernel state the calls share and the descriptor table.
  \<^item> Syscall (kernel/src/syscall.rs): all handlers and the dispatcher: kernel memory and the descriptors of other
    tasks are never written, data written or sent is what is read or received, directory listings, pointer checks.
  \<^item> Kernel\_Types: well-typed kernel states, their preservation by every step, and where a call can panic.
  \<^item> Capability (capability/src): handles, generator and store.

  \<^bold>\<open>Storage and memory.\<close>
  \<^item> Block\_Dev (fs/src/lib.rs): the sector device, the registry and the raw device node.
  \<^item> Ext2\_Disk, Ext2\_Alloc, Ext2\_Inode, Ext2\_Dir, Ext2\_Vfs (fs/src/ext2): superblock and group descriptors,
    bitmap allocation (locale \<open>slot_allocator\<close>, interpreted on blocks and on inodes), inodes with up to triple indirection, directory blocks,
    and the VFS nodes: allocation never shares a block or inode, maps and files read back what was written.
  \<^item> Fat\_Table, Fat\_Dir, Fat\_Vfs (fs/src/fat32/mod.rs): table and chains, directory entries with long names, files and nodes.
  \<^item> Pci, Virtqueue, Virtio (drivers/src): configuration space, the split queue, and the block driver, which
    implements the sector device of Block\_Dev on a device that follows the VirtIO specification.
  \<^item> Memory (memory/src): frame allocators, SLUB, kernel stacks, heap and page tables: live SLUB blocks never overlap.

  \<^bold>\<open>Bounds and loops.\<close> No fuel is used. Loops that may not end are partial functions into option
  (\<open>next_fd_from\<close>, \<open>cluster_chain\<close>, \<open>delete_slots\<close>, \<open>find_cap_from\<close>, \<open>walk_caps\<close>, \<open>wait_used\<close>, \<open>read_all\<close>); that
  they return is proved where the source relies on it: the descriptor search with fewer than \<open>2^64 - 3\<close>
  entries, a cluster chain exactly when the table has no cycle, the wait for the device when it answers,
  reading a RAM file. All other loops have termination proofs. Numeric hypotheses
  (buffers shorter than \<open>2^64\<close> bytes, at most 65536 boot frames, the 2048 bytes of the font) are facts of the machine or of the data.

  \<^bold>\<open>Not modelled.\<close>
  \<^item> kernel/src/main.rs, gdt.rs, idt/: boot order, descriptor tables and interrupt stubs are hardware set-up by
    privileged instructions; the scheduler state they leave is \<open>boot_sched\<close>.
  \<^item> apic/, hal/: memory-mapped and port input and output. Serial output is the list of bytes sent.
  \<^item> kernel/src/kshell.rs: an interactive command loop over the operations modelled here, with formatted output.
  \<^item> ulib/: user-side system call stubs in assembly and their formatting, outside the kernel. util/: panic output.
  \<^item> The wrappers of Rust futures and wakers in task/src, which hold no state of their own.
  \<^item> The MSR set-up and assembly entry of system calls, the trampoline to ring 3, and the construction of page-table views from raw pointers.
  \<^item> Time, caches and concurrency with devices other than the block device.
\<close>

end
